(* ===== verification/Prelude.thy ===== *)
theory Prelude
  imports Main "HOL-Library.Word" "HOL-Library.Signed_Division"
begin

unbundle bit_operations_syntax

text \<open>
  Shared vocabulary of the development: the fixed-width integer types of the C++ sources, two's
  complement wrap-around for the signed ones, and the generic facts on words, lists and numbers
  that the component theories use.
\<close>

section \<open>Integer types\<close>

type_synonym u8 = "8 word"
type_synonym u16 = "16 word"
type_synonym u32 = "32 word"
type_synonym u64 = "64 word"
type_synonym bytes = "8 word list"

named_theorems word_val \<open>rules that turn operations on words into operations on natural numbers\<close>

text \<open>
  Signed C++ integers are modelled as \<^typ>\<open>int\<close>; an operation that could leave the range of
  the type is followed by the two's complement reduction to its width.
\<close>

definition wrap :: "nat \<Rightarrow> int \<Rightarrow> int" where
  "wrap w x = (x + 2 ^ (w - 1)) mod 2 ^ w - 2 ^ (w - 1)"

abbreviation wrap64 :: "int \<Rightarrow> int" where "wrap64 \<equiv> wrap 64"
abbreviation wrap32 :: "int \<Rightarrow> int" where "wrap32 \<equiv> wrap 32"

lemma wrap_id: "0 < w \<Longrightarrow> - (2 ^ (w - 1)) \<le> x \<Longrightarrow> x < 2 ^ (w - 1) \<Longrightarrow> wrap w x = x"
proof -
  assume w: "0 < w" and lo: "- (2 ^ (w - 1)) \<le> x" and hi: "x < 2 ^ (w - 1)"
  have "(2::int) ^ w = 2 ^ (w - 1) + 2 ^ (w - 1)"
    using w by (cases w) simp_all
  with lo hi show ?thesis by (simp add: wrap_def)
qed

lemma wrap64_id [simp]:
  "- 9223372036854775808 \<le> x \<Longrightarrow> x < 9223372036854775808 \<Longrightarrow> wrap64 x = x"
  using wrap_id [of 64 x] by simp

lemma wrap32_id [simp]: "- 2147483648 \<le> x \<Longrightarrow> x < 2147483648 \<Longrightarrow> wrap32 x = x"
  using wrap_id [of 32 x] by simp

section \<open>Words as numbers\<close>

lemma and_ffffffff: "(n AND 0xffffffff :: u64) = take_bit 32 n"
  by (simp add: take_bit_eq_mask mask_eq_exp_minus_1)

lemma unat_lo32 [word_val]: "unat (ucast (n AND 0xffffffff :: u64) :: u32) = unat n mod 2 ^ 32"
proof -
  have "unat (ucast (n AND 0xffffffff :: u64) :: u32) = take_bit 32 (take_bit 32 (unat n))"
    by (simp only: and_ffffffff unsigned_ucast_eq unsigned_take_bit_eq) simp
  then show ?thesis by (simp add: take_bit_eq_mod)
qed

lemma unat_drop_bit [word_val]: "unat (drop_bit k (n :: 'a::len word)) = unat n div 2 ^ k"
  unfolding unat_drop_bit_eq by (rule drop_bit_eq_div)

lemma unat_lt_32: "unat (x :: u32) < 4294967296"
  using unsigned_less [of x] by simp

lemma unat_lt_64: "unat (x :: u64) < 18446744073709551616"
  using unsigned_less [of x] by simp

lemma unat_ucast_32_64 [word_val]: "unat (ucast (x :: u32) :: u64) = unat x"
proof -
  have "unat x < 4294967296" by (rule unat_lt_32)
  then have "unat x < 2 ^ 64" by simp
  then show ?thesis by (simp add: unsigned_ucast_eq take_bit_nat_eq_self)
qed

lemma unat_NOT_32 [word_val]: "unat (NOT (x :: u32)) = 2 ^ 32 - 1 - unat x"
proof -
  have "NOT x = - 1 - x" by (simp add: not_eq_complement)
  then have "unat (NOT x) = unat (- 1 :: u32) - unat x"
    by (simp add: unat_sub)
  then show ?thesis by (simp add: unsigned_minus_1_eq_mask mask_eq_exp_minus_1)
qed

lemma plus_1_eq_0_32: "(x + 1 :: u32) = 0 \<longleftrightarrow> unat x = 2 ^ 32 - 1"
proof -
  have "unat (x + 1) = (unat x + 1) mod 2 ^ 32" by (simp add: unat_word_ariths)
  with unat_lt_32 [of x] have "unat (x + 1) = 0 \<longleftrightarrow> unat x = 2 ^ 32 - 1"
    by (cases "unat x + 1 = 2 ^ 32") simp_all
  then show ?thesis by (simp add: unsigned_eq_0_iff)
qed

lemma unat_plus_1_32: "x + 1 \<noteq> 0 \<Longrightarrow> unat (x + 1 :: u32) = unat x + 1"
  using unat_lt_32 [of x] by (simp add: unat_word_ariths plus_1_eq_0_32)

lemma unat_add_no_wrap:
  "unat a + unat b < 2 ^ LENGTH('a) \<Longrightarrow> unat (a + b :: 'a::len word) = unat a + unat b"
  by (simp add: unat_word_ariths)

lemma unat_mult_no_wrap:
  "unat a * unat b < 2 ^ LENGTH('a) \<Longrightarrow> unat (a * b :: 'a::len word) = unat a * unat b"
  by (simp add: unat_word_ariths)

lemma bit_nat_le: "bit (n :: nat) k \<Longrightarrow> 2 ^ k \<le> n"
proof (rule ccontr)
  assume b: "bit n k" and "\<not> 2 ^ k \<le> n"
  then have "take_bit k n = n" by (simp add: take_bit_nat_eq_self)
  with b have "bit (take_bit k n) k" by simp
  then show False by (simp add: bit_take_bit_iff)
qed

lemma div_mod_unique:
  fixes q r d :: nat
  assumes "r < d"
  shows "(q * d + r) div d = q" and "(q * d + r) mod d = r"
  using assms by simp_all

lemma unat_and_mask: "unat (x AND mask k :: 'a::len word) = unat x mod 2 ^ k"
  unfolding take_bit_eq_mask [symmetric] unsigned_take_bit_eq by (rule take_bit_eq_mod)

lemma unat_or_disjoint:
  assumes "unat (x :: 'a::len word) < 2 ^ k" and "unat y = 2 ^ k * m"
  shows "unat (x OR y) = unat x + 2 ^ k * m"
proof -
  have "unat x AND push_bit k m = 0"
  proof (rule bit_eqI)
    fix i
    have "\<not> bit (unat x) i" if "k \<le> i"
    proof
      assume "bit (unat x) i"
      then have "2 ^ i \<le> unat x" by (rule bit_nat_le)
      moreover have "(2::nat) ^ k \<le> 2 ^ i" using that by (intro power_increasing) simp_all
      ultimately show False using assms(1) by linarith
    qed
    then show "bit (unat x AND push_bit k m) i = bit 0 i" by (auto simp: bit_and_iff bit_push_bit_iff)
  qed
  then have "unat x OR push_bit k m = unat x + push_bit k m" by (rule disjunctive_add_eq_or [symmetric])
  then show ?thesis using assms(2) by (simp only: unsigned_or_eq push_bit_eq_mult mult.commute)
qed

end
