(* ===== verification/Bytes.thy ===== *)
theory Bytes
  imports Prelude
begin

text \<open>
  \<^verbatim>\<open>src/crypto/common.h\<close>: fixed-width integers as byte strings, in little-endian and in big-endian
  order, with the round trips in both directions and the number that a byte string denotes.
\<close>

section \<open>Reading and writing fixed-width integers\<close>

primrec le_bytes :: "nat \<Rightarrow> 'a::len word \<Rightarrow> bytes" where
  "le_bytes 0 x = []"
| "le_bytes (Suc n) x = ucast x # le_bytes n (drop_bit 8 x)"

primrec le_word :: "bytes \<Rightarrow> 'a::len word" where
  "le_word [] = 0"
| "le_word (b # bs) = ucast b OR push_bit 8 (le_word bs)"

definition WriteLE16 :: "u16 \<Rightarrow> bytes" where "WriteLE16 x = le_bytes 2 x"
definition WriteLE32 :: "u32 \<Rightarrow> bytes" where "WriteLE32 x = le_bytes 4 x"
definition WriteLE64 :: "u64 \<Rightarrow> bytes" where "WriteLE64 x = le_bytes 8 x"
definition ReadLE16 :: "bytes \<Rightarrow> u16" where "ReadLE16 p = le_word (take 2 p)"
definition ReadLE32 :: "bytes \<Rightarrow> u32" where "ReadLE32 p = le_word (take 4 p)"
definition ReadLE64 :: "bytes \<Rightarrow> u64" where "ReadLE64 p = le_word (take 8 p)"
definition WriteBE32 :: "u32 \<Rightarrow> bytes" where "WriteBE32 x = rev (le_bytes 4 x)"
definition WriteBE64 :: "u64 \<Rightarrow> bytes" where "WriteBE64 x = rev (le_bytes 8 x)"
definition ReadBE32 :: "bytes \<Rightarrow> u32" where "ReadBE32 p = le_word (rev (take 4 p))"
definition ReadBE64 :: "bytes \<Rightarrow> u64" where "ReadBE64 p = le_word (rev (take 8 p))"

text \<open>\<open>CountBits\<close>, the portable loop.\<close>

function CountBits_loop :: "u64 \<Rightarrow> nat \<Rightarrow> nat" where
  "CountBits_loop x ret = (if x = 0 then ret else CountBits_loop (drop_bit 1 x) (ret + 1))"
  by pat_completeness auto
termination
  by (relation "measure (\<lambda>(x, ret). unat x)") (auto simp: unat_drop_bit unat_gt_0 simp del: drop_bit_Suc)

declare CountBits_loop.simps [simp del]

definition CountBits :: "u64 \<Rightarrow> nat" where
  "CountBits x = CountBits_loop x 0"

text \<open>The number denoted by a little-endian byte string.\<close>

primrec bval :: "bytes \<Rightarrow> nat" where
  "bval [] = 0"
| "bval (b # bs) = unat b + 256 * bval bs"

section \<open>Facts\<close>

lemma length_le_bytes [simp]: "length (le_bytes n x) = n"
  by (induction n arbitrary: x) simp_all

lemma bval_less: "bval bs < 256 ^ length bs"
proof (induction bs)
  case (Cons b bs)
  have "unat b < 256" using unsigned_less [of b, where ?'a = nat] by simp
  with Cons show ?case by simp
qed simp

lemma bval_append: "bval (xs @ ys) = bval xs + 256 ^ length xs * bval ys"
  by (induction xs) (simp_all add: algebra_simps)

lemma bval_inject: "length xs = length ys \<Longrightarrow> bval xs = bval ys \<Longrightarrow> xs = ys"
proof (induction xs ys rule: list_induct2)
  case (Cons x xs y ys)
  have b: "unat x < 256" "unat y < 256"
    using unsigned_less [of x, where ?'a = nat] unsigned_less [of y, where ?'a = nat] by simp_all
  have "(unat x + 256 * bval xs) mod 256 = (unat y + 256 * bval ys) mod 256"
    and "(unat x + 256 * bval xs) div 256 = (unat y + 256 * bval ys) div 256"
    using Cons.prems by simp_all
  with b have "unat x = unat y" "bval xs = bval ys" by simp_all
  with Cons.IH show ?case by (simp add: unsigned_word_eqI)
qed simp

lemma le_word_append: "(le_word (xs @ ys) :: 'a::len word) = le_word xs OR push_bit (8 * length xs) (le_word ys)"
  by (induction xs) (simp_all add: push_bit_or push_bit_push_bit or.assoc add.commute)

lemma bval_le_bytes: "bval (le_bytes n x) = unat x mod 256 ^ n"
proof (induction n arbitrary: x)
  case (Suc n)
  have "unat (ucast x :: u8) = unat x mod 256" by (simp add: unsigned_ucast_eq take_bit_eq_mod)
  with Suc show ?case by (simp add: unat_drop_bit mod_mult2_eq)
qed simp

lemma unat_le_word: "(256::nat) ^ length bs \<le> 2 ^ LENGTH('a) \<Longrightarrow> unat (le_word bs :: 'a::len word) = bval bs"
proof (induction bs)
  case (Cons b bs)
  have fit: "256 * bval bs < 2 ^ LENGTH('a)" and len: "256 ^ length bs \<le> (2::nat) ^ LENGTH('a)"
    using Cons.prems bval_less [of bs] by simp_all
  have "unat (push_bit 8 (le_word bs :: 'a word)) = take_bit LENGTH('a) (push_bit 8 (bval bs))"
    using Cons.IH [OF len] by (simp add: unsigned_push_bit_eq)
  also have "\<dots> = 2 ^ 8 * bval bs"
    using fit by (simp add: push_bit_eq_mult take_bit_nat_eq_self)
  finally have hi: "unat (push_bit 8 (le_word bs :: 'a word)) = 2 ^ 8 * bval bs" .
  have "(256::nat) \<le> 256 ^ length (b # bs)" by simp
  then have "(256::nat) \<le> 2 ^ LENGTH('a)" using Cons.prems by (rule order_trans)
  moreover have b: "unat b < 256" using unsigned_less [of b, where ?'a = nat] by simp
  ultimately have lo: "unat (ucast b :: 'a word) = unat b"
    by (simp add: unsigned_ucast_eq take_bit_nat_eq_self)
  show ?case using unat_or_disjoint [of "ucast b :: 'a word" 8, OF _ hi] lo b by simp
qed simp

lemma le_word_le_bytes:
  "LENGTH('a) = 8 * n \<Longrightarrow> le_word (le_bytes n x) = (x :: 'a::len word)"
proof (rule unsigned_word_eqI)
  assume n: "LENGTH('a) = 8 * n"
  then have p: "(256::nat) ^ n = 2 ^ LENGTH('a)" by (simp add: power_mult)
  then show "unat (le_word (le_bytes n x) :: 'a word) = unat x"
    using unsigned_less [of x, where ?'a = nat] by (simp add: unat_le_word bval_le_bytes)
qed

lemma le_bytes_le_word:
  "length bs = n \<Longrightarrow> 8 * n \<le> LENGTH('a) \<Longrightarrow> le_bytes n (le_word bs :: 'a::len word) = bs"
proof (rule bval_inject)
  assume n: "length bs = n" "8 * n \<le> LENGTH('a)"
  have "(256::nat) ^ n = 2 ^ (8 * n)" by (simp add: power_mult)
  also have "\<dots> \<le> 2 ^ LENGTH('a)" using n by (intro power_increasing) simp_all
  finally show "bval (le_bytes n (le_word bs :: 'a word)) = bval bs"
    using n bval_less [of bs] by (simp add: bval_le_bytes unat_le_word)
qed simp

lemma CountBits_loop_bounds:
  "\<exists>c. CountBits_loop x ret = ret + c \<and> unat x < 2 ^ c \<and> (x \<noteq> 0 \<longrightarrow> 0 < c \<and> 2 ^ (c - 1) \<le> unat x)"
proof (induction x ret rule: CountBits_loop.induct)
  case (1 x ret)
  show ?case
  proof (cases "x = 0")
    case True
    then show ?thesis by (simp add: CountBits_loop.simps)
  next
    case False
    let ?y = "drop_bit 1 x"
    have y: "unat ?y = unat x div 2" by (simp only: unat_drop_bit) simp
    from 1 [OF False] obtain c where c: "CountBits_loop ?y (ret + 1) = ret + 1 + c" "unat ?y < 2 ^ c"
      "?y \<noteq> 0 \<longrightarrow> 0 < c \<and> 2 ^ (c - 1) \<le> unat ?y" by blast
    have "unat x < 2 ^ Suc c" using c(2) by (simp only: y) simp
    moreover have "2 ^ c \<le> unat x"
    proof (cases "?y = 0")
      case True
      then have "unat ?y = 0" by simp
      then have "CountBits_loop ?y (ret + 1) = ret + 1" using True by (simp add: CountBits_loop.simps)
      then have "c = 0" using c(1) by simp
      then show ?thesis using False by (simp add: unat_gt_0 Suc_le_eq)
    next
      case False
      then have "0 < c" "2 ^ (c - 1) \<le> unat x div 2" using c(3) unfolding y by blast+
      then have "2 * 2 ^ (c - 1) \<le> unat x" by simp
      then show ?thesis using \<open>0 < c\<close> by (simp flip: power_Suc)
    qed
    ultimately show ?thesis
      using False c(1) by (intro exI [of _ "Suc c"]) (simp add: CountBits_loop.simps [of x])
  qed
qed

lemma CountBits_bounds:
  "unat x < 2 ^ CountBits x" "x \<noteq> 0 \<Longrightarrow> 2 ^ (CountBits x - 1) \<le> unat x"
  using CountBits_loop_bounds [of x 0] by (auto simp: CountBits_def)

end
