(* ===== verification/ArithUint256.thy ===== *)
theory ArithUint256
  imports Bytes
begin

text \<open>
  \<^verbatim>\<open>src/arith_uint256.h\<close>, \<^verbatim>\<open>src/arith_uint256.cpp\<close>: the 256-bit unsigned integers of the
  proof-of-work code. A number is its array \<open>pn\<close> of \<open>WIDTH\<close> 32-bit limbs, least significant
  first. The operations are the limb loops of the source; the lemmas relate each of them to
  arithmetic modulo \<open>2 ^ 256\<close> on the number \<open>uval\<close> that the limbs denote.
\<close>

section \<open>Representation\<close>

type_synonym base_uint = "u32 list"

definition WIDTH :: nat where
  "WIDTH = 8"

primrec uval :: "base_uint \<Rightarrow> nat" where
  "uval [] = 0"
| "uval (x # xs) = unat x + 2 ^ 32 * uval xs"

definition wf_uint :: "base_uint \<Rightarrow> bool" where
  "wf_uint a \<longleftrightarrow> length a = WIDTH"

section \<open>Operations\<close>

definition base_uint_zero :: base_uint where
  "base_uint_zero = replicate WIDTH 0"

definition base_uint_of_u64 :: "u64 \<Rightarrow> base_uint" where
  "base_uint_of_u64 b = [ucast b, ucast (drop_bit 32 b)] @ replicate (WIDTH - 2) 0"

definition op_not :: "base_uint \<Rightarrow> bool" where
  "op_not a \<longleftrightarrow> list_all (\<lambda>x. x = 0) a"

definition op_compl :: "base_uint \<Rightarrow> base_uint" where
  "op_compl a = map (\<lambda>x. NOT x) a"

definition op_xor :: "base_uint \<Rightarrow> base_uint \<Rightarrow> base_uint" where
  "op_xor a b = map2 (\<lambda>x y. x XOR y) a b"

definition op_and :: "base_uint \<Rightarrow> base_uint \<Rightarrow> base_uint" where
  "op_and a b = map2 (\<lambda>x y. x AND y) a b"

definition op_or :: "base_uint \<Rightarrow> base_uint \<Rightarrow> base_uint" where
  "op_or a b = map2 (\<lambda>x y. x OR y) a b"

definition op_xor64 :: "base_uint \<Rightarrow> u64 \<Rightarrow> base_uint" where
  "op_xor64 a b = a[0 := a ! 0 XOR ucast b, 1 := a ! 1 XOR ucast (drop_bit 32 b)]"

definition op_or64 :: "base_uint \<Rightarrow> u64 \<Rightarrow> base_uint" where
  "op_or64 a b = a[0 := a ! 0 OR ucast b, 1 := a ! 1 OR ucast (drop_bit 32 b)]"

text \<open>The increment and decrement loops stop at the first limb that does not wrap.\<close>

fun op_incr :: "base_uint \<Rightarrow> base_uint" where
  "op_incr [] = []"
| "op_incr (x # xs) = (if x + 1 = 0 then (x + 1) # op_incr xs else (x + 1) # xs)"

fun op_decr :: "base_uint \<Rightarrow> base_uint" where
  "op_decr [] = []"
| "op_decr (x # xs) = (if x - 1 = - 1 then (x - 1) # op_decr xs else (x - 1) # xs)"

definition op_neg :: "base_uint \<Rightarrow> base_uint" where
  "op_neg a = op_incr (op_compl a)"

fun add_loop :: "u64 \<Rightarrow> base_uint \<Rightarrow> base_uint \<Rightarrow> base_uint" where
  "add_loop carry (p # ps) (b # bs) =
     (let n = carry + ucast p + ucast b
      in ucast (n AND 0xffffffff) # add_loop (drop_bit 32 n) ps bs)"
| "add_loop carry ps bs = []"

definition op_add :: "base_uint \<Rightarrow> base_uint \<Rightarrow> base_uint" where
  "op_add a b = add_loop 0 a b"

definition op_sub :: "base_uint \<Rightarrow> base_uint \<Rightarrow> base_uint" where
  "op_sub a b = op_add a (op_neg b)"

fun mul32_loop :: "u64 \<Rightarrow> u32 \<Rightarrow> base_uint \<Rightarrow> base_uint" where
  "mul32_loop carry b32 (p # ps) =
     (let n = carry + ucast b32 * ucast p
      in ucast (n AND 0xffffffff) # mul32_loop (drop_bit 32 n) b32 ps)"
| "mul32_loop carry b32 [] = []"

definition op_mul32 :: "base_uint \<Rightarrow> u32 \<Rightarrow> base_uint" where
  "op_mul32 a b32 = mul32_loop 0 b32 a"

text \<open>
  The inner loop of the full product runs over \<open>i\<close> with \<open>i + j < WIDTH\<close>: it walks the limbs of
  the accumulator from \<open>j\<close> upwards together with the limbs of \<open>b\<close> from \<open>0\<close> upwards.
\<close>

fun mul_inner :: "u64 \<Rightarrow> u32 \<Rightarrow> base_uint \<Rightarrow> base_uint \<Rightarrow> base_uint" where
  "mul_inner carry aj (p # ps) (b # bs) =
     (let n = carry + ucast p + ucast aj * ucast b
      in ucast (n AND 0xffffffff) # mul_inner (drop_bit 32 n) aj ps bs)"
| "mul_inner carry aj ps bs = []"

definition mul_row :: "base_uint \<Rightarrow> base_uint \<Rightarrow> nat \<Rightarrow> base_uint \<Rightarrow> base_uint" where
  "mul_row a b j pn = take j pn @ mul_inner 0 (a ! j) (drop j pn) b"

definition op_mul :: "base_uint \<Rightarrow> base_uint \<Rightarrow> base_uint" where
  "op_mul a b = fold (mul_row a b) [0..<WIDTH] base_uint_zero"

definition shl_step :: "base_uint \<Rightarrow> nat \<Rightarrow> nat \<Rightarrow> nat \<Rightarrow> base_uint \<Rightarrow> base_uint" where
  "shl_step a k s i pn =
     (let pn = (if i + k + 1 < WIDTH \<and> s \<noteq> 0
                then pn[i + k + 1 := pn ! (i + k + 1) OR drop_bit (32 - s) (a ! i)] else pn)
      in if i + k < WIDTH then pn[i + k := pn ! (i + k) OR push_bit s (a ! i)] else pn)"

definition op_shl :: "base_uint \<Rightarrow> nat \<Rightarrow> base_uint" where
  "op_shl a shift = fold (shl_step a (shift div 32) (shift mod 32)) [0..<WIDTH] base_uint_zero"

definition shr_step :: "base_uint \<Rightarrow> nat \<Rightarrow> nat \<Rightarrow> nat \<Rightarrow> base_uint \<Rightarrow> base_uint" where
  "shr_step a k s i pn =
     (let pn = (if k + 1 \<le> i \<and> s \<noteq> 0
                then pn[i - k - 1 := pn ! (i - k - 1) OR push_bit (32 - s) (a ! i)] else pn)
      in if k \<le> i then pn[i - k := pn ! (i - k) OR drop_bit s (a ! i)] else pn)"

definition op_shr :: "base_uint \<Rightarrow> nat \<Rightarrow> base_uint" where
  "op_shr a shift = fold (shr_step a (shift div 32) (shift mod 32)) [0..<WIDTH] base_uint_zero"

text \<open>Comparison runs from the most significant limb down.\<close>

fun compare_loop :: "base_uint \<Rightarrow> base_uint \<Rightarrow> int" where
  "compare_loop (x # xs) (y # ys) =
     (if x < y then - 1 else if x > y then 1 else compare_loop xs ys)"
| "compare_loop xs ys = 0"

definition CompareTo :: "base_uint \<Rightarrow> base_uint \<Rightarrow> int" where
  "CompareTo a b = compare_loop (rev a) (rev b)"

definition EqualTo :: "base_uint \<Rightarrow> u64 \<Rightarrow> bool" where
  "EqualTo a b \<longleftrightarrow>
     (if list_ex (\<lambda>i. a ! i \<noteq> 0) (rev [2..<WIDTH]) then False
      else if ucast (a ! 1) \<noteq> drop_bit 32 b then False
      else if ucast (a ! 0) \<noteq> b AND 0xffffffff then False
      else True)"

definition op_gt :: "base_uint \<Rightarrow> base_uint \<Rightarrow> bool" where
  "op_gt a b \<longleftrightarrow> CompareTo a b > 0"

definition op_ge :: "base_uint \<Rightarrow> base_uint \<Rightarrow> bool" where
  "op_ge a b \<longleftrightarrow> CompareTo a b \<ge> 0"

fun bits_in_limb :: "u32 \<Rightarrow> nat \<Rightarrow> nat \<Rightarrow> nat" where
  "bits_in_limb x pos 0 = 32 * pos + 1"
| "bits_in_limb x pos (Suc b) =
     (if x AND push_bit (Suc b) 1 \<noteq> 0 then 32 * pos + Suc b + 1 else bits_in_limb x pos b)"

fun bits_loop :: "base_uint \<Rightarrow> nat \<Rightarrow> nat" where
  "bits_loop a 0 = 0"
| "bits_loop a (Suc pos) =
     (if a ! pos \<noteq> 0 then bits_in_limb (a ! pos) pos 31 else bits_loop a pos)"

definition bits :: "base_uint \<Rightarrow> nat" where
  "bits a = bits_loop a WIDTH"

definition GetLow64 :: "base_uint \<Rightarrow> u64" where
  "GetLow64 a = ucast (a ! 0) OR push_bit 32 (ucast (a ! 1))"

text \<open>
  Long division. The loop counter \<open>shift\<close> runs from \<open>num_bits - div_bits\<close> down to \<open>0\<close>; the
  argument \<open>n\<close> is \<open>shift + 1\<close>. Division by zero throws \<open>uint_error\<close>, here \<open>None\<close>.
\<close>

fun div_loop :: "nat \<Rightarrow> base_uint \<Rightarrow> base_uint \<Rightarrow> base_uint \<Rightarrow> base_uint" where
  "div_loop 0 num dv pn = pn"
| "div_loop (Suc shift) num dv pn =
     (let (num, pn) =
        (if op_ge num dv
         then (op_sub num dv, pn[shift div 32 := pn ! (shift div 32) OR push_bit (shift mod 32) 1])
         else (num, pn))
      in div_loop shift num (op_shr dv 1) pn)"

definition op_div :: "base_uint \<Rightarrow> base_uint \<Rightarrow> base_uint option" where
  "op_div a b =
     (let num_bits = bits a; div_bits = bits b
      in if div_bits = 0 then None
         else if div_bits > num_bits then Some base_uint_zero
         else let shift = num_bits - div_bits
              in Some (div_loop (Suc shift) a (op_shl b shift) base_uint_zero))"

text \<open>
  \<open>SetCompact\<close> returns the number together with the two flags written through its pointer
  arguments; \<open>GetCompact\<close> carries the assertions of the source as \<open>None\<close>.
\<close>

definition SetCompact :: "u32 \<Rightarrow> base_uint \<times> bool \<times> bool" where
  "SetCompact nCompact =
     (let nSize = unat (drop_bit 24 nCompact);
          nWord0 = nCompact AND 0x007fffff;
          nWord = (if nSize \<le> 3 then drop_bit (8 * (3 - nSize)) nWord0 else nWord0);
          this = (if nSize \<le> 3 then base_uint_of_u64 (ucast nWord)
                  else op_shl (base_uint_of_u64 (ucast nWord)) (8 * (nSize - 3)));
          fNegative = (nWord \<noteq> 0 \<and> nCompact AND 0x00800000 \<noteq> 0);
          fOverflow = (nWord \<noteq> 0 \<and> (nSize > 34 \<or> (nWord > 0xff \<and> nSize > 33) \<or> (nWord > 0xffff \<and> nSize > 32)))
      in (this, fNegative, fOverflow))"

definition GetCompact :: "base_uint \<Rightarrow> bool \<Rightarrow> u32 option" where
  "GetCompact a fNegative =
     (let nSize = (bits a + 7) div 8;
          nCompact = (if nSize \<le> 3 then ucast (push_bit (8 * (3 - nSize)) (GetLow64 a))
                      else ucast (GetLow64 (op_shr a (8 * (nSize - 3)))));
          (nCompact, nSize) = (if nCompact AND 0x00800000 \<noteq> 0 then (drop_bit 8 nCompact, nSize + 1)
                               else (nCompact, nSize))
      in if nCompact AND NOT 0x007fffff \<noteq> 0 then None
         else if nSize \<ge> 256 then None
         else let nCompact = nCompact OR push_bit 24 (word_of_nat nSize)
              in Some (nCompact OR (if fNegative \<and> nCompact AND 0x007fffff \<noteq> 0 then 0x00800000 else 0)))"


text \<open>Conversion to and from the 32-byte blob \<open>uint256\<close>, limb by limb.\<close>

definition ArithToUint256 :: "base_uint \<Rightarrow> bytes" where
  "ArithToUint256 a = concat (map WriteLE32 a)"

definition UintToArith256 :: "bytes \<Rightarrow> base_uint" where
  "UintToArith256 b = map (\<lambda>x. ReadLE32 (drop (x * 4) b)) [0..<WIDTH]"

section \<open>The number denoted by the limbs\<close>

lemma length_base_uint_zero [simp]: "length base_uint_zero = WIDTH"
  by (simp add: base_uint_zero_def)

lemma uval_replicate_0 [simp]: "uval (replicate n 0) = 0"
  by (induction n) simp_all

lemma uval_zero [simp]: "uval base_uint_zero = 0"
  by (simp add: base_uint_zero_def)

lemma uval_append: "uval (xs @ ys) = uval xs + 2 ^ (32 * length xs) * uval ys"
  by (induction xs) (simp_all add: algebra_simps power_add)

lemma uval_less: "uval xs < 2 ^ (32 * length xs)"
proof (induction xs)
  case Nil
  then show ?case by simp
next
  case (Cons x xs)
  then have "uval xs + 1 \<le> 2 ^ (32 * length xs)" by simp
  then have "2 ^ 32 * (uval xs + 1) \<le> 2 ^ 32 * 2 ^ (32 * length xs)"
    by (rule mult_le_mono2)
  moreover have "unat x < 2 ^ 32" using unat_lt_32 [of x] by simp
  ultimately show ?case by (simp add: power_add)
qed

lemma uval_less_256: "wf_uint a \<Longrightarrow> uval a < 2 ^ 256"
  using uval_less [of a] by (simp add: wf_uint_def WIDTH_def)

lemma uval_inject: "length xs = length ys \<Longrightarrow> uval xs = uval ys \<Longrightarrow> xs = ys"
proof (induction xs ys rule: list_induct2)
  case Nil
  then show ?case by simp
next
  case (Cons x xs y ys)
  let ?B = "2 ^ 32 :: nat"
  have eq: "unat x + ?B * uval xs = unat y + ?B * uval ys" using Cons.prems by simp
  have "unat x < ?B" "unat y < ?B" using unat_lt_32 [of x] unat_lt_32 [of y] by simp_all
  then have "unat x = (unat x + ?B * uval xs) mod ?B" "unat y = (unat y + ?B * uval ys) mod ?B"
    and "uval xs = (unat x + ?B * uval xs) div ?B" "uval ys = (unat y + ?B * uval ys) div ?B"
    by simp_all
  with eq have "unat x = unat y" and "uval xs = uval ys" by simp_all
  then show ?case using Cons.IH by (simp add: unsigned_word_eqI)
qed

lemma limb_step:
  fixes n X B M :: nat
  shows "0 < B \<Longrightarrow> n mod B + B * ((n div B + X) mod M) = (n + B * X) mod (B * M)"
  by (simp add: mod_mult2_eq add.commute)

section \<open>Addition, subtraction, multiplication\<close>

lemma length_add_loop [simp]: "length (add_loop c ps bs) = min (length ps) (length bs)"
  by (induction c ps bs rule: add_loop.induct) (simp_all add: Let_def)

lemma uval_add_loop:
  "length ps = length bs \<Longrightarrow> unat c < 2 ^ 32 \<Longrightarrow>
   uval (add_loop c ps bs) = (unat c + uval ps + uval bs) mod 2 ^ (32 * length ps)"
proof (induction c ps bs rule: add_loop.induct)
  case (1 c p ps b bs)
  define n where "n = c + ucast p + ucast b"
  have n: "unat n = unat c + unat p + unat b"
    using "1.prems"(2) unat_lt_32 [of p] unat_lt_32 [of b]
    by (simp add: n_def unat_add_no_wrap word_val)
  have "unat (drop_bit 32 n) < 2 ^ 32"
    using unat_lt_64 [of n] by (simp add: word_val)
  then have IH: "uval (add_loop (drop_bit 32 n) ps bs)
      = (unat n div 2 ^ 32 + (uval ps + uval bs)) mod 2 ^ (32 * length ps)"
    using "1.IH" [OF n_def] "1.prems"(1) by (simp add: word_val add.assoc)
  have "uval (add_loop c (p # ps) (b # bs))
      = unat n mod 2 ^ 32 + 2 ^ 32 * ((unat n div 2 ^ 32 + (uval ps + uval bs)) mod 2 ^ (32 * length ps))"
    by (simp only: add_loop.simps Let_def uval.simps n_def [symmetric] IH unat_lo32)
  also have "\<dots> = (unat n + 2 ^ 32 * (uval ps + uval bs)) mod (2 ^ 32 * 2 ^ (32 * length ps))"
    by (rule limb_step) simp
  finally show ?case by (simp add: n power_add algebra_simps)
qed simp_all

lemma uval_op_compl: "uval (op_compl a) = 2 ^ (32 * length a) - 1 - uval a"
proof (induction a)
  case Nil
  then show ?case by (simp add: op_compl_def)
next
  case (Cons x xs)
  have x: "unat (NOT x) = 2 ^ 32 - 1 - unat x"
    by (rule unat_NOT_32)
  then show ?case using Cons uval_less [of xs] unat_lt_32 [of x] by (simp add: op_compl_def power_add algebra_simps)
qed

lemma length_op_compl [simp]: "length (op_compl a) = length a"
  by (simp add: op_compl_def)

lemma length_op_incr [simp]: "length (op_incr a) = length a"
  by (induction a rule: op_incr.induct) simp_all

lemma uval_op_incr: "uval (op_incr a) = (uval a + 1) mod 2 ^ (32 * length a)"
proof (induction a rule: op_incr.induct)
  case 1
  then show ?case by simp
next
  case (2 x xs)
  show ?case
  proof (cases "x + 1 = 0")
    case True
    then have "unat x = 2 ^ 32 - 1" by (simp add: plus_1_eq_0_32)
    then have "uval (x # xs) + 1 = 2 ^ 32 * (uval xs + 1)" by simp
    then have eq: "2 ^ 32 * (uval xs + 1) = uval (x # xs) + 1" ..
    have "uval (op_incr (x # xs)) = 2 ^ 32 * ((uval xs + 1) mod 2 ^ (32 * length xs))"
      using True 2 by simp
    also have "\<dots> = (2 ^ 32 * (uval xs + 1)) mod (2 ^ 32 * 2 ^ (32 * length xs))"
      by (simp only: mult_mod_right)
    finally show ?thesis
      by (simp only: eq list.size mult_Suc_right power_add plus_nat.add_0 add_Suc_right add_0_right)
  next
    case False
    then have "uval ((x + 1) # xs) = uval (x # xs) + 1"
      by (simp add: unat_plus_1_32)
    moreover have "uval ((x + 1) # xs) < 2 ^ (32 * length (x # xs))"
      using uval_less [of "(x + 1) # xs"] by simp
    ultimately show ?thesis using False by simp
  qed
qed

lemma uval_op_neg: "uval (op_neg a) = (2 ^ (32 * length a) - uval a) mod 2 ^ (32 * length a)"
proof -
  have "Suc (2 ^ (32 * length a) - Suc (uval a)) = 2 ^ (32 * length a) - uval a"
    using uval_less [of a] by simp
  then show ?thesis by (simp add: op_neg_def uval_op_incr uval_op_compl)
qed

lemma length_op_neg [simp]: "length (op_neg a) = length a"
  by (simp add: op_neg_def)

lemma uval_op_add:
  "wf_uint a \<Longrightarrow> wf_uint b \<Longrightarrow> uval (op_add a b) = (uval a + uval b) mod 2 ^ 256"
  by (simp add: op_add_def wf_uint_def WIDTH_def uval_add_loop)

lemma uval_op_sub:
  "wf_uint a \<Longrightarrow> wf_uint b \<Longrightarrow> uval (op_sub a b) = (uval a + (2 ^ 256 - uval b)) mod 2 ^ 256"
  by (simp add: op_sub_def uval_op_add wf_uint_def uval_op_neg WIDTH_def mod_add_right_eq)

lemma uval_op_sub_exact:
  assumes "wf_uint a" "wf_uint b" "uval b \<le> uval a"
  shows "uval (op_sub a b) = uval a - uval b"
proof -
  have "uval a + (2 ^ 256 - uval b) = (uval a - uval b) + 2 ^ 256"
    using assms uval_less_256 [of b] by linarith
  then have "uval (op_sub a b) = (uval a - uval b) mod 2 ^ 256"
    using assms by (simp only: uval_op_sub mod_add_self2)
  then show ?thesis using uval_less_256 [OF assms(1)] by simp
qed

lemma length_mul32_loop [simp]: "length (mul32_loop c b ps) = length ps"
  by (induction c b ps rule: mul32_loop.induct) (simp_all add: Let_def)

lemma unat_mul_add_carry:
  assumes "unat (c :: u64) < 2 ^ 32"
  shows "unat (c + ucast (p :: u32) + ucast (x :: u32) * ucast (y :: u32)) = unat c + unat p + unat x * unat y"
proof -
  have "unat x * unat y \<le> (2 ^ 32 - 1) * (2 ^ 32 - 1)"
    using unat_lt_32 [of x] unat_lt_32 [of y] by (intro mult_le_mono) simp_all
  then show ?thesis
    using assms unat_lt_32 [of p]
    by (simp add: unat_add_no_wrap unat_mult_no_wrap word_val)
qed

lemma uval_mul32_loop:
  "unat c < 2 ^ 32 \<Longrightarrow>
   uval (mul32_loop c b ps) = (unat c + unat b * uval ps) mod 2 ^ (32 * length ps)"
proof (induction c b ps rule: mul32_loop.induct)
  case (1 c b p ps)
  define n where "n = c + ucast b * ucast p"
  have n: "unat n = unat c + unat b * unat p"
    using unat_mul_add_carry [OF "1.prems", of 0 b p] by (simp add: n_def)
  have "unat (drop_bit 32 n) < 2 ^ 32"
    using unat_lt_64 [of n] by (simp add: word_val)
  then have IH: "uval (mul32_loop (drop_bit 32 n) b ps)
      = (unat n div 2 ^ 32 + unat b * uval ps) mod 2 ^ (32 * length ps)"
    using "1.IH" [OF n_def] by (simp add: word_val)
  have "uval (mul32_loop c b (p # ps))
      = unat n mod 2 ^ 32 + 2 ^ 32 * ((unat n div 2 ^ 32 + unat b * uval ps) mod 2 ^ (32 * length ps))"
    by (simp only: mul32_loop.simps Let_def uval.simps n_def [symmetric] IH unat_lo32)
  also have "\<dots> = (unat n + 2 ^ 32 * (unat b * uval ps)) mod (2 ^ 32 * 2 ^ (32 * length ps))"
    by (rule limb_step) simp
  finally show ?case by (simp add: n power_add algebra_simps)
qed simp_all

lemma uval_op_mul32: "wf_uint a \<Longrightarrow> uval (op_mul32 a b) = (uval a * unat b) mod 2 ^ 256"
  by (simp add: op_mul32_def uval_mul32_loop wf_uint_def WIDTH_def mult.commute)

lemma length_mul_inner [simp]: "length (mul_inner c aj ps bs) = min (length ps) (length bs)"
  by (induction c aj ps bs rule: mul_inner.induct) (simp_all add: Let_def)

lemma uval_mul_inner:
  "length ps \<le> length bs \<Longrightarrow> unat c < 2 ^ 32 \<Longrightarrow>
   uval (mul_inner c aj ps bs) = (unat c + uval ps + unat aj * uval bs) mod 2 ^ (32 * length ps)"
proof (induction c aj ps bs rule: mul_inner.induct)
  case (1 c aj p ps b bs)
  define n where "n = c + ucast p + ucast aj * ucast b"
  have n: "unat n = unat c + unat p + unat aj * unat b"
    using unat_mul_add_carry [OF "1.prems"(2), of p aj b] by (simp add: n_def)
  have "unat (drop_bit 32 n) < 2 ^ 32"
    using unat_lt_64 [of n] by (simp add: word_val)
  then have IH: "uval (mul_inner (drop_bit 32 n) aj ps bs)
      = (unat n div 2 ^ 32 + (uval ps + unat aj * uval bs)) mod 2 ^ (32 * length ps)"
    using "1.IH" [OF n_def] "1.prems"(1) by (simp add: word_val add.assoc)
  have "uval (mul_inner c aj (p # ps) (b # bs))
      = unat n mod 2 ^ 32
        + 2 ^ 32 * ((unat n div 2 ^ 32 + (uval ps + unat aj * uval bs)) mod 2 ^ (32 * length ps))"
    by (simp only: mul_inner.simps Let_def uval.simps n_def [symmetric] IH unat_lo32)
  also have "\<dots> = (unat n + 2 ^ 32 * (uval ps + unat aj * uval bs)) mod (2 ^ 32 * 2 ^ (32 * length ps))"
    by (rule limb_step) simp
  finally show ?case by (simp add: n power_add algebra_simps)
qed simp_all

lemma uval_take_drop: "j \<le> length xs \<Longrightarrow> uval xs = uval (take j xs) + 2 ^ (32 * j) * uval (drop j xs)"
  using uval_append [of "take j xs" "drop j xs"] by simp

lemma length_mul_row: "wf_uint b \<Longrightarrow> length pn = WIDTH \<Longrightarrow> length (mul_row a b j pn) = WIDTH"
  by (auto simp: mul_row_def wf_uint_def)

lemma uval_mul_row:
  assumes "wf_uint b" "length pn = WIDTH" "j < WIDTH"
  shows "uval (mul_row a b j pn) = (uval pn + 2 ^ (32 * j) * (unat (a ! j) * uval b)) mod 2 ^ 256"
proof -
  let ?M = "2 ^ (32 * j) :: nat" and ?N = "2 ^ (32 * (WIDTH - j)) :: nat"
  let ?lo = "uval (take j pn)" and ?hi = "uval (drop j pn)"
  have lo: "?lo < ?M" using uval_less [of "take j pn"] assms by simp
  have split: "uval pn = ?lo + ?M * ?hi" using assms by (intro uval_take_drop) simp
  have "32 * j + 32 * (WIDTH - j) = 256" using assms by (simp add: WIDTH_def)
  then have MN: "?M * ?N = 2 ^ 256" by (simp only: flip: power_add)
  have "uval (mul_row a b j pn) = ?lo + ?M * ((?hi + unat (a ! j) * uval b) mod ?N)"
    using assms by (simp add: mul_row_def uval_append uval_mul_inner wf_uint_def)
  also have "\<dots> = ?lo mod ?M + ?M * ((?lo div ?M + (?hi + unat (a ! j) * uval b)) mod ?N)"
    using lo by simp
  also have "\<dots> = (?lo + ?M * (?hi + unat (a ! j) * uval b)) mod (?M * ?N)"
    by (rule limb_step) simp
  finally show ?thesis by (simp only: MN split distrib_left add.assoc)
qed

lemma uval_take_Suc: "j < length xs \<Longrightarrow> uval (take (Suc j) xs) = uval (take j xs) + 2 ^ (32 * j) * unat (xs ! j)"
  by (simp add: take_Suc_conv_app_nth uval_append)

lemma mul_rows:
  assumes "wf_uint a" "wf_uint b" "j \<le> WIDTH"
  shows "length (fold (mul_row a b) [0..<j] base_uint_zero) = WIDTH
    \<and> uval (fold (mul_row a b) [0..<j] base_uint_zero) = (uval (take j a) * uval b) mod 2 ^ 256"
  using assms(3)
proof (induction j)
  case 0
  then show ?case by simp
next
  case (Suc j)
  let ?f = "fold (mul_row a b) [0..<j] base_uint_zero"
  have IH: "length ?f = WIDTH" "uval ?f = (uval (take j a) * uval b) mod 2 ^ 256"
    using Suc by simp_all
  have "uval (mul_row a b j ?f) = (uval ?f + 2 ^ (32 * j) * (unat (a ! j) * uval b)) mod 2 ^ 256"
    using Suc.prems assms(2) IH(1) by (intro uval_mul_row) simp_all
  also have "\<dots> = (uval (take (Suc j) a) * uval b) mod 2 ^ 256"
    using Suc.prems assms(1)
    by (simp add: IH(2) uval_take_Suc wf_uint_def mod_add_left_eq distrib_right mult.assoc)
  finally show ?case using IH(1) assms(2) by (simp add: length_mul_row)
qed

lemma uval_op_mul:
  "wf_uint a \<Longrightarrow> wf_uint b \<Longrightarrow> uval (op_mul a b) = (uval a * uval b) mod 2 ^ 256"
  using mul_rows [of a b WIDTH] by (simp add: op_mul_def wf_uint_def)


section \<open>Comparison and bit length\<close>

lemma uval_rev_Cons: "uval (rev (x # xs)) = uval (rev xs) + 2 ^ (32 * length xs) * unat x"
  by (simp add: uval_append)

lemma compare_loop_rev:
  "length xs = length ys \<Longrightarrow>
   compare_loop xs ys = sgn (int (uval (rev xs)) - int (uval (rev ys)))"
proof (induction xs ys rule: list_induct2)
  case Nil
  then show ?case by simp
next
  case (Cons x xs y ys)
  let ?M = "2 ^ (32 * length xs) :: nat"
  have lx: "uval (rev xs) < ?M" and ly: "uval (rev ys) < ?M"
    using uval_less [of "rev xs"] uval_less [of "rev ys"] Cons.hyps by simp_all
  have less: "uval (rev (a # as)) < uval (rev (b # bs))"
    if "unat a < unat b" "uval (rev as) < ?M" "length as = length xs" "length bs = length xs"
    for a b :: u32 and as bs
  proof -
    have "?M * (unat a + 1) \<le> ?M * unat b" using that(1) by (intro mult_le_mono2) simp
    then have "uval (rev as) + ?M * unat a < uval (rev bs) + ?M * unat b"
      using that(2) unfolding distrib_left mult_1_right by linarith
    then show ?thesis unfolding uval_rev_Cons that(3,4) .
  qed
  consider "x < y" | "y < x" | "x = y" by (rule linorder_cases)
  then show ?case
  proof cases
    case 1
    then have "uval (rev (x # xs)) < uval (rev (y # ys))"
      using less [OF _ lx refl Cons.hyps [symmetric]] by (simp only: word_less_nat_alt)
    with 1 show ?thesis by (simp del: rev.simps)
  next
    case 2
    then have "uval (rev (y # ys)) < uval (rev (x # xs))"
      using less [OF _ ly Cons.hyps [symmetric] refl] by (simp only: word_less_nat_alt)
    with 2 show ?thesis by (simp del: rev.simps)
  next
    case 3
    with Cons show ?thesis by (simp del: rev.simps add: uval_rev_Cons)
  qed
qed

lemma CompareTo_sgn:
  "wf_uint a \<Longrightarrow> wf_uint b \<Longrightarrow> CompareTo a b = sgn (int (uval a) - int (uval b))"
  by (simp add: CompareTo_def wf_uint_def compare_loop_rev)

lemma op_gt_iff [simp]: "wf_uint a \<Longrightarrow> wf_uint b \<Longrightarrow> op_gt a b \<longleftrightarrow> uval b < uval a"
  by (simp add: op_gt_def CompareTo_sgn)

lemma op_ge_iff [simp]: "wf_uint a \<Longrightarrow> wf_uint b \<Longrightarrow> op_ge a b \<longleftrightarrow> uval b \<le> uval a"
  by (simp add: op_ge_def CompareTo_sgn sgn_if)

lemma bit_uval: "bit (uval xs) n \<longleftrightarrow> n div 32 < length xs \<and> bit (xs ! (n div 32)) (n mod 32)"
proof (induction xs arbitrary: n)
  case Nil
  then show ?case by simp
next
  case (Cons x xs)
  have x: "unat x < 2 ^ 32" using unat_lt_32 [of x] by simp
  have "uval (x # xs) = unat x OR push_bit 32 (uval xs)"
  proof -
    have "unat x + push_bit 32 (uval xs) = unat x OR push_bit 32 (uval xs)"
      by (rule disjunctive_add_eq_or) (auto simp: bit_eq_iff bit_simps dest: bit_imp_le_length)
    then show ?thesis by (simp add: push_bit_eq_mult mult.commute)
  qed
  then have "bit (uval (x # xs)) n \<longleftrightarrow> bit x n \<or> 32 \<le> n \<and> bit (uval xs) (n - 32)"
    by (auto simp: bit_simps)
  also have "\<dots> \<longleftrightarrow> n div 32 < length (x # xs) \<and> bit ((x # xs) ! (n div 32)) (n mod 32)"
  proof (cases "n < 32")
    case True
    then show ?thesis by simp
  next
    case False
    then obtain m where m: "n = m + 32" by (metis add.commute le_Suc_ex not_less)
    then have "n div 32 = Suc (m div 32)" "n mod 32 = m mod 32" by simp_all
    then show ?thesis using m Cons.IH [of m] bit_imp_le_length [of x n] by auto
  qed
  finally show ?case .
qed

lemma and_single_bit: "(x AND push_bit b 1 \<noteq> (0 :: u32)) \<longleftrightarrow> bit x b"
  by (simp only: bit_iff_and_push_bit_not_eq_0)

lemma bits_in_limb_Suc:
  "bits_in_limb x pos (Suc b) = (if bit x (Suc b) then 32 * pos + Suc b + 1 else bits_in_limb x pos b)"
  by (simp only: bits_in_limb.simps and_single_bit)

lemma bits_in_limb_bounds:
  "\<lbrakk>unat x < 2 ^ (b + 1); x \<noteq> 0\<rbrakk> \<Longrightarrow>
   \<exists>n \<le> b. bits_in_limb x pos b = 32 * pos + n + 1 \<and> 2 ^ n \<le> unat x \<and> unat x < 2 ^ (n + 1)"
proof (induction b)
  case 0
  then show ?case by (simp add: unat_gt_0 Suc_le_eq)
next
  case (Suc b)
  show ?case
  proof (cases "bit x (Suc b)")
    case True
    then have "2 ^ Suc b \<le> unat x"
      by (intro bit_nat_le) (simp add: bit_unsigned_iff)
    with True Suc.prems show ?thesis
      by (intro exI [of _ "Suc b"]) (simp add: bits_in_limb_Suc del: bits_in_limb.simps)
  next
    case False
    have "unat x = take_bit (Suc (b + 1)) (unat x)" 
      using Suc.prems by (simp add: take_bit_nat_eq_self)
    also have "\<dots> = take_bit (b + 1) (unat x)"
      using False by (simp add: take_bit_Suc_from_most bit_unsigned_iff)
    finally have "unat x < 2 ^ (b + 1)"
      by (metis take_bit_nat_less_exp)
    with Suc.IH [OF this Suc.prems(2)] False show ?thesis
      by (auto simp: bits_in_limb_Suc simp del: bits_in_limb.simps intro: le_SucI)
  qed
qed

lemma bits_loop_bounds:
  "k \<le> length a \<Longrightarrow>
   (uval (take k a) = 0 \<longrightarrow> bits_loop a k = 0) \<and>
   (uval (take k a) \<noteq> 0 \<longrightarrow> 0 < bits_loop a k \<and>
      2 ^ (bits_loop a k - 1) \<le> uval (take k a) \<and> uval (take k a) < 2 ^ bits_loop a k)"
proof (induction k)
  case 0
  then show ?case by simp
next
  case (Suc k)
  let ?lo = "uval (take k a)" and ?M = "2 ^ (32 * k) :: nat"
  have split: "uval (take (Suc k) a) = ?lo + ?M * unat (a ! k)"
    using Suc.prems by (intro uval_take_Suc) simp
  show ?case
  proof (cases "a ! k = 0")
    case True
    then have "uval (take (Suc k) a) = ?lo" "bits_loop a (Suc k) = bits_loop a k"
      unfolding split by simp_all
    then show ?thesis using Suc by (simp only:) simp
  next
    case False
    have "unat (a ! k) < 2 ^ (31 + 1)" using unat_lt_32 [of "a ! k"] by simp
    from bits_in_limb_bounds [OF this False, of k]
    obtain n where n: "bits_in_limb (a ! k) k 31 = 32 * k + n + 1"
      "2 ^ n \<le> unat (a ! k)" "unat (a ! k) < 2 ^ (n + 1)" by blast
    have lo: "?lo < ?M" using uval_less [of "take k a"] Suc.prems by simp
    have "?M * 2 ^ n \<le> ?M * unat (a ! k)" using n(2) by (rule mult_le_mono2)
    then have 1: "2 ^ (32 * k + n) \<le> uval (take (Suc k) a)"
      unfolding split power_add by linarith
    have "?M * (unat (a ! k) + 1) \<le> ?M * 2 ^ (n + 1)" using n(3) by (intro mult_le_mono2) simp
    then have 2: "uval (take (Suc k) a) < 2 ^ (32 * k + n + 1)"
      using lo unfolding split distrib_left mult_1_right add.assoc power_add [of 2 "32 * k"] by linarith
    have "bits_loop a (Suc k) = 32 * k + n + 1" using False n(1) by simp
    moreover have "uval (take (Suc k) a) \<noteq> 0" using 1 by (metis not_le zero_less_numeral zero_less_power)
    ultimately show ?thesis using 1 2 by (simp only:) simp
  qed
qed

lemma bits_zero: "wf_uint a \<Longrightarrow> bits a = 0 \<longleftrightarrow> uval a = 0"
  using bits_loop_bounds [of WIDTH a] by (auto simp: bits_def wf_uint_def)

lemma uval_lt_bits: "wf_uint a \<Longrightarrow> uval a < 2 ^ bits a"
  using bits_loop_bounds [of WIDTH a] by (auto simp: bits_def wf_uint_def)

lemma bits_le_uval: "wf_uint a \<Longrightarrow> uval a \<noteq> 0 \<Longrightarrow> 2 ^ (bits a - 1) \<le> uval a"
  using bits_loop_bounds [of WIDTH a] by (auto simp: bits_def wf_uint_def)

lemma bits_le_256:
  assumes wf: "wf_uint a"
  shows "bits a \<le> 256"
proof (cases "uval a = 0")
  case True
  then have "bits a = 0" using wf by (simp only: bits_zero)
  then show ?thesis by simp
next
  case False
  have "(2::nat) ^ (bits a - 1) < 2 ^ 256"
    using bits_le_uval [OF wf False] uval_less_256 [OF wf] by (simp only: order_le_less_trans)
  then have "bits a - 1 < 256" by (rule power_less_imp_less_exp [rotated]) simp
  then show ?thesis by simp
qed

section \<open>Shifts\<close>

lemma length_shl_step [simp]: "length (shl_step a k s i pn) = length pn"
  by (simp add: shl_step_def Let_def)

lemma length_shr_step [simp]: "length (shr_step a k s i pn) = length pn"
  by (simp add: shr_step_def Let_def)

lemma nth_shl_step:
  "length pn = WIDTH \<Longrightarrow> m < WIDTH \<Longrightarrow> shl_step a k s i pn ! m = pn ! m OR
     ((if i + k = m then push_bit s (a ! i) else 0) OR
      (if i + k + 1 = m \<and> s \<noteq> 0 then drop_bit (32 - s) (a ! i) else 0))"
  by (simp add: shl_step_def Let_def nth_list_update)

lemma nth_shr_step:
  "length pn = WIDTH \<Longrightarrow> m < WIDTH \<Longrightarrow> i < WIDTH \<Longrightarrow> shr_step a k s i pn ! m = pn ! m OR
     ((if m + k = i then drop_bit s (a ! i) else 0) OR
      (if m + k + 1 = i \<and> s \<noteq> 0 then push_bit (32 - s) (a ! i) else 0))"
  by (auto simp: shr_step_def Let_def nth_list_update)

lemma shl_fold:
  assumes "i \<le> WIDTH"
  shows "length (fold (shl_step a k s) [0..<i] base_uint_zero) = WIDTH \<and>
    (\<forall>m < WIDTH. fold (shl_step a k s) [0..<i] base_uint_zero ! m =
       (if k \<le> m \<and> m < i + k then push_bit s (a ! (m - k)) else 0) OR
       (if k + 1 \<le> m \<and> m < i + k + 1 \<and> s \<noteq> 0 then drop_bit (32 - s) (a ! (m - k - 1)) else 0))"
  using assms
proof (induction i)
  case 0
  then show ?case by (auto simp: base_uint_zero_def)
next
  case (Suc i)
  let ?f = "fold (shl_step a k s) [0..<i] base_uint_zero"
  have IH: "length ?f = WIDTH" using Suc by simp
  have "shl_step a k s i ?f ! m =
       (if k \<le> m \<and> m < Suc i + k then push_bit s (a ! (m - k)) else 0) OR
       (if k + 1 \<le> m \<and> m < Suc i + k + 1 \<and> s \<noteq> 0 then drop_bit (32 - s) (a ! (m - k - 1)) else 0)"
    if m: "m < WIDTH" for m
  proof -
    consider "m = i + k" | "m = i + k + 1" | "m \<noteq> i + k" "m \<noteq> i + k + 1" by blast
    then show ?thesis
      using Suc m by cases (auto simp: nth_shl_step or.commute)
  qed
  then show ?case using IH by simp
qed

lemma shr_fold:
  assumes "i \<le> WIDTH"
  shows "length (fold (shr_step a k s) [0..<i] base_uint_zero) = WIDTH \<and>
    (\<forall>m < WIDTH. fold (shr_step a k s) [0..<i] base_uint_zero ! m =
       (if m + k < i then drop_bit s (a ! (m + k)) else 0) OR
       (if m + k + 1 < i \<and> s \<noteq> 0 then push_bit (32 - s) (a ! (m + k + 1)) else 0))"
  using assms
proof (induction i)
  case 0
  then show ?case by (simp add: base_uint_zero_def)
next
  case (Suc i)
  then show ?case by (auto simp: nth_shr_step)
qed

lemma wf_op_shl: "wf_uint (op_shl a n)"
  using shl_fold [of WIDTH a "n div 32" "n mod 32"] by (simp add: wf_uint_def op_shl_def)

lemma wf_op_shr: "wf_uint (op_shr a n)"
  using shr_fold [of WIDTH a "n div 32" "n mod 32"] by (simp add: wf_uint_def op_shr_def)

lemma nth_op_shl:
  "m < WIDTH \<Longrightarrow> op_shl a n ! m =
     (if n div 32 \<le> m then push_bit (n mod 32) (a ! (m - n div 32)) else 0) OR
     (if n div 32 + 1 \<le> m \<and> n mod 32 \<noteq> 0 then drop_bit (32 - n mod 32) (a ! (m - n div 32 - 1)) else 0)"
  using shl_fold [of WIDTH a "n div 32" "n mod 32"] by (simp add: op_shl_def)

lemma nth_op_shr:
  "m < WIDTH \<Longrightarrow> op_shr a n ! m =
     (if m + n div 32 < WIDTH then drop_bit (n mod 32) (a ! (m + n div 32)) else 0) OR
     (if m + n div 32 + 1 < WIDTH \<and> n mod 32 \<noteq> 0 then push_bit (32 - n mod 32) (a ! (m + n div 32 + 1)) else 0)"
  using shr_fold [of WIDTH a "n div 32" "n mod 32"] by (simp add: op_shr_def)

lemma split32: obtains k s :: nat where "n = 32 * k + s" "s < 32"
  using mod_less_divisor [of 32 n] mult_div_mod_eq [of 32 n] by (metis zero_less_numeral)

lemma uval_op_shl:
  assumes "wf_uint a"
  shows "uval (op_shl a n) = (uval a * 2 ^ n) mod 2 ^ 256"
proof -
  obtain k s where n: "n = 32 * k + s" "s < 32" by (rule split32)
  have "bit (uval (op_shl a n)) i = bit (take_bit 256 (push_bit n (uval a))) i" for i
  proof -
    obtain m r where i: "i = 32 * m + r" "r < 32" by (rule split32)
    have m: "i < 256 \<longleftrightarrow> m < WIDTH" using i by (auto simp: WIDTH_def)
    have len: "length (op_shl a n) = WIDTH" using wf_op_shl by (simp add: wf_uint_def)
    show ?thesis
    proof (cases "m < WIDTH")
      case False
      then show ?thesis using m i len by (simp add: bit_uval bit_take_bit_iff)
    next
      case True
      have L: "bit (uval (op_shl a n)) i \<longleftrightarrow>
          (k \<le> m \<and> s \<le> r \<and> bit (a ! (m - k)) (r - s)) \<or>
          (k + 1 \<le> m \<and> s \<noteq> 0 \<and> bit (a ! (m - k - 1)) (32 - s + r))"
        using True i n len by (auto simp: bit_uval nth_op_shl bit_simps)
      have R: "bit (take_bit 256 (push_bit n (uval a))) i \<longleftrightarrow>
          n \<le> i \<and> (i - n) div 32 < WIDTH \<and> bit (a ! ((i - n) div 32)) ((i - n) mod 32)"
        using True m assms by (simp add: bit_take_bit_iff bit_push_bit_iff bit_uval wf_uint_def)
      show ?thesis
      proof (cases "s \<le> r")
        case le: True
        then have "n \<le> i \<longleftrightarrow> k \<le> m" using i n by auto
        moreover have "(i - n) div 32 = m - k" "(i - n) mod 32 = r - s" if "k \<le> m"
        proof -
          have "i - n = (m - k) * 32 + (r - s)" using that le i n by (simp add: algebra_simps)
          moreover have "r - s < 32" using i by simp
          ultimately show "(i - n) div 32 = m - k" "(i - n) mod 32 = r - s" by simp_all
        qed
        moreover have "\<not> bit x (32 - s + r)" for x :: u32
          using le n bit_imp_le_length [of x "32 - s + r"] by auto
        ultimately show ?thesis unfolding L R using le True by auto
      next
        case gt: False
        then have "n \<le> i \<longleftrightarrow> k + 1 \<le> m" using i n by auto
        moreover have "(i - n) div 32 = m - k - 1" "(i - n) mod 32 = 32 - s + r" if "k + 1 \<le> m"
        proof -
          have "i - n = (m - k - 1) * 32 + (32 - s + r)" using that gt i n by (simp add: algebra_simps)
          moreover have "32 - s + r < 32" using gt n by simp
          ultimately show "(i - n) div 32 = m - k - 1" "(i - n) mod 32 = 32 - s + r" by simp_all
        qed
        ultimately show ?thesis unfolding L R using gt True by auto
      qed
    qed
  qed
  then have "uval (op_shl a n) = take_bit 256 (push_bit n (uval a))" by (simp add: bit_eq_iff)
  then show ?thesis by (simp only: take_bit_eq_mod push_bit_eq_mult)
qed

lemma uval_op_shr:
  assumes "wf_uint a"
  shows "uval (op_shr a n) = uval a div 2 ^ n"
proof -
  obtain k s where n: "n = 32 * k + s" "s < 32" by (rule split32)
  have "bit (uval (op_shr a n)) i = bit (drop_bit n (uval a)) i" for i
  proof -
    obtain m r where i: "i = 32 * m + r" "r < 32" by (rule split32)
    have len: "length (op_shr a n) = WIDTH" using wf_op_shr by (simp add: wf_uint_def)
    have R: "bit (drop_bit n (uval a)) i \<longleftrightarrow>
        (n + i) div 32 < WIDTH \<and> bit (a ! ((n + i) div 32)) ((n + i) mod 32)"
      using assms by (simp add: bit_drop_bit_eq bit_uval wf_uint_def)
    have L: "bit (uval (op_shr a n)) i \<longleftrightarrow>
        (m + k < WIDTH \<and> bit (a ! (m + k)) (r + s)) \<or>
        (m + k + 1 < WIDTH \<and> s \<noteq> 0 \<and> 32 - s \<le> r \<and> bit (a ! (m + k + 1)) (r + s - 32))"
    proof -
      have "n div 32 = k" "n mod 32 = s" "i div 32 = m" "i mod 32 = r" using i n by simp_all
      moreover have "r - (32 - s) = r + s - 32" using n by simp
      ultimately show ?thesis
        using i len by (auto simp: bit_uval nth_op_shr bit_or_iff bit_drop_bit_eq bit_push_bit_iff add.commute split: if_splits)
    qed
    show ?thesis
    proof (cases "r + s < 32")
      case True
      have e: "n + i = (m + k) * 32 + (r + s)" using i n by simp
      have "(n + i) div 32 = m + k" "(n + i) mod 32 = r + s"
        unfolding e using True by (rule div_mod_unique)+
      moreover have "\<not> 32 - s \<le> r" using True n by simp
      ultimately show ?thesis unfolding L R by simp
    next
      case False
      have e: "n + i = (m + k + 1) * 32 + (r + s - 32)" using False i n by simp
      have "r + s - 32 < 32" using i n by simp
      then have "(n + i) div 32 = m + k + 1" "(n + i) mod 32 = r + s - 32"
        unfolding e by (rule div_mod_unique)+
      moreover have "\<not> bit x (r + s)" for x :: u32
        using False bit_imp_le_length [of x "r + s"] by auto
      moreover have "s \<noteq> 0" "32 - s \<le> r" using False i n by simp_all
      ultimately show ?thesis unfolding L R by simp
    qed
  qed
  then have "uval (op_shr a n) = drop_bit n (uval a)" by (simp add: bit_eq_iff)
  then show ?thesis by (simp only: drop_bit_eq_div)
qed

section \<open>Division\<close>

lemma length_op_add [simp]: "length (op_add a b) = min (length a) (length b)"
  by (simp add: op_add_def)

lemma wf_op_sub: "wf_uint a \<Longrightarrow> wf_uint b \<Longrightarrow> wf_uint (op_sub a b)"
  by (simp add: op_sub_def wf_uint_def)

lemma wf_op_add: "wf_uint a \<Longrightarrow> wf_uint b \<Longrightarrow> wf_uint (op_add a b)"
  by (simp add: wf_uint_def)

lemma uval_op_compl_256: "wf_uint a \<Longrightarrow> uval (op_compl a) = 2 ^ 256 - 1 - uval a"
  by (simp add: uval_op_compl wf_uint_def WIDTH_def)

lemma wf_op_mul32: "wf_uint a \<Longrightarrow> wf_uint (op_mul32 a b)"
  by (simp add: op_mul32_def wf_uint_def)

lemma wf_op_mul: "wf_uint a \<Longrightarrow> wf_uint b \<Longrightarrow> wf_uint (op_mul a b)"
  using mul_rows [of a b WIDTH] by (simp add: op_mul_def wf_uint_def)

lemma wf_zero [simp]: "wf_uint base_uint_zero"
  by (simp add: wf_uint_def)

lemma uval_set_bit:
  assumes "wf_uint pn" "n < 256" "\<not> bit (uval pn) n"
  shows "uval (pn[n div 32 := pn ! (n div 32) OR push_bit (n mod 32) 1]) = uval pn + 2 ^ n"
proof -
  let ?q = "pn[n div 32 := pn ! (n div 32) OR push_bit (n mod 32) 1]"
  have len: "length pn = 8" "n div 32 < 8" using assms by (auto simp: wf_uint_def WIDTH_def)
  have "uval ?q = uval pn OR 2 ^ n"
  proof (rule bit_eqI)
    fix i
    have "i = n \<longleftrightarrow> i div 32 = n div 32 \<and> i mod 32 = n mod 32"
      by (metis div_mult_mod_eq)
    then show "bit (uval ?q) i = bit (uval pn OR 2 ^ n) i"
      using len by (auto simp: bit_uval bit_or_iff bit_exp_iff nth_list_update bit_push_bit_iff)
  qed
  also have "\<dots> = uval pn + 2 ^ n"
    using assms(3) by (intro disjunctive_add_eq_or [symmetric] bit_eqI) (auto simp: bit_and_iff bit_exp_iff)
  finally show ?thesis .
qed

lemma div_loop_correct:
  "\<lbrakk>wf_uint num; wf_uint dv; wf_uint pn; n \<le> 256; 0 < B;
    n \<noteq> 0 \<longrightarrow> uval dv = B * 2 ^ (n - 1); uval num < B * 2 ^ n; \<forall>i < n. \<not> bit (uval pn) i\<rbrakk> \<Longrightarrow>
   wf_uint (div_loop n num dv pn) \<and> uval (div_loop n num dv pn) = uval pn + uval num div B"
proof (induction n arbitrary: num dv pn)
  case 0
  then show ?case by simp
next
  case (Suc shift)
  note prems = Suc.prems
  have dv: "uval dv = B * 2 ^ shift" using prems by simp
  have dv': "shift \<noteq> 0 \<longrightarrow> uval (op_shr dv 1) = B * 2 ^ (shift - 1)"
    using dv prems(2) by (cases shift) (simp_all add: uval_op_shr)
  have num: "uval num < 2 * (B * 2 ^ shift)" using prems(7) by simp
  have nobit: "\<not> bit (uval pn) i" if "i < Suc shift" for i using prems(8) that by blast
  show ?case
  proof (cases "op_ge num dv")
    case True
    let ?pn = "pn[shift div 32 := pn ! (shift div 32) OR push_bit (shift mod 32) 1]"
    have ge: "B * 2 ^ shift \<le> uval num" using True prems(1,2) dv by simp
    have num': "uval (op_sub num dv) = uval num - B * 2 ^ shift"
      using ge prems(1,2) dv by (simp add: uval_op_sub_exact)
    have pn': "uval ?pn = uval pn + 2 ^ shift"
      using prems(3,4) nobit by (intro uval_set_bit) simp_all
    also have "\<dots> = uval pn OR 2 ^ shift"
      using nobit by (intro disjunctive_add_eq_or bit_eqI) (auto simp: bit_and_iff bit_exp_iff)
    finally have "\<not> bit (uval ?pn) i" if "i < shift" for i
      using nobit that by (auto simp: bit_or_iff bit_exp_iff)
    then have "wf_uint (div_loop shift (op_sub num dv) (op_shr dv 1) ?pn) \<and>
        uval (div_loop shift (op_sub num dv) (op_shr dv 1) ?pn) = uval ?pn + uval (op_sub num dv) div B"
      using prems(1-5) num num' dv'
      by (intro Suc.IH) (simp_all add: wf_op_sub wf_op_shr wf_uint_def [of "list_update _ _ _"] wf_uint_def [of pn])
    moreover have "uval num div B = 2 ^ shift + (uval num - B * 2 ^ shift) div B"
    proof -
      have "uval num = (uval num - B * 2 ^ shift) + 2 ^ shift * B" using ge by simp
      then show ?thesis using prems(5) by (metis add.commute div_mult_self1 less_numeral_extra(3))
    qed
    ultimately show ?thesis using True num' pn' by simp
  next
    case False
    then have "uval num < B * 2 ^ shift" using prems(1,2) dv by simp
    then have "wf_uint (div_loop shift num (op_shr dv 1) pn) \<and>
        uval (div_loop shift num (op_shr dv 1) pn) = uval pn + uval num div B"
      using prems(1-5) dv' nobit by (intro Suc.IH) (simp_all add: wf_op_shr)
    then show ?thesis using False by simp
  qed
qed

lemma op_div_correct:
  assumes "wf_uint a" "wf_uint b"
  shows "op_div a b = None \<longleftrightarrow> uval b = 0"
    and "uval b \<noteq> 0 \<Longrightarrow> \<exists>q. op_div a b = Some q \<and> wf_uint q \<and> uval q = uval a div uval b"
proof -
  show "op_div a b = None \<longleftrightarrow> uval b = 0"
    using assms by (simp add: op_div_def bits_zero Let_def)
  assume nz: "uval b \<noteq> 0"
  then have b0: "bits b \<noteq> 0" using assms by (simp add: bits_zero)
  show "\<exists>q. op_div a b = Some q \<and> wf_uint q \<and> uval q = uval a div uval b"
  proof (cases "bits a < bits b")
    case True
    have "uval a < 2 ^ bits a" by (rule uval_lt_bits [OF assms(1)])
    also have "(2::nat) ^ bits a \<le> 2 ^ (bits b - 1)" using True by (intro power_increasing) simp_all
    also have "\<dots> \<le> uval b" by (rule bits_le_uval [OF assms(2) nz])
    finally show ?thesis using True b0 by (simp add: op_div_def Let_def)
  next
    case False
    let ?sh = "bits a - bits b"
    have a256: "bits a \<le> 256" by (rule bits_le_256 [OF assms(1)])
    have "uval b * 2 ^ ?sh < 2 ^ bits b * 2 ^ ?sh"
      using uval_lt_bits [OF assms(2)] by simp
    also have "\<dots> = 2 ^ bits a" using False by (simp flip: power_add)
    also have "\<dots> \<le> (2::nat) ^ 256" using a256 by (intro power_increasing) simp_all
    finally have sh: "uval (op_shl b ?sh) = uval b * 2 ^ ?sh"
      using assms by (simp add: uval_op_shl)
    have "uval a < uval b * 2 ^ Suc ?sh"
    proof -
      have "uval a < 2 ^ bits a" by (rule uval_lt_bits [OF assms(1)])
      also have "\<dots> = 2 ^ (bits b - 1) * 2 ^ Suc ?sh" using False b0 by (simp flip: power_add power_Suc)
      also have "\<dots> \<le> uval b * 2 ^ Suc ?sh"
        using bits_le_uval [OF assms(2) nz] by (rule mult_le_mono1)
      finally show ?thesis .
    qed
    then have "wf_uint (div_loop (Suc ?sh) a (op_shl b ?sh) base_uint_zero) \<and>
      uval (div_loop (Suc ?sh) a (op_shl b ?sh) base_uint_zero) = uval base_uint_zero + uval a div uval b"
      using assms nz sh a256 b0 by (intro div_loop_correct) (simp_all add: wf_op_shl)
    then show ?thesis using False b0 by (simp add: op_div_def Let_def)
  qed
qed

section \<open>The compact encoding\<close>

lemma mask_23: "(0x007fffff :: u32) = mask 23" and bit_23: "(0x00800000 :: u32) = push_bit 23 1"
  by (simp_all add: mask_eq_exp_minus_1)

lemma uval_of_u64: "uval (base_uint_of_u64 b) = unat b"
proof -
  have "unat (ucast b :: u32) = unat b mod 2 ^ 32"
    by (simp add: unsigned_ucast_eq take_bit_eq_mod)
  moreover have "unat (ucast (drop_bit 32 b) :: u32) = unat b div 2 ^ 32"
  proof -
    have "unat b div 2 ^ 32 < 2 ^ 32" using unat_lt_64 [of b] by (simp add: less_mult_imp_div_less)
    then show ?thesis by (simp only: unsigned_ucast_eq take_bit_eq_mod unat_drop_bit) simp
  qed
  ultimately show ?thesis by (simp add: base_uint_of_u64_def)
qed

lemma wf_of_u64 [simp]: "wf_uint (base_uint_of_u64 b)"
  by (simp add: wf_uint_def base_uint_of_u64_def WIDTH_def)

lemma uval_of_u32: "uval (base_uint_of_u64 (ucast (w :: u32))) = unat w"
  by (simp add: uval_of_u64 unat_ucast_32_64)

lemma SetCompact_wf: "wf_uint (fst (SetCompact c))"
  by (simp add: SetCompact_def Let_def wf_op_shl)

text \<open>The mantissa and the exponent of a compact word.\<close>

definition compact_mantissa :: "u32 \<Rightarrow> nat" where
  "compact_mantissa c = unat c mod 2 ^ 23"

definition compact_exponent :: "u32 \<Rightarrow> nat" where
  "compact_exponent c = unat c div 2 ^ 24"


definition compact_word :: "u32 \<Rightarrow> nat" where
  "compact_word c = (if compact_exponent c \<le> 3 then compact_mantissa c div 256 ^ (3 - compact_exponent c)
                     else compact_mantissa c)"

lemma pow_8: "(2::nat) ^ (8 * n) = 256 ^ n"
  by (simp add: power_mult)

lemma unat_compact_word:
  "unat (if unat (drop_bit 24 c) \<le> 3 then drop_bit (8 * (3 - unat (drop_bit 24 c))) (c AND 0x007fffff)
         else c AND 0x007fffff) = compact_word c"
  by (simp only: mask_23 unat_drop_bit compact_word_def compact_exponent_def compact_mantissa_def
      if_distrib [of unat] unat_and_mask pow_8)

lemma SetCompact_value:
  "uval (fst (SetCompact c)) =
     (if compact_exponent c \<le> 3 then compact_word c
      else compact_word c * 256 ^ (compact_exponent c - 3) mod 2 ^ 256)"
proof -
  let ?w = "if unat (drop_bit 24 c) \<le> 3 then drop_bit (8 * (3 - unat (drop_bit 24 c))) (c AND 0x007fffff)
         else c AND 0x007fffff"
  have "uval (fst (SetCompact c)) =
      (if unat (drop_bit 24 c) \<le> 3 then unat ?w
       else unat ?w * 2 ^ (8 * (unat (drop_bit 24 c) - 3)) mod 2 ^ 256)"
    unfolding SetCompact_def Let_def fst_conv if_distrib [of uval]
    by (simp only: uval_of_u32 uval_op_shl wf_of_u64)
  then show ?thesis
    by (simp only: unat_compact_word pow_8) (simp only: compact_exponent_def unat_drop_bit)
qed

lemma SetCompact_negative:
  "fst (snd (SetCompact c)) \<longleftrightarrow> compact_word c \<noteq> 0 \<and> bit c 23"
  unfolding SetCompact_def Let_def fst_conv snd_conv bit_23 and_single_bit
  by (simp only: unsigned_eq_0_iff [symmetric, where ?'a = nat] unat_compact_word)

lemma SetCompact_overflow_flag:
  "snd (snd (SetCompact c)) \<longleftrightarrow> compact_word c \<noteq> 0 \<and>
     (compact_exponent c > 34 \<or> compact_word c > 0xff \<and> compact_exponent c > 33
      \<or> compact_word c > 0xffff \<and> compact_exponent c > 32)"
  unfolding SetCompact_def Let_def fst_conv snd_conv word_less_nat_alt
  by (simp only: unsigned_eq_0_iff [symmetric, where ?'a = nat] unat_compact_word,
      simp only: compact_exponent_def unat_drop_bit) simp

lemma compact_word_less: "compact_word c < 2 ^ 23"
proof -
  have "compact_word c \<le> compact_mantissa c" by (simp add: compact_word_def)
  also have "\<dots> < 2 ^ 23" by (simp add: compact_mantissa_def)
  finally show ?thesis .
qed

text \<open>The overflow flag is exact: it is set when the denoted number does not fit 256 bits.\<close>

lemma SetCompact_overflow:
  "snd (snd (SetCompact c)) \<longleftrightarrow> compact_exponent c > 3 \<and> 2 ^ 256 \<le> compact_word c * 256 ^ (compact_exponent c - 3)"
proof -
  let ?w = "compact_word c" and ?e = "compact_exponent c"
  have w: "?w < 8388608" using compact_word_less [of c] by simp
  consider "?e \<le> 32" | "?e = 33" | "?e = 34" | "?e > 34" by linarith
  then show ?thesis
  proof cases
    case 1
    have "?w * 256 ^ (?e - 3) < 2 ^ 23 * 256 ^ 29"
      using compact_word_less [of c] 1 by (intro mult_less_le_imp_less power_increasing) simp_all
    then show ?thesis using 1 by (simp add: SetCompact_overflow_flag)
  next
    case 2
    then show ?thesis by (auto simp: SetCompact_overflow_flag)
  next
    case 3
    then show ?thesis by (auto simp: SetCompact_overflow_flag)
  next
    case 4
    show ?thesis
    proof (cases "?w = 0")
      case False
      have "(256::nat) ^ 32 \<le> 256 ^ (?e - 3)" using 4 by (intro power_increasing) simp_all
      also have "\<dots> \<le> ?w * 256 ^ (?e - 3)" using False by simp
      finally show ?thesis using 4 False by (simp add: SetCompact_overflow_flag)
    qed (simp add: SetCompact_overflow_flag)
  qed
qed

text \<open>
  \<open>GetCompact\<close> on numbers: the mantissa of the top three bytes, shifted down by one byte when its
  sign bit would be set.
\<close>

definition byte_len :: "base_uint \<Rightarrow> nat" where
  "byte_len a = (bits a + 7) div 8"

definition top_bytes :: "base_uint \<Rightarrow> nat" where
  "top_bytes a = (if byte_len a \<le> 3 then uval a * 256 ^ (3 - byte_len a) else uval a div 256 ^ (byte_len a - 3))"

lemma uval_lt_byte_len: "wf_uint a \<Longrightarrow> uval a < 256 ^ byte_len a"
proof -
  assume wf: "wf_uint a"
  have "uval a < 2 ^ bits a" by (rule uval_lt_bits [OF wf])
  also have "(2::nat) ^ bits a \<le> 2 ^ (8 * byte_len a)"
    by (intro power_increasing) (simp_all add: byte_len_def)
  finally show ?thesis by (simp only: pow_8)
qed

lemma byte_len_le_33: "wf_uint a \<Longrightarrow> byte_len a \<le> 32"
  using bits_le_256 [of a] by (simp add: byte_len_def)

lemma GetLow64_val: "wf_uint a \<Longrightarrow> unat (GetLow64 a) = uval a mod 2 ^ 64"
proof -
  assume "wf_uint a"
  then obtain x y zs where a: "a = x # y # zs"
    by (cases a; cases "tl a") (auto simp: wf_uint_def WIDTH_def)
  have x: "unat (ucast x :: u64) < 2 ^ 32" using unat_lt_32 [of x] by (simp add: unat_ucast_32_64)
  have y: "unat (push_bit 32 (ucast y) :: u64) = 2 ^ 32 * unat y"
  proof -
    have "unat (push_bit 32 (ucast y) :: u64) = take_bit 64 (push_bit 32 (unat y))"
      by (simp only: unsigned_push_bit_eq unat_ucast_32_64) simp
    then show ?thesis using unat_lt_32 [of y] by (simp add: push_bit_eq_mult take_bit_nat_eq_self)
  qed
  have "unat (GetLow64 a) = unat x + 2 ^ 32 * unat y"
    using unat_or_disjoint [OF x y] by (simp add: GetLow64_def a unat_ucast_32_64)
  moreover have "uval a = (unat x + 2 ^ 32 * unat y) + uval zs * 2 ^ 64" by (simp add: a)
  moreover have "unat x + 2 ^ 32 * unat y < 2 ^ 64" using unat_lt_32 [of x] unat_lt_32 [of y] by simp
  ultimately show ?thesis by (simp only: mod_mult_self1 mod_less)
qed

lemma unat_ucast_64_32: "unat (ucast (x :: u64) :: u32) = unat x mod 2 ^ 32"
  by (simp only: unsigned_ucast_eq take_bit_eq_mod) simp

lemma top_bytes_less: "wf_uint a \<Longrightarrow> top_bytes a < 2 ^ 24"
proof (cases "byte_len a \<le> 3")
  assume wf: "wf_uint a"
  case True
  have "uval a * 256 ^ (3 - byte_len a) < 256 ^ byte_len a * 256 ^ (3 - byte_len a)"
    using uval_lt_byte_len [OF wf] by simp
  also have "\<dots> = 256 ^ 3" using True by (simp flip: power_add)
  finally show ?thesis using True by (simp add: top_bytes_def)
next
  assume wf: "wf_uint a"
  case False
  have "uval a < 256 ^ (3 + (byte_len a - 3))" using False uval_lt_byte_len [OF wf] by simp
  then have "uval a div 256 ^ (byte_len a - 3) < 256 ^ 3"
    unfolding power_add by (rule less_mult_imp_div_less)
  then show ?thesis using False by (simp add: top_bytes_def)
qed

lemma unat_top_bytes:
  assumes wf: "wf_uint a"
  shows "unat (if byte_len a \<le> 3 then ucast (push_bit (8 * (3 - byte_len a)) (GetLow64 a))
               else ucast (GetLow64 (op_shr a (8 * (byte_len a - 3)))) :: u32) = top_bytes a"
proof (cases "byte_len a \<le> 3")
  case True
  have "uval a < 256 ^ byte_len a" by (rule uval_lt_byte_len [OF wf])
  also have "\<dots> \<le> (256::nat) ^ 3" using True by (intro power_increasing) simp_all
  finally have "unat (GetLow64 a) = uval a" by (simp add: GetLow64_val [OF wf])
  then have "unat (push_bit (8 * (3 - byte_len a)) (GetLow64 a)) = take_bit 64 (push_bit (8 * (3 - byte_len a)) (uval a))"
    by (simp only: unsigned_push_bit_eq) simp
  also have "push_bit (8 * (3 - byte_len a)) (uval a) = top_bytes a"
    using True by (simp only: top_bytes_def push_bit_eq_mult pow_8) simp
  finally have "unat (push_bit (8 * (3 - byte_len a)) (GetLow64 a)) = take_bit 64 (top_bytes a)" .
  then show ?thesis
    using True top_bytes_less [OF wf] by (simp add: unat_ucast_64_32 take_bit_nat_eq_self)
next
  case False
  have "unat (GetLow64 (op_shr a (8 * (byte_len a - 3)))) = top_bytes a mod 2 ^ 64"
    using False by (simp only: GetLow64_val wf_op_shr uval_op_shr wf pow_8 top_bytes_def) simp
  then show ?thesis using False top_bytes_less [OF wf] by (simp add: unat_ucast_64_32)
qed

definition compact_fields :: "base_uint \<Rightarrow> nat \<times> nat" where
  "compact_fields a = (if top_bytes a < 2 ^ 23 then (top_bytes a, byte_len a)
                       else (top_bytes a div 256, byte_len a + 1))"

lemma compact_fields_bounds:
  assumes "wf_uint a" "compact_fields a = (m, e)"
  shows "m < 2 ^ 23" "e \<le> 33"
  using assms top_bytes_less [OF assms(1)] byte_len_le_33 [OF assms(1)]
  by (auto simp: compact_fields_def split: if_splits)

lemma unat_bit_23: "unat (x :: u32) < 2 ^ 24 \<Longrightarrow> x AND 0x00800000 \<noteq> 0 \<longleftrightarrow> 2 ^ 23 \<le> unat x"
proof -
  assume x: "unat x < 2 ^ 24"
  have "x AND 0x00800000 \<noteq> 0 \<longleftrightarrow> bit (unat x) 23"
    by (simp only: bit_23 and_single_bit) (simp add: bit_unsigned_iff)
  also have "\<dots> \<longleftrightarrow> odd (unat x div 2 ^ 23)" by (simp add: bit_iff_odd)
  also have "\<dots> \<longleftrightarrow> 2 ^ 23 \<le> unat x"
  proof (cases "2 ^ 23 \<le> unat x")
    case True
    then have "unat x div 2 ^ 23 = 1" using x by (intro div_nat_eqI) simp_all
    with True show ?thesis by simp
  qed simp
  finally show ?thesis .
qed

lemma and_not_mask_23: "(x :: u32) AND NOT 0x007fffff = 0 \<longleftrightarrow> unat x < 2 ^ 23"
proof -
  have "x AND NOT (mask 23) = 0 \<longleftrightarrow> x AND mask 23 = x"
    by (auto simp: bit_eq_iff [where ?'a = u32] bit_simps)
  also have "\<dots> \<longleftrightarrow> unat (x AND mask 23) = unat x" by (auto intro: unsigned_word_eqI)
  also have "\<dots> \<longleftrightarrow> unat x < 2 ^ 23"
    unfolding unat_and_mask by (metis mod_less mod_less_divisor zero_less_numeral zero_less_power)
  finally show ?thesis by (simp only: mask_23)
qed

lemma GetCompact_fields:
  assumes wf: "wf_uint a"
  shows "\<exists>c. GetCompact a False = Some c \<and>
    compact_fields a = (unat c mod 2 ^ 24, compact_exponent c) \<and> unat c mod 2 ^ 24 < 2 ^ 23"
proof -
  define x where "x = (if byte_len a \<le> 3 then ucast (push_bit (8 * (3 - byte_len a)) (GetLow64 a))
      else ucast (GetLow64 (op_shr a (8 * (byte_len a - 3)))) :: u32)"
  have x: "unat x = top_bytes a" unfolding x_def by (rule unat_top_bytes [OF wf])
  obtain m e where me: "compact_fields a = (m, e)" by (cases "compact_fields a")
  note b = compact_fields_bounds [OF wf me]
  define w where "w = (if x AND 0x00800000 \<noteq> 0 then drop_bit 8 x else x)"
  have sign: "x AND 0x00800000 \<noteq> 0 \<longleftrightarrow> 2 ^ 23 \<le> top_bytes a"
    using unat_bit_23 [of x] top_bytes_less [OF wf] unfolding x by blast
  have w: "unat w = m"
    using me sign x by (auto simp: w_def compact_fields_def unat_drop_bit split: if_splits)
  have p: "(if x AND 0x00800000 \<noteq> 0 then (drop_bit 8 x, byte_len a + 1) else (x, byte_len a)) = (w, e)"
    using me sign by (auto simp: w_def compact_fields_def split: if_splits)
  have "w AND NOT 0x007fffff = 0" using w b by (simp only: and_not_mask_23)
  then have "GetCompact a False = Some (w OR push_bit 24 (word_of_nat e))"
    unfolding GetCompact_def byte_len_def [symmetric] x_def [symmetric] Let_def p prod.case
    using b by simp
  moreover have "unat (push_bit 24 (word_of_nat e) :: u32) = 2 ^ 24 * e"
  proof -
    have "unat (word_of_nat e :: u32) = e" using b by (simp add: unsigned_of_nat take_bit_nat_eq_self)
    then have "unat (push_bit 24 (word_of_nat e) :: u32) = take_bit 32 (push_bit 24 e)"
      by (simp only: unsigned_push_bit_eq) simp
    then show ?thesis using b by (simp add: push_bit_eq_mult take_bit_nat_eq_self)
  qed
  then have "unat (w OR push_bit 24 (word_of_nat e)) = m + 2 ^ 24 * e"
    using unat_or_disjoint [of w 24] w b by simp
  ultimately show ?thesis
    using b me by (intro exI [of _ "w OR push_bit 24 (word_of_nat e)"]) (simp add: compact_exponent_def)
qed

lemma compact_fields_decode:
  assumes wf: "wf_uint a" and me: "compact_fields a = (m, e)"
  shows "(if e \<le> 3 then m div 256 ^ (3 - e) else m * 256 ^ (e - 3)) = uval a - uval a mod 256 ^ (e - 3)"
proof -
  consider (le) "byte_len a \<le> 3" "top_bytes a < 2 ^ 23" | (gt) "\<not> byte_len a \<le> 3" "top_bytes a < 2 ^ 23"
    | (le') "byte_len a < 3" "\<not> top_bytes a < 2 ^ 23" | (ge') "\<not> byte_len a < 3" "\<not> top_bytes a < 2 ^ 23"
    by linarith
  then show ?thesis
  proof cases
    case le
    then show ?thesis using me by (auto simp: compact_fields_def top_bytes_def)
  next
    case gt
    then show ?thesis
      using me by (auto simp: compact_fields_def top_bytes_def minus_mod_eq_div_mult)
  next
    case le'
    have "m = uval a * 256 ^ (2 - byte_len a)"
    proof -
      have "3 - byte_len a = Suc (2 - byte_len a)" using le' by simp
      then have "(256::nat) ^ (3 - byte_len a) = 256 ^ (2 - byte_len a) * 256" by simp
      then show ?thesis using le' me by (simp add: compact_fields_def top_bytes_def)
    qed
    then show ?thesis using le' me by (auto simp: compact_fields_def)
  next
    case ge'
    have "top_bytes a = uval a div 256 ^ (byte_len a - 3)" using ge' by (auto simp: top_bytes_def)
    moreover have "byte_len a - 2 = Suc (byte_len a - 3)" using ge' by simp
    then have "(256::nat) ^ (byte_len a - 2) = 256 ^ (byte_len a - 3) * 256" by simp
    ultimately have "m = uval a div 256 ^ (byte_len a - 2)" "e = byte_len a + 1"
      using ge' me by (auto simp: compact_fields_def div_mult2_eq)
    then show ?thesis using ge' by (simp add: minus_mod_eq_div_mult)
  qed
qed

lemma SetCompact_GetCompact:
  assumes wf: "wf_uint a"
  shows "\<exists>c a'. GetCompact a False = Some c \<and> SetCompact c = (a', False, False) \<and>
    uval a' = uval a - uval a mod 256 ^ (compact_exponent c - 3)"
proof -
  obtain c where c: "GetCompact a False = Some c"
    and f: "compact_fields a = (unat c mod 2 ^ 24, compact_exponent c)" and m: "unat c mod 2 ^ 24 < 2 ^ 23"
    using GetCompact_fields [OF wf] by blast
  let ?e = "compact_exponent c" and ?v = "uval a - uval a mod 256 ^ (compact_exponent c - 3)"
  have mant: "compact_mantissa c = unat c mod 2 ^ 24"
  proof -
    have "unat c mod 2 ^ 23 = unat c mod 2 ^ 24 mod 2 ^ 23" by (simp add: mod_mod_cancel)
    then show ?thesis using m by (simp add: compact_mantissa_def)
  qed
  have val: "(if ?e \<le> 3 then compact_word c else compact_word c * 256 ^ (?e - 3)) = ?v"
    using compact_fields_decode [OF wf f] by (cases "?e \<le> 3") (simp_all add: compact_word_def mant)
  have v: "?v < 2 ^ 256" using uval_less_256 [OF wf] by simp
  have "uval (fst (SetCompact c)) = ?v"
    using val v by (auto simp: SetCompact_value split: if_splits)
  moreover have "\<not> snd (snd (SetCompact c))"
    using val v by (auto simp: SetCompact_overflow split: if_splits)
  moreover have "\<not> fst (snd (SetCompact c))"
  proof -
    have "\<not> bit (unat c mod 2 ^ 24) 23" using m bit_nat_le [of "unat c mod 2 ^ 24" 23] by auto
    then have "\<not> bit (take_bit 24 (unat c)) 23" by (simp only: take_bit_eq_mod) simp
    then have "\<not> bit c 23" by (simp add: bit_unsigned_iff bit_take_bit_iff)
    then show ?thesis by (simp add: SetCompact_negative)
  qed
  ultimately show ?thesis
    using c by (intro exI [of _ c] exI [of _ "fst (SetCompact c)"]) (auto simp: prod_eq_iff)
qed

subsection \<open>The encoding as a function of the number\<close>

text \<open>The number of binary digits, the number of bytes with a sign bit, and the compact form of a number.\<close>

fun bit_length :: "nat \<Rightarrow> nat" where
  "bit_length n = (if n = 0 then 0 else Suc (bit_length (n div 2)))"

declare bit_length.simps [simp del]

definition compact_size :: "nat \<Rightarrow> nat" where
  "compact_size n = (if n = 0 then 0 else bit_length n div 8 + 1)"

definition compact_of :: "nat \<Rightarrow> nat" where
  "compact_of n = (let e = compact_size n in 2 ^ 24 * e + (if e \<le> 3 then n * 256 ^ (3 - e) else n div 256 ^ (e - 3)))"

lemma bit_length_eq: "2 ^ k \<le> n \<Longrightarrow> n < 2 ^ Suc k \<Longrightarrow> bit_length n = Suc k"
proof (induction k arbitrary: n)
  case 0
  then have "n = 1" by simp
  then show ?case by (simp add: bit_length.simps [of "Suc 0"] bit_length.simps [of 0])
next
  case (Suc k)
  then have "bit_length (n div 2) = Suc k" by (intro Suc.IH) (simp_all add: less_mult_imp_div_less)
  then show ?case using Suc.prems by (subst bit_length.simps) (auto simp: not_le)
qed

lemma bits_bit_length: "wf_uint a \<Longrightarrow> bits a = bit_length (uval a)"
proof (cases "uval a = 0")
  case True
  then show "wf_uint a \<Longrightarrow> bits a = bit_length (uval a)" using bits_zero [of a] by (simp add: bit_length.simps)
next
  assume wf: "wf_uint a"
  case False
  then obtain k where k: "bits a = Suc k" using bits_zero [OF wf] by (cases "bits a") simp_all
  then show ?thesis using bit_length_eq [of k "uval a"] bits_le_uval [OF wf False] uval_lt_bits [OF wf] by simp
qed

lemma top_bytes_sign:
  assumes "0 < byte_len a"
  shows "top_bytes a < 2 ^ 23 \<longleftrightarrow> uval a < 2 ^ (8 * byte_len a - 1)"
proof (cases "byte_len a \<le> 3")
  case True
  have "8 * byte_len a - 1 + 8 * (3 - byte_len a) = 23" using assms True by linarith
  then have "(2::nat) ^ 23 = 2 ^ (8 * byte_len a - 1) * 256 ^ (3 - byte_len a)" by (metis pow_8 power_add)
  then have "top_bytes a < 2 ^ 23 \<longleftrightarrow> uval a * 256 ^ (3 - byte_len a) < 2 ^ (8 * byte_len a - 1) * 256 ^ (3 - byte_len a)"
    using True by (simp only: top_bytes_def if_True)
  then show ?thesis by simp
next
  case False
  have "8 * byte_len a - 1 = 23 + 8 * (byte_len a - 3)" using False by linarith
  then have "(2::nat) ^ (8 * byte_len a - 1) = 2 ^ 23 * 256 ^ (byte_len a - 3)" by (simp only: power_add pow_8)
  then show ?thesis using False by (simp add: top_bytes_def div_less_iff_less_mult)
qed

lemma compact_fields_eq:
  assumes wf: "wf_uint a" and me: "compact_fields a = (m, e)"
  shows "e = compact_size (uval a)" "2 ^ 24 * e + m = compact_of (uval a)"
proof -
  have e: "e = compact_size (uval a)"
  proof (cases "uval a = 0")
    case True
    then show ?thesis using me bits_zero [OF wf] by (simp add: compact_fields_def compact_size_def top_bytes_def byte_len_def)
  next
    case False
    have b: "0 < bits a" "2 ^ (bits a - 1) \<le> uval a" "uval a < 2 ^ bits a"
      using False bits_zero [OF wf] bits_le_uval [OF wf] uval_lt_bits [OF wf] by simp_all
    have l: "0 < byte_len a" "8 * (byte_len a - 1) < bits a" "bits a \<le> 8 * byte_len a" using b(1) by (simp_all add: byte_len_def)
    have "uval a < 2 ^ (8 * byte_len a - 1) \<longleftrightarrow> bits a \<le> 8 * byte_len a - 1"
    proof
      assume "uval a < 2 ^ (8 * byte_len a - 1)"
      then have "(2::nat) ^ (bits a - 1) < 2 ^ (8 * byte_len a - 1)" using b(2) by (rule order.strict_trans1 [rotated])
      then show "bits a \<le> 8 * byte_len a - 1" by simp
    next
      assume "bits a \<le> 8 * byte_len a - 1"
      then have "(2::nat) ^ bits a \<le> 2 ^ (8 * byte_len a - 1)" by (intro power_increasing) simp_all
      then show "uval a < 2 ^ (8 * byte_len a - 1)" using b(3) by linarith
    qed
    moreover have "bits a div 8 + 1 = (if bits a \<le> 8 * byte_len a - 1 then byte_len a else byte_len a + 1)"
    proof (cases "bits a \<le> 8 * byte_len a - 1")
      case True
      then have "bits a div 8 = byte_len a - 1" using l by (intro div_nat_eqI) simp_all
      then show ?thesis using True l by simp
    next
      case False
      then have "bits a = 8 * byte_len a" using l by simp
      then show ?thesis using False by simp
    qed
    ultimately show ?thesis using me False top_bytes_sign [OF l(1)] bits_bit_length [OF wf]
      by (auto simp: compact_fields_def compact_size_def split: if_splits)
  qed
  moreover have "m = (if e \<le> 3 then uval a * 256 ^ (3 - e) else uval a div 256 ^ (e - 3))"
  proof (cases "top_bytes a < 2 ^ 23")
    case True
    then show ?thesis using me by (auto simp: compact_fields_def top_bytes_def)
  next
    case False
    then have m: "m = top_bytes a div 256" "e = byte_len a + 1" using me by (simp_all add: compact_fields_def)
    show ?thesis
    proof (cases "byte_len a < 3")
      case True
      then have "3 - byte_len a = Suc (2 - byte_len a)" by simp
      then show ?thesis using True m by (simp add: top_bytes_def)
    next
      case ge: False
      have "top_bytes a = uval a div 256 ^ (byte_len a - 3)" using ge by (auto simp: top_bytes_def)
      moreover have "byte_len a - 2 = Suc (byte_len a - 3)" using ge by simp
      ultimately show ?thesis using ge m by (simp add: div_mult2_eq power_Suc2 del: power_Suc)
    qed
  qed
  ultimately show "e = compact_size (uval a)" "2 ^ 24 * e + m = compact_of (uval a)" by (simp_all add: compact_of_def Let_def)
qed

lemma GetCompact_value:
  assumes wf: "wf_uint a"
  shows "GetCompact a False = Some (word_of_nat (compact_of (uval a)))"
    "compact_exponent (word_of_nat (compact_of (uval a))) = compact_size (uval a)"
proof -
  obtain c where c: "GetCompact a False = Some c" "compact_fields a = (unat c mod 2 ^ 24, compact_exponent c)"
    using GetCompact_fields [OF wf] by blast
  have "unat c = 2 ^ 24 * compact_exponent c + unat c mod 2 ^ 24" by (simp add: compact_exponent_def)
  then have "unat c = compact_of (uval a)" using compact_fields_eq(2) [OF wf c(2)] by simp
  moreover have "c = word_of_nat (unat c)" by simp
  ultimately have "c = word_of_nat (compact_of (uval a))" by simp
  then show "GetCompact a False = Some (word_of_nat (compact_of (uval a)))"
    "compact_exponent (word_of_nat (compact_of (uval a))) = compact_size (uval a)"
    using c compact_fields_eq(1) [OF wf c(2)] by simp_all
qed

section \<open>Bits of a word\<close>

lemma op_word64_eq:
  assumes "wf_uint a"
  shows "op_xor64 a b = op_xor a (base_uint_of_u64 b)" "op_or64 a b = op_or a (base_uint_of_u64 b)"
proof -
  obtain x y zs where a: "a = x # y # zs" "length zs = 6"
    using assms by (cases a; cases "tl a") (auto simp: wf_uint_def WIDTH_def)
  then show "op_xor64 a b = op_xor a (base_uint_of_u64 b)" "op_or64 a b = op_or a (base_uint_of_u64 b)"
    by (simp_all add: op_xor64_def op_xor_def op_or64_def op_or_def base_uint_of_u64_def WIDTH_def zip_replicate2 comp_def)
qed

section \<open>Blobs\<close>

lemma uval_UintToArith256:
  assumes "length b = 32"
  shows "uval (UintToArith256 b) = bval b"
proof -
  have step: "uval (map (\<lambda>x. ReadLE32 (drop (x * 4) b)) [i..<WIDTH]) = bval (drop (i * 4) b)" if "i \<le> WIDTH" for i
    using that
  proof (induction "WIDTH - i" arbitrary: i)
    case 0
    then show ?case using assms by (simp add: WIDTH_def)
  next
    case (Suc k)
    then have i: "i < WIDTH" by simp
    have sp: "drop (i * 4) b = take 4 (drop (i * 4) b) @ drop (Suc i * 4) b"
      by (metis add.commute append_take_drop_id drop_drop mult_Suc)
    have l: "length (take 4 (drop (i * 4) b)) = 4" using assms i by (simp add: WIDTH_def)
    then have "unat (ReadLE32 (drop (i * 4) b)) = bval (take 4 (drop (i * 4) b))"
      unfolding ReadLE32_def by (intro unat_le_word) simp
    moreover have "uval (map (\<lambda>x. ReadLE32 (drop (x * 4) b)) [Suc i..<WIDTH]) = bval (drop (Suc i * 4) b)"
      using Suc i by (intro Suc.hyps(1)) simp_all
    ultimately show ?case
      using i l by (subst sp) (simp add: bval_append upt_conv_Cons)
  qed
  show ?thesis using step [of 0] by (simp add: UintToArith256_def)
qed

lemma wf_UintToArith256 [simp]: "wf_uint (UintToArith256 b)"
  by (simp add: wf_uint_def UintToArith256_def)

lemma bval_ArithToUint256: "bval (ArithToUint256 a) = uval a"
proof (induction a)
  case (Cons x xs)
  have "bval (WriteLE32 x) = unat x"
    using unat_lt_32 [of x] by (simp add: WriteLE32_def bval_le_bytes)
  with Cons show ?case by (simp add: ArithToUint256_def bval_append WriteLE32_def)
qed (simp add: ArithToUint256_def)

lemma length_ArithToUint256: "wf_uint a \<Longrightarrow> length (ArithToUint256 a) = 32"
  by (simp add: ArithToUint256_def length_concat wf_uint_def WIDTH_def WriteLE32_def comp_def sum_list_triv)

lemma UintToArith256_ArithToUint256: "wf_uint a \<Longrightarrow> UintToArith256 (ArithToUint256 a) = a"
  using wf_UintToArith256 [of "ArithToUint256 a"]
  by (intro uval_inject) (simp_all add: uval_UintToArith256 length_ArithToUint256 bval_ArithToUint256 wf_uint_def)

lemma uval_op_sub_int:
  assumes "wf_uint a" and "wf_uint b"
  shows "int (uval (op_sub a b)) = (int (uval a) - int (uval b)) mod 2 ^ 256"
proof -
  have "uval b \<le> 2 ^ 256" using uval_less_256 [OF assms(2)] by (rule less_imp_le)
  then have "int (2 ^ 256 - uval b) = 2 ^ 256 - int (uval b)" by (simp only: of_nat_diff of_nat_power of_nat_numeral)
  then have "int (uval (op_sub a b)) = (int (uval a) - int (uval b) + 2 ^ 256) mod 2 ^ 256"
    unfolding uval_op_sub [OF assms] by (simp only: of_nat_mod of_nat_add of_nat_power of_nat_numeral) (simp add: algebra_simps)
  then show ?thesis by (simp only: mod_add_self2)
qed

section \<open>Properties\<close>

text \<open>
  C1: on eight-limb numbers the limb-by-limb addition, subtraction, multiplication (by a number and by
  a 32-bit word) and the two shifts compute the corresponding operation on 256-bit integers, with
  wrap-around at \<open>2\<^sup>2\<^sup>5\<^sup>6\<close>.
\<close>

theorem arith_operations:
  assumes "wf_uint a" and "wf_uint b"
  shows "uval (op_add a b) = (uval a + uval b) mod 2 ^ 256 \<and>
    int (uval (op_sub a b)) = (int (uval a) - int (uval b)) mod 2 ^ 256 \<and>
    uval (op_mul a b) = (uval a * uval b) mod 2 ^ 256 \<and>
    uval (op_mul32 a w) = (uval a * unat w) mod 2 ^ 256 \<and>
    uval (op_shl a n) = (uval a * 2 ^ n) mod 2 ^ 256 \<and>
    uval (op_shr a n) = uval a div 2 ^ n"
  using uval_op_sub_int [OF assms] assms
  by (simp only: uval_op_add uval_op_mul uval_op_mul32 uval_op_shl uval_op_shr simp_thms)

theorem arith_operations_witness:
  "int (uval (op_sub (base_uint_of_u64 3) (base_uint_of_u64 5))) = 2 ^ 256 - 2 \<and>
   uval (op_shl (base_uint_of_u64 3) 255) = 2 ^ 255"
  using arith_operations [OF wf_of_u64 [of 3] wf_of_u64 [of 5], of 0 255] by (simp add: uval_of_u64)

text \<open>
  C2: the shift-and-subtract division stops with an error exactly when the divisor is zero, and
  otherwise returns the quotient of the two numbers.
\<close>

theorem arith_division:
  assumes "wf_uint a" and "wf_uint b"
  shows "case op_div a b of None \<Rightarrow> uval b = 0
         | Some q \<Rightarrow> uval b \<noteq> 0 \<and> wf_uint q \<and> uval q = uval a div uval b"
  using op_div_correct [OF assms] by (auto split: option.split)

theorem arith_division_witness:
  "op_div (base_uint_of_u64 7) (base_uint_of_u64 0) = None \<and>
   (\<exists>q. op_div (base_uint_of_u64 700) (base_uint_of_u64 9) = Some q \<and> uval q = 77)"
  using arith_division [OF wf_of_u64 [of 7] wf_of_u64 [of 0]]
    arith_division [OF wf_of_u64 [of 700] wf_of_u64 [of 9]]
  by (simp add: uval_of_u64 split: option.splits)

text \<open>
  C3: \<open>SetCompact\<close> decodes the floating representation of \<open>nBits\<close>: the number is the mantissa scaled by
  the exponent, modulo \<open>2\<^sup>2\<^sup>5\<^sup>6\<close>, the overflow flag is set exactly when the scaled mantissa does not
  fit in 256 bits, and the negative flag exactly when the sign bit is set on a nonzero mantissa.
\<close>

theorem compact_decoding:
  "uval (fst (SetCompact c)) =
     (if compact_exponent c \<le> 3 then compact_word c
      else compact_word c * 256 ^ (compact_exponent c - 3) mod 2 ^ 256) \<and>
   (fst (snd (SetCompact c)) \<longleftrightarrow> compact_word c \<noteq> 0 \<and> bit c 23) \<and>
   (snd (snd (SetCompact c)) \<longleftrightarrow>
     compact_exponent c > 3 \<and> 2 ^ 256 \<le> compact_word c * 256 ^ (compact_exponent c - 3))"
  by (intro conjI SetCompact_value SetCompact_negative SetCompact_overflow)

text \<open>
  C4: encoding a number with \<open>GetCompact\<close> trips no assertion and gives its compact form: the exponent is the number of bytes the number takes
  with a sign bit, and the mantissa its leading three bytes. Decoding the result raises no flag and gives the number back with
  the bytes below the mantissa cleared.
\<close>

theorem compact_roundtrip:
  assumes "wf_uint a"
  shows "GetCompact a False = Some (word_of_nat (compact_of (uval a))) \<and>
    (\<exists>a'. SetCompact (word_of_nat (compact_of (uval a))) = (a', False, False) \<and>
      uval a' = uval a - uval a mod 256 ^ (compact_size (uval a) - 3))"
proof -
  obtain c a' where c: "GetCompact a False = Some c" "SetCompact c = (a', False, False)"
    "uval a' = uval a - uval a mod 256 ^ (compact_exponent c - 3)"
    using SetCompact_GetCompact [OF assms] by blast
  have "c = word_of_nat (compact_of (uval a))" using c(1) GetCompact_value(1) [OF assms] by simp
  with c GetCompact_value(2) [OF assms] show ?thesis by (simp only:) blast
qed

theorem compact_roundtrip_witness:
  "GetCompact (base_uint_of_u64 0x92340000) False = Some 0x05009234 \<and>
   (\<exists>a'. SetCompact 0x05009234 = (a', False, False) \<and> uval a' = 0x92340000)"
proof -
  have "bit_length 0x92340000 = 32" using bit_length_eq [of 31 "0x92340000"] by simp
  then have "compact_of 0x92340000 = 0x05009234" "compact_size 0x92340000 = 5" by (simp_all add: compact_of_def compact_size_def)
  then show ?thesis using compact_roundtrip [OF wf_of_u64 [of "0x92340000"]] by (simp add: uval_of_u64)
qed

end
