(* ===== verification/Hasher.thy ===== *)
theory Hasher
  imports Bytes
begin

text \<open>
  The buffered streaming layer shared by \<^verbatim>\<open>CSHA256\<close>, \<^verbatim>\<open>CSHA1\<close>, \<^verbatim>\<open>CSHA512\<close> and \<^verbatim>\<open>CRIPEMD160\<close>: a
  chaining value, the number of bytes written so far, and a buffer of one block. The four
  \<open>Write\<close> methods are the same code over their own block size and \<open>Transform\<close>. The locale states
  what a client of such a hasher may rely on: the state after any sequence of writes depends only
  on the concatenation of what was written.
\<close>

section \<open>State and operations\<close>

record 's hasher =
  hs :: 's
  hbuf :: bytes
  hbytes :: u64

definition memcpy_at :: "'a list \<Rightarrow> nat \<Rightarrow> 'a list \<Rightarrow> 'a list" where
  "memcpy_at buf off src = take off buf @ src @ drop (off + length src) buf"

text \<open>The loop over full blocks of the source; it returns what is left of \<open>data\<close>.\<close>

function write_blocks ::
    "nat \<Rightarrow> ('s \<Rightarrow> bytes \<Rightarrow> 's) \<Rightarrow> 's hasher \<Rightarrow> bytes \<Rightarrow> 's hasher \<times> bytes" where
  "write_blocks B T h data =
     (if 0 < B \<and> B \<le> length data
      then write_blocks B T (h\<lparr>hs := T (hs h) (take B data), hbytes := hbytes h + word_of_nat B\<rparr>) (drop B data)
      else (h, data))"
  by pat_completeness auto
termination
  by (relation "measure (\<lambda>(B, T, h, data). length data)") auto

declare write_blocks.simps [simp del]

definition hasher_Write :: "nat \<Rightarrow> ('s \<Rightarrow> bytes \<Rightarrow> 's) \<Rightarrow> 's hasher \<Rightarrow> bytes \<Rightarrow> 's hasher" where
  "hasher_Write B T h data =
     (let bufsize = unat (hbytes h) mod B;
          (h, data, bufsize) =
            (if bufsize \<noteq> 0 \<and> bufsize + length data \<ge> B
             then let buf = memcpy_at (hbuf h) bufsize (take (B - bufsize) data)
                  in (h\<lparr>hbuf := buf, hs := T (hs h) buf, hbytes := hbytes h + word_of_nat (B - bufsize)\<rparr>,
                      drop (B - bufsize) data, 0)
             else (h, data, bufsize));
          (h, data) = write_blocks B T h data
      in if data \<noteq> []
         then h\<lparr>hbuf := memcpy_at (hbuf h) bufsize data, hbytes := hbytes h + word_of_nat (length data)\<rparr>
         else h)"

section \<open>Specification\<close>

text \<open>Absorbing the full blocks of a message, and the bytes that remain.\<close>

function absorb :: "nat \<Rightarrow> ('s \<Rightarrow> bytes \<Rightarrow> 's) \<Rightarrow> 's \<Rightarrow> bytes \<Rightarrow> 's" where
  "absorb B T s m = (if 0 < B \<and> B \<le> length m then absorb B T (T s (take B m)) (drop B m) else s)"
  by pat_completeness auto
termination
  by (relation "measure (\<lambda>(B, T, s, m). length m)") auto

declare absorb.simps [simp del]

definition pending :: "nat \<Rightarrow> bytes \<Rightarrow> bytes" where
  "pending B m = drop (length m div B * B) m"

definition hasher_rep :: "nat \<Rightarrow> ('s \<Rightarrow> bytes \<Rightarrow> 's) \<Rightarrow> 's \<Rightarrow> 's hasher \<Rightarrow> bytes \<Rightarrow> bool" where
  "hasher_rep B T init h m \<longleftrightarrow>
     hs h = absorb B T init m \<and> length (hbuf h) = B \<and>
     hbytes h = word_of_nat (length m) \<and> take (length m mod B) (hbuf h) = pending B m"

lemma absorb_step: "0 < B \<Longrightarrow> B \<le> length m \<Longrightarrow> absorb B T s m = absorb B T (T s (take B m)) (drop B m)"
  by (simp add: absorb.simps [of B T s m])

lemma absorb_short: "length m < B \<Longrightarrow> absorb B T s m = s"
  by (simp add: absorb.simps)

text \<open>Two compression functions that agree on the states that occur absorb alike.\<close>

lemma absorb_cong:
  assumes "\<And>s c. P s \<Longrightarrow> T s c = T' s c" and "\<And>s c. P s \<Longrightarrow> P (T s c)"
  shows "P s \<Longrightarrow> absorb B T s m = absorb B T' s m \<and> P (absorb B T s m)"
proof (induction m arbitrary: s rule: length_induct)
  case (1 m)
  have "absorb B T (T s (take B m)) (drop B m) = absorb B T' (T s (take B m)) (drop B m) \<and>
      P (absorb B T (T s (take B m)) (drop B m))" if "0 < B" "B \<le> length m"
  proof -
    have "length (drop B m) < length m" using that by simp
    with "1.IH" assms(2) [OF "1.prems"] show ?thesis by blast
  qed
  then show ?case
    unfolding absorb.simps [of B T s m] absorb.simps [of B T' s m]
    using assms(1) [OF "1.prems", of "take B m"] "1.prems" by auto
qed

lemma absorb_append:
  "0 < B \<Longrightarrow> B dvd length m \<Longrightarrow> absorb B T s (m @ d) = absorb B T (absorb B T s m) d"
proof (induction B T s m rule: absorb.induct)
  case (1 B T s m)
  show ?case
  proof (cases "B \<le> length m")
    case True
    then have "absorb B T s (m @ d) = absorb B T (T s (take B m)) (drop B m @ d)"
      using "1.prems" by (simp add: absorb_step)
    also have "\<dots> = absorb B T (absorb B T (T s (take B m)) (drop B m)) d"
      using True "1.prems" by (intro "1.IH") simp_all
    finally show ?thesis using True "1.prems" by (simp add: absorb_step [of B m])
  next
    case False
    then have "m = []" using "1.prems" by (cases "m = []") (auto dest: dvd_imp_le)
    then show ?thesis using "1.prems" by (simp add: absorb_short)
  qed
qed

lemma absorb_split: "0 < B \<Longrightarrow> absorb B T s m = absorb B T s (take (length m div B * B) m)"
proof -
  assume B: "0 < B"
  let ?n = "length m div B * B"
  have "absorb B T s (take ?n m @ drop ?n m) = absorb B T (absorb B T s (take ?n m)) (drop ?n m)"
    using B by (intro absorb_append) simp_all
  also have "length (drop ?n m) < B"
    using B by (simp add: minus_div_mult_eq_mod)
  then have "absorb B T (absorb B T s (take ?n m)) (drop ?n m) = absorb B T s (take ?n m)"
    by (rule absorb_short)
  finally show ?thesis by simp
qed

lemma write_blocks_absorb:
  "0 < B \<Longrightarrow> write_blocks B T h data =
     (h\<lparr>hs := absorb B T (hs h) data, hbytes := hbytes h + word_of_nat (length data div B * B)\<rparr>, pending B data)"
proof (induction B T h data rule: write_blocks.induct)
  case (1 B T h data)
  show ?case
  proof (cases "B \<le> length data")
    case True
    then obtain n where n: "length data div B = Suc n"
      using 1 by (metis div_greater_zero_iff gr0_conv_Suc)
    have d: "(length data - B) div B = n"
      using n True "1.prems" by (simp add: le_div_geq)
    show ?thesis
      using 1 True
      by (simp add: write_blocks.simps [of B T h data] absorb_step pending_def d n add.assoc add.commute [of "n * B" B])
  next
    case False
    then show ?thesis by (simp add: write_blocks.simps absorb_short pending_def)
  qed
qed

lemma length_pending [simp]: "length (pending B m) = length m mod B"
  by (simp add: pending_def minus_div_mult_eq_mod)

lemma pending_append: "0 < B \<Longrightarrow> B dvd length m \<Longrightarrow> pending B (m @ d) = pending B d"
  by (auto simp: pending_def add_mult_distrib mult.commute [of B] elim!: dvdE)

lemma pending_split: "take (length m div B * B) m @ pending B m = m"
  by (simp add: pending_def)

lemma pending_dvd: "0 < B \<Longrightarrow> B dvd length m \<Longrightarrow> pending B m = []"
  by (simp add: pending_def)

text \<open>One more byte: it is kept, or it completes a block.\<close>

lemma absorb_snoc:
  assumes "0 < B" and "Suc (length m mod B) < B"
  shows "absorb B T s (m @ [b]) = absorb B T s m" and "pending B (m @ [b]) = pending B m @ [b]"
proof -
  have "length m + 1 = length m div B * B + (length m mod B + 1)" by simp
  then have d: "length (m @ [b]) div B = length m div B"
    using div_mod_unique(1) [of "length m mod B + 1" B "length m div B"] assms(2) by simp
  then show "pending B (m @ [b]) = pending B m @ [b]" by (simp add: pending_def)
  have "take (length (m @ [b]) div B * B) (m @ [b]) = take (length m div B * B) m" unfolding d by simp
  then show "absorb B T s (m @ [b]) = absorb B T s m"
    using absorb_split [OF assms(1), of T s m] absorb_split [OF assms(1), of T s "m @ [b]"] by simp
qed

lemma absorb_snoc_full:
  assumes "0 < B" and "Suc (length m mod B) = B"
  shows "absorb B T s (m @ [b]) = T (absorb B T s m) (pending B m @ [b])" and "pending B (m @ [b]) = []"
proof -
  let ?n = "length m div B * B"
  have "absorb B T s (take ?n m @ pending B m @ [b]) = absorb B T (absorb B T s (take ?n m)) (pending B m @ [b])"
    by (rule absorb_append) (use assms(1) in simp_all)
  also have "\<dots> = T (absorb B T s m) (pending B m @ [b])"
    using absorb_split [OF assms(1), of T s m] assms by (simp add: absorb_step absorb_short)
  finally show "absorb B T s (m @ [b]) = T (absorb B T s m) (pending B m @ [b])"
    using pending_split [of m B] by (metis append.assoc)
  have "length (m @ [b]) = length m div B * B + Suc (length m mod B)" by simp
  then have "length (m @ [b]) = length m div B * B + B" by (simp only: assms(2))
  then have "B dvd length (m @ [b])" by simp
  then show "pending B (m @ [b]) = []" by (rule pending_dvd [OF assms(1)])
qed

lemma length_memcpy_at: "off + length src \<le> length buf \<Longrightarrow> length (memcpy_at buf off src) = length buf"
  by (simp add: memcpy_at_def)

text \<open>
  The tail of \<open>Write\<close>: from a state whose message is a whole number of blocks, the loop and the
  final copy represent the longer message.
\<close>

lemma write_tail_rep:
  assumes B: "0 < B" and m: "B dvd length m" and h: "hs h = absorb B T init m" "length (hbuf h) = B"
    "hbytes h = word_of_nat (length m)"
    and w: "write_blocks B T h d = (h', d')"
  shows "hasher_rep B T init
    (if d' \<noteq> [] then h'\<lparr>hbuf := memcpy_at (hbuf h') 0 d', hbytes := hbytes h' + word_of_nat (length d')\<rparr> else h') (m @ d)"
proof -
  have w': "d' = pending B d" "hs h' = absorb B T init (m @ d)" "hbuf h' = hbuf h"
    "hbytes h' = word_of_nat (length m) + word_of_nat (length d div B * B)"
    using w by (auto simp: write_blocks_absorb [OF B] h absorb_append [OF B m])
  have l: "length d div B * B + length (pending B d) = length d"
    by simp
  have bytes: "hbytes h' + word_of_nat (length d') = word_of_nat (length (m @ d))"
    unfolding w' by (simp only: of_nat_add [symmetric] l length_append add.assoc)
  have mm: "length (m @ d) mod B = length d mod B" using m by (auto elim!: dvdE)
  have p: "pending B (m @ d) = pending B d" by (rule pending_append [OF B m])
  have lt: "length (pending B d) < B" using B by simp
  show ?thesis
  proof (cases "d' = []")
    case True
    then have "length d mod B = 0" using w'(1) by (metis length_pending list.size(3))
    with True show ?thesis using bytes w' h mm p by (simp add: hasher_rep_def)
  next
    case False
    then show ?thesis
      using bytes w' h mm p lt by (simp add: hasher_rep_def memcpy_at_def)
  qed
qed

lemma hasher_Write_rep:
  assumes B: "0 < B" "B dvd 2 ^ 64" and rep: "hasher_rep B T init h m"
  shows "hasher_rep B T init (hasher_Write B T h d) (m @ d)"
proof -
  let ?r = "length m mod B" and ?full = "take (length m div B * B) m"
  have r: "unat (hbytes h) mod B = ?r"
  proof -
    have "unat (hbytes h) = length m mod 2 ^ 64"
      using rep by (simp add: hasher_rep_def unsigned_of_nat take_bit_eq_mod)
    then show ?thesis using B(2) by (simp only: mod_mod_cancel)
  qed
  have hs: "hs h = absorb B T init ?full" "length (hbuf h) = B" "take ?r (hbuf h) = pending B m"
    "hbytes h = word_of_nat (length m)"
    using rep absorb_split [OF B(1), of T init m] by (simp_all add: hasher_rep_def)
  have m: "?full @ pending B m = m" by (rule pending_split)
  consider (fill) "?r \<noteq> 0" "?r + length d \<ge> B" | (aligned) "?r = 0" | (short) "?r \<noteq> 0" "?r + length d < B"
    by linarith
  then show ?thesis
  proof cases
    case fill
    let ?k = "B - ?r" and ?buf = "memcpy_at (hbuf h) ?r (take (B - ?r) d)"
    let ?h = "h\<lparr>hbuf := ?buf, hs := T (hs h) ?buf, hbytes := hbytes h + word_of_nat ?k\<rparr>"
    have rB: "?r < B" using B by simp
    have k: "length (take ?k d) = ?k" using fill by simp
    have buf: "?buf = pending B m @ take ?k d"
      using k rB hs by (simp add: memcpy_at_def)
    have lbuf: "length ?buf = B" unfolding buf using k rB by simp
    have m1: "?full @ ?buf = m @ take ?k d" unfolding buf using m by (metis append.assoc)
    have "absorb B T init (?full @ ?buf) = absorb B T (absorb B T init ?full) ?buf"
      using B by (intro absorb_append) simp_all
    then have hs1: "hs ?h = absorb B T init (m @ take ?k d)"
      using B lbuf hs m1 by (simp add: absorb_step absorb_short)
    have dvd: "B dvd length (m @ take ?k d)"
      unfolding m1 [symmetric] using lbuf by simp
    obtain h' d' where w: "write_blocks B T ?h (drop ?k d) = (h', d')" by fastforce
    have "hbytes ?h = word_of_nat (length (m @ take ?k d))" using hs k by simp
    from write_tail_rep [OF B(1) dvd hs1 _ this w]
    have "hasher_rep B T init
      (if d' \<noteq> [] then h'\<lparr>hbuf := memcpy_at (hbuf h') 0 d', hbytes := hbytes h' + word_of_nat (length d')\<rparr> else h') (m @ d)"
      using lbuf by simp
    then show ?thesis using fill w by (simp add: hasher_Write_def r Let_def)
  next
    case aligned
    obtain h' d' where w: "write_blocks B T h d = (h', d')" by fastforce
    have "B dvd length m" using aligned by auto
    have "hs h = absorb B T init m" using rep by (simp add: hasher_rep_def)
    from write_tail_rep [OF B(1) \<open>B dvd length m\<close> this hs(2) hs(4) w] show ?thesis
      using aligned w by (simp add: hasher_Write_def r Let_def)
  next
    case short
    then have d: "length d < B" by simp
    then have w: "write_blocks B T h d = (h, d)" by (subst write_blocks.simps) simp
    have mm: "length (m @ d) mod B = ?r + length d"
      using short(2) mod_add_left_eq [of "length m" B "length d"] by simp
    have "length m + length d = length m div B * B + (?r + length d)" by simp
    then have "length (m @ d) div B = length m div B"
      using div_mod_unique(1) [OF short(2), of "length m div B"] by (simp only: length_append)
    then have p: "pending B (m @ d) = pending B m @ d" and f: "take (length (m @ d) div B * B) (m @ d) = ?full"
      by (simp_all add: pending_def)
    have "hs h = absorb B T init (m @ d)"
      using absorb_split [OF B(1), of T init "m @ d"] f hs(1) by simp
    moreover have "hasher_Write B T h d = (if d = [] then h else
      h\<lparr>hbuf := memcpy_at (hbuf h) ?r d, hbytes := hbytes h + word_of_nat (length d)\<rparr>)"
      using short w by (simp add: hasher_Write_def r)
    ultimately show ?thesis
      using short(2) hs mm p
      by (cases "d = []") (simp_all add: hasher_rep_def memcpy_at_def)
  qed
qed

lemma take_pad: "0 < B \<Longrightarrow> take (1 + k mod B) (x # replicate (B - 1) y) = x # replicate (k mod B) y"
  using mod_less_divisor [of B k] by (simp add: min_def Suc_le_eq less_Suc_eq_le [symmetric] del: mod_less_divisor)

section \<open>The interface\<close>

text \<open>
  \<open>B\<close> is the block size, \<open>T\<close> the compression function, \<open>init\<close> the initial chaining value and \<open>L\<close> the
  size of the length field that \<open>Finalize\<close> appends.
\<close>

locale block_hash =
  fixes B :: nat and T :: "'s \<Rightarrow> bytes \<Rightarrow> 's" and init :: 's and L :: nat
  assumes block_pos: "0 < B" and block_dvd: "B dvd 2 ^ 64" and field_fits: "L < B"
begin

lemma rep_init: "length buf = B \<Longrightarrow> hasher_rep B T init \<lparr>hs = init, hbuf = buf, hbytes = 0\<rparr> []"
  using block_pos by (simp add: hasher_rep_def pending_def absorb_short)

lemma rep_Write: "hasher_rep B T init h m \<Longrightarrow> hasher_rep B T init (hasher_Write B T h d) (m @ d)"
  by (rule hasher_Write_rep [OF block_pos block_dvd])

lemma rep_Writes:
  "hasher_rep B T init h m \<Longrightarrow> hasher_rep B T init (foldl (hasher_Write B T) h ds) (m @ concat ds)"
proof (induction ds arbitrary: h m)
  case (Cons d ds)
  from Cons.IH [OF rep_Write [OF Cons.prems, of d]] show ?case by simp
qed simp

lemma Writes_buffer:
  "hasher_rep B T init h m \<Longrightarrow> length (hbuf (hasher_Write B T (hasher_Write B T h d) d')) = B"
  using rep_Write [OF rep_Write, of h m d d'] by (simp add: hasher_rep_def)

lemma rep_bytes_mod: "hasher_rep B T init h m \<Longrightarrow> unat (hbytes h) mod B = length m mod B"
  using block_dvd by (simp add: hasher_rep_def unsigned_of_nat take_bit_eq_mod mod_mod_cancel)

lemma pad_fills:
  assumes "length sz = L"
  shows "B dvd length (m @ 128 # replicate ((2 * B - 1 - L - length m mod B) mod B) 0 @ sz)"
proof -
  let ?r = "length m mod B"
  let ?q = "2 * B - 1 - L - ?r"
  have r: "?r < B" using block_pos by simp
  have "?r + 1 + ?q + L = 2 * B" using r field_fits by linarith
  then have "(?r + 1 + ?q + L) mod B = 0" by simp
  then have "(length m + 1 + ?q mod B + L) mod B = 0"
    by (metis (no_types, lifting) add.assoc add.commute mod_add_left_eq)
  then show ?thesis using assms by (simp add: mod_eq_0_iff_dvd add.assoc)
qed

lemma rep_padded:
  assumes "hasher_rep B T init h m" and "length sz = L" and "pad = 128 # replicate ((2 * B - 1 - L - length m mod B) mod B) 0"
  shows "hs (hasher_Write B T (hasher_Write B T h pad) sz) = absorb B T init (m @ pad @ sz)"
  using rep_Write [OF rep_Write [OF assms(1), of pad], of sz] by (simp add: hasher_rep_def)

end

end
