(* ===== verification/Rounds.thy ===== *)
theory Rounds
  imports Hasher
begin

text \<open>
  Facts about unrolled hash rounds. The transforms of \<^verbatim>\<open>src/crypto\<close> never move a register: each
  round passes the same variables in an argument list rotated by one place, and the message words
  live in a window of sixteen variables that is overwritten in turn. The relations here connect this
  with the textbook form, where registers shift and the schedule is a growing list.
\<close>

section \<open>Rotating registers\<close>

text \<open>The variable that plays role \<open>j\<close> of \<open>m\<close> in round \<open>i\<close>.\<close>

definition place :: "nat \<Rightarrow> nat \<Rightarrow> nat \<Rightarrow> nat" where
  "place m i j = (j + (m - 1) * i) mod m"

definition holds :: "nat \<Rightarrow> nat \<Rightarrow> 'a list \<Rightarrow> 'a list \<Rightarrow> bool" where
  "holds m i v A \<longleftrightarrow> length v = m \<and> length A = m \<and> (\<forall>j < m. v ! place m i j = A ! j)"

lemma place_less [simp]: "0 < m \<Longrightarrow> place m i j < m"
  by (simp add: place_def)

lemma place_Suc:
  assumes "0 < m"
  shows "place m (Suc i) 0 = place m i (m - 1)" and "place m (Suc i) (Suc j) = place m i j"
proof -
  have "Suc j + (m - 1) * Suc i = j + (m - 1) * i + m" using assms by (cases m) simp_all
  then show "place m (Suc i) (Suc j) = place m i j" by (simp only: place_def mod_add_self2)
qed (simp add: place_def)

lemma place_inj:
  assumes "j < m" and "k < m"
  shows "place m i j = place m i k \<longleftrightarrow> j = k"
proof
  assume "place m i j = place m i k"
  then have "((m - 1) * i + j) mod m = ((m - 1) * i + k) mod m" by (simp add: place_def add.commute)
  then have "int m dvd int j - int k"
    by (metis mod_eq_dvd_iff of_nat_mod of_nat_add add_diff_cancel_left)
  then show "j = k" using assms zdvd_not_zless [of "int j - int k" "int m"] zdvd_not_zless [of "int k - int j" "int m"]
    by (cases j k rule: linorder_cases) (auto simp: dvd_diff_commute)
qed simp

lemma holds_0: "holds m 0 v A \<longleftrightarrow> v = A \<and> length v = m"
  by (auto simp: holds_def place_def intro: nth_equalityI)

lemma holds_full: "holds m n v A \<Longrightarrow> m dvd n \<Longrightarrow> v = A"
proof (rule nth_equalityI)
  assume h: "holds m n v A" and "m dvd n"
  then obtain k where n: "n = m * k" by (auto elim: dvdE)
  then have "(m - 1) * n = m * ((m - 1) * k)" by simp
  then have "place m n j = j" if "j < m" for j using that unfolding place_def by (simp only: mod_mult_self2 mod_less)
  then show "v ! j = A ! j" if "j < length v" for j using h that by (metis holds_def)
qed (simp add: holds_def)

lemma holds_read: "holds m i v A \<Longrightarrow> map ((!) v) (map (place m i) [0..<m]) = A"
  by (intro nth_equalityI) (simp_all add: holds_def)

lemma holds_update: "holds m i v A \<Longrightarrow> j < m \<Longrightarrow> holds m i (v[place m i j := x]) (A[j := x])"
  by (auto simp: holds_def nth_list_update place_inj)

lemma holds_rotate:
  assumes h: "holds m i v A" and "0 < m"
  shows "holds m (Suc i) v (last A # butlast A)"
  unfolding holds_def
proof (intro conjI allI impI)
  have A: "A \<noteq> []" "length A = m" using assms by (auto simp: holds_def)
  then show "length (last A # butlast A) = m" using assms(2) by simp
  fix j assume j: "j < m"
  show "v ! place m (Suc i) j = (last A # butlast A) ! j"
  proof (cases j)
    case 0
    then show ?thesis using assms A by (simp add: place_Suc last_conv_nth holds_def)
  next
    case (Suc k)
    then show ?thesis using assms A j by (simp add: place_Suc nth_butlast holds_def)
  qed
qed (use h in \<open>simp add: holds_def\<close>)

section \<open>The window of message words\<close>

text \<open>Before round \<open>i\<close> the window holds the last sixteen words of the schedule, up to word \<open>n\<close>.\<close>

definition window :: "nat \<Rightarrow> 'a list \<Rightarrow> nat \<Rightarrow> 'a list \<Rightarrow> bool" where
  "window n W i w \<longleftrightarrow> length w = 16 \<and> (\<forall>t < i. i \<le> t + 16 \<and> t < n \<longrightarrow> w ! (t mod 16) = W ! t)"

lemma window_0: "window n W 0 w \<longleftrightarrow> length w = 16"
  by (simp add: window_def)

lemma window_update:
  assumes "window n W i w"
  shows "window n W (Suc i) (w[i mod 16 := W ! i])"
  unfolding window_def
proof (intro conjI allI impI)
  show "length (w[i mod 16 := W ! i]) = 16" using assms by (simp add: window_def)
  fix t assume t: "t < Suc i" "Suc i \<le> t + 16 \<and> t < n"
  show "w[i mod 16 := W ! i] ! (t mod 16) = W ! t"
  proof (cases "t = i")
    case True
    then show ?thesis using assms by (simp add: window_def)
  next
    case False
    then have "\<not> 16 dvd i - t" using t by (auto dest: dvd_imp_le)
    then have "i mod 16 \<noteq> t mod 16" using t by (simp add: mod_eq_dvd_iff_nat)
    then show ?thesis using assms t False by (simp add: window_def)
  qed
qed

lemma window_keep: "window n W i w \<Longrightarrow> n \<le> i \<Longrightarrow> window n W (Suc i) w"
  by (auto simp: window_def less_Suc_eq)

lemma window_nth:
  assumes "window n W i w" and "16 \<le> i" and "0 < k" "k \<le> 16" "i - k < n"
  shows "w ! ((i + (16 - k)) mod 16) = W ! (i - k)"
proof -
  have "i + (16 - k) = i - k + 16" using assms by linarith
  then have "(i + (16 - k)) mod 16 = (i - k) mod 16" by (simp only: mod_add_self2)
  moreover have "w ! ((i - k) mod 16) = W ! (i - k)"
    using assms by (simp add: window_def)
  ultimately show ?thesis by (simp only:)
qed

section \<open>Rotations by shifts\<close>

lemma rotr_shifts:
  fixes x :: "'a::len word"
  assumes "0 < n" and "n < LENGTH('a)"
  shows "drop_bit n x OR push_bit (LENGTH('a) - n) x = word_rotr n x"
proof (rule bit_word_eqI)
  fix i assume i: "i < LENGTH('a)"
  show "bit (drop_bit n x OR push_bit (LENGTH('a) - n) x) i = bit (word_rotr n x) i"
  proof (cases "i + n < LENGTH('a)")
    case True
    then have "\<not> LENGTH('a) - n \<le> i" by linarith
    then show ?thesis using True i assms by (simp add: bit_simps add.commute)
  next
    case False
    then have "(i + n) mod LENGTH('a) = i + n - LENGTH('a)"
      using i assms by (simp add: mod_if)
    then show ?thesis using i assms False
      by (auto simp: bit_simps add.commute dest: bit_imp_le_length)
  qed
qed

lemma rotl_shifts:
  fixes x :: "'a::len word"
  assumes "0 < n" and "n < LENGTH('a)"
  shows "push_bit n x OR drop_bit (LENGTH('a) - n) x = word_rotl n x"
proof -
  have "push_bit n x OR drop_bit (LENGTH('a) - n) x = word_rotr (LENGTH('a) - n) x"
    using rotr_shifts [of "LENGTH('a) - n" x] assms by (simp add: or.commute)
  also have "\<dots> = word_rotl n x"
    using assms by (simp add: word_rotl_eq_word_rotr)
  finally show ?thesis .
qed

lemma rotl32_shifts: "0 < n \<Longrightarrow> n < 32 \<Longrightarrow> word_rotl n (x :: u32) = push_bit n x OR drop_bit (32 - n) x"
  using rotl_shifts [of n x] by simp

lemma size_word: "push_bit 3 (word_of_nat n :: u64) = word_of_nat (8 * n)"
  by (simp add: push_bit_eq_mult mult.commute)

end
