(* ===== verification/Sha2.thy ===== *)
theory Sha2
  imports Rounds
begin

text \<open>
  The machinery shared by the unrolled \<open>Transform\<close> of \<^verbatim>\<open>src/crypto/sha256.cpp\<close> and of
  \<^verbatim>\<open>src/crypto/sha512.cpp\<close>. The source writes the rounds as straight-line calls \<open>Round(a, \<dots>, h, k, w)\<close>
  that permute the eight registers in their argument list and keep a window of sixteen message
  words. A call is a value here (which register stands in which place, the round constant, and the
  expression for the message word), and \<open>Transform\<close> runs a list of them. The reference definition is
  the one of FIPS 180-4: a message schedule and registers that shift by one place per round.
\<close>

section \<open>The calls of an unrolled transform\<close>

text \<open>
  \<open>Load i off\<close> is \<open>w\<^sub>i = ReadBE(chunk + off)\<close>, \<open>Upd i j k l\<close> is
  \<open>w\<^sub>i += sigma1(w\<^sub>j) + w\<^sub>k + sigma0(w\<^sub>l)\<close>, and \<open>Tmp\<close> is the same sum without the assignment.
\<close>

datatype wexp = Load nat nat | Upd nat nat nat nat | Tmp nat nat nat nat

type_synonym 'a round_call = "nat list \<times> 'a word \<times> wexp"

definition eval_wexp ::
    "('a::len word \<Rightarrow> 'a word) \<Rightarrow> ('a word \<Rightarrow> 'a word) \<Rightarrow> (bytes \<Rightarrow> 'a word) \<Rightarrow> bytes \<Rightarrow> 'a word list \<Rightarrow> wexp \<Rightarrow>
     'a word \<times> 'a word list" where
  "eval_wexp sg0 sg1 rd chunk w e =
     (case e of
        Load i off \<Rightarrow> let x = rd (drop off chunk) in (x, w[i := x])
      | Upd i j k l \<Rightarrow> let x = w ! i + (sg1 (w ! j) + w ! k + sg0 (w ! l)) in (x, w[i := x])
      | Tmp i j k l \<Rightarrow> (w ! i + sg1 (w ! j) + w ! k + sg0 (w ! l), w))"

text \<open>A round function takes the eight registers in order, the constant and the word, and returns the
  new values of the two that the call passes by reference, the fourth and the eighth.\<close>

type_synonym 'a round_fun = "'a word list \<Rightarrow> 'a word \<Rightarrow> 'a word \<Rightarrow> 'a word \<times> 'a word"

definition exec_call ::
    "'a::len round_fun \<Rightarrow> ('a word \<Rightarrow> 'a word) \<Rightarrow> ('a word \<Rightarrow> 'a word) \<Rightarrow> (bytes \<Rightarrow> 'a word) \<Rightarrow> bytes \<Rightarrow>
     'a word list \<times> 'a word list \<Rightarrow> 'a round_call \<Rightarrow> 'a word list \<times> 'a word list" where
  "exec_call rnd sg0 sg1 rd chunk st c =
     (let (v, w) = st;
          (regs, k, e) = c;
          (x, w) = eval_wexp sg0 sg1 rd chunk w e;
          (d, h) = rnd (map ((!) v) regs) k x
      in (v[regs ! 3 := d, regs ! 7 := h], w))"

definition run_calls ::
    "'a::len round_fun \<Rightarrow> ('a word \<Rightarrow> 'a word) \<Rightarrow> ('a word \<Rightarrow> 'a word) \<Rightarrow> (bytes \<Rightarrow> 'a word) \<Rightarrow> 'a round_call list \<Rightarrow>
     'a word list \<Rightarrow> bytes \<Rightarrow> 'a word list" where
  "run_calls rnd sg0 sg1 rd calls s chunk =
     (let (v, w) = foldl (exec_call rnd sg0 sg1 rd chunk) (s, replicate 16 0) calls
      in map2 (+) s v)"

section \<open>FIPS 180-4\<close>

primrec schedule ::
    "('a::len word \<Rightarrow> 'a word) \<Rightarrow> ('a word \<Rightarrow> 'a word) \<Rightarrow> (bytes \<Rightarrow> 'a word) \<Rightarrow> nat \<Rightarrow> bytes \<Rightarrow> nat \<Rightarrow> 'a word list" where
  "schedule sg0 sg1 rd b chunk 0 = []"
| "schedule sg0 sg1 rd b chunk (Suc t) =
     (let W = schedule sg0 sg1 rd b chunk t
      in W @ [if t < 16 then rd (drop (b * t) chunk)
              else sg1 (W ! (t - 2)) + W ! (t - 7) + sg0 (W ! (t - 15)) + W ! (t - 16)])"

definition shift_round :: "'a::len round_fun \<Rightarrow> 'a word list \<Rightarrow> 'a word \<Rightarrow> 'a word \<Rightarrow> 'a word list" where
  "shift_round rnd A k x =
     (let (d, h) = rnd A k x in [h, A ! 0, A ! 1, A ! 2, d, A ! 4, A ! 5, A ! 6])"

primrec rounds :: "'a::len round_fun \<Rightarrow> (nat \<Rightarrow> 'a word) \<Rightarrow> (nat \<Rightarrow> 'a word) \<Rightarrow> 'a word list \<Rightarrow> nat \<Rightarrow> 'a word list" where
  "rounds rnd K W A 0 = A"
| "rounds rnd K W A (Suc t) = shift_round rnd (rounds rnd K W A t) (K t) (W t)"

definition compress ::
    "'a::len round_fun \<Rightarrow> ('a word \<Rightarrow> 'a word) \<Rightarrow> ('a word \<Rightarrow> 'a word) \<Rightarrow> (bytes \<Rightarrow> 'a word) \<Rightarrow> nat \<Rightarrow> 'a word list \<Rightarrow>
     'a word list \<Rightarrow> bytes \<Rightarrow> 'a word list" where
  "compress rnd sg0 sg1 rd b K s chunk =
     (let W = schedule sg0 sg1 rd b chunk (length K)
      in map2 (+) s (rounds rnd ((!) K) ((!) W) s (length K)))"

text \<open>
  The round constants are the leading bits of the fractional parts of the cube roots of the first
  primes.
\<close>

fun icbrt :: "nat \<Rightarrow> nat" where
  "icbrt n = (if n = 0 then 0 else let r = 2 * icbrt (n div 8) in if (r + 1) ^ 3 \<le> n then r + 1 else r)"

declare icbrt.simps [simp del]

definition sha_primes :: "nat list" where
  "sha_primes =
    [2, 3, 5, 7, 11, 13, 17, 19, 23, 29, 31, 37, 41, 43, 47, 53,
     59, 61, 67, 71, 73, 79, 83, 89, 97, 101, 103, 107, 109, 113, 127, 131,
     137, 139, 149, 151, 157, 163, 167, 173, 179, 181, 191, 193, 197, 199, 211, 223,
     227, 229, 233, 239, 241, 251, 257, 263, 269, 271, 277, 281, 283, 293, 307, 311,
     313, 317, 331, 337, 347, 349, 353, 359, 367, 373, 379, 383, 389, 397, 401, 409]"

definition cbrt_frac :: "nat \<Rightarrow> nat \<Rightarrow> 'a::len word" where
  "cbrt_frac w p = word_of_nat (icbrt (p * 2 ^ (3 * w)))"

section \<open>The simulation\<close>

definition canonical_wexp :: "nat \<Rightarrow> nat \<Rightarrow> nat \<Rightarrow> wexp" where
  "canonical_wexp b n i =
     (if i < 16 then Load i (b * i)
      else if i < n - 2 then Upd (i mod 16) ((i + 14) mod 16) ((i + 9) mod 16) ((i + 1) mod 16)
      else Tmp (i mod 16) ((i + 14) mod 16) ((i + 9) mod 16) ((i + 1) mod 16))"

definition call_shape :: "nat \<Rightarrow> nat \<Rightarrow> nat \<Rightarrow> nat list \<times> wexp" where
  "call_shape b n i = (map (place 8 i) [0..<8], canonical_wexp b n i)"

lemma icbrt_bounds: "icbrt n ^ 3 \<le> n \<and> n < (icbrt n + 1) ^ 3"
proof (induction n rule: icbrt.induct)
  case (1 n)
  show ?case
  proof (cases "n = 0")
    case False
    let ?q = "icbrt (n div 8)"
    have IH: "?q ^ 3 \<le> n div 8" "n div 8 < (?q + 1) ^ 3" using 1 False by simp_all
    have "(2 * ?q) ^ 3 = 8 * ?q ^ 3" by (simp add: power3_eq_cube)
    then have lo: "(2 * ?q) ^ 3 \<le> n" using IH(1) by simp
    have "(2 * ?q + 2) ^ 3 = 8 * (?q + 1) ^ 3" by (simp add: power3_eq_cube algebra_simps)
    then have hi: "n < (2 * ?q + 2) ^ 3" using IH(2) by simp
    show ?thesis using False lo hi by (simp add: icbrt.simps [of n] Let_def)
  qed (simp add: icbrt.simps)
qed

lemma icbrt_unique: "c ^ 3 \<le> n \<Longrightarrow> n < (c + 1) ^ 3 \<Longrightarrow> icbrt n = c"
  using icbrt_bounds [of n]
  by (metis Suc_eq_plus1 leD le_less_trans less_Suc_eq_le linorder_neqE_nat order_less_le_trans power_less_imp_less_base zero_le)

text \<open>A constant is checked by cubing the root it stands for.\<close>

definition cbrt_check :: "nat \<Rightarrow> nat \<Rightarrow> nat \<Rightarrow> nat \<Rightarrow> bool" where
  "cbrt_check w i p k \<longleftrightarrow> (i * 2 ^ w + k) ^ 3 \<le> p * 2 ^ (3 * w) \<and> p * 2 ^ (3 * w) < (i * 2 ^ w + k + 1) ^ 3"

lemma cbrt_frac_eq:
  assumes "cbrt_check LENGTH('a) i p (unat (k :: 'a::len word))"
  shows "cbrt_frac LENGTH('a) p = k"
proof -
  have "icbrt (p * 2 ^ (3 * LENGTH('a))) = i * 2 ^ LENGTH('a) + unat k"
    using assms unfolding cbrt_check_def by (intro icbrt_unique) simp_all
  then have "cbrt_frac LENGTH('a) p = (word_of_nat (i * 2 ^ LENGTH('a) + unat k) :: 'a word)"
    by (simp only: cbrt_frac_def)
  also have "\<dots> = k" by (simp add: word_of_nat_eq_0_iff)
  finally show ?thesis .
qed

lemma cbrt_fracs:
  "list_all2 (\<lambda>(i, p) k. cbrt_check LENGTH('a) i p (unat (k :: 'a::len word))) ips ks \<Longrightarrow>
   ks = map (\<lambda>(i, p). cbrt_frac LENGTH('a) p) ips"
  by (induction rule: list_all2_induct) (auto simp: cbrt_frac_eq)

lemma length_schedule [simp]: "length (schedule sg0 sg1 rd b chunk t) = t"
  by (induction t) (simp_all add: Let_def)

lemma schedule_nth: "t < n \<Longrightarrow> schedule sg0 sg1 rd b chunk n ! t = schedule sg0 sg1 rd b chunk (Suc t) ! t"
proof (induction n)
  case (Suc n)
  then show ?case
    by (cases "t = n") (simp_all add: Let_def nth_append)
qed simp

lemma schedule_rec:
  assumes "16 \<le> t" and "t < n"
  shows "schedule sg0 sg1 rd b chunk n ! t =
    sg1 (schedule sg0 sg1 rd b chunk n ! (t - 2)) + schedule sg0 sg1 rd b chunk n ! (t - 7)
      + sg0 (schedule sg0 sg1 rd b chunk n ! (t - 15)) + schedule sg0 sg1 rd b chunk n ! (t - 16)"
proof -
  let ?S = "schedule sg0 sg1 rd b chunk"
  have *: "?S n ! k = ?S t ! k" if "k < t" for k
    using that assms schedule_nth [of k n sg0] schedule_nth [of k t sg0] by simp
  have "?S n ! t = ?S (Suc t) ! t" using assms by (intro schedule_nth) simp
  also have "\<dots> = sg1 (?S t ! (t - 2)) + ?S t ! (t - 7) + sg0 (?S t ! (t - 15)) + ?S t ! (t - 16)"
    using assms by (simp add: Let_def nth_append)
  finally show ?thesis using assms by (simp add: *)
qed

lemma schedule_load: "t < 16 \<Longrightarrow> t < n \<Longrightarrow> schedule sg0 sg1 rd b chunk n ! t = rd (drop (b * t) chunk)"
  by (simp add: schedule_nth [of t n] Let_def nth_append)

lemma length_rounds: "length A = 8 \<Longrightarrow> length (rounds rnd K W A t) = 8"
  by (induction t) (simp_all add: shift_round_def split_beta)

lemma length_compress: "length s = 8 \<Longrightarrow> length (compress rnd sg0 sg1 rd b K s chunk) = 8"
  by (simp add: compress_def length_rounds)

text \<open>Updating the fourth and the eighth role in place and turning the roles is one shifted round.\<close>

lemma shift_round_rotate:
  assumes "length A = 8" and "rnd A k x = (d, h)"
  shows "shift_round rnd A k x = last (A[3 := d, 7 := h]) # butlast (A[3 := d, 7 := h])"
proof -
  from assms(1) obtain a b c e f g i j where "A = [a, b, c, e, f, g, i, j]"
    by (auto simp: length_Suc_conv numeral_eq_Suc)
  then show ?thesis using assms(2) by (simp add: shift_round_def)
qed

lemma eval_wexp_window:
  assumes w: "window (n - 2) W i w" and W: "W = schedule sg0 sg1 rd b chunk n" and i: "i < n"
  obtains w' where "eval_wexp sg0 sg1 rd chunk w (canonical_wexp b n i) = (W ! i, w')" and "window (n - 2) W (Suc i) w'"
proof (cases "i < 16")
  case True
  then have "eval_wexp sg0 sg1 rd chunk w (canonical_wexp b n i) = (W ! i, w[i mod 16 := W ! i])"
    using i by (simp add: W eval_wexp_def canonical_wexp_def schedule_load Let_def)
  with window_update [OF w] show ?thesis by (rule that [rotated])
next
  case False
  then have *: "w ! ((i + 14) mod 16) = W ! (i - 2)" "w ! ((i + 9) mod 16) = W ! (i - 7)"
    "w ! ((i + 1) mod 16) = W ! (i - 15)" "w ! (i mod 16) = W ! (i - 16)"
    using window_nth [OF w, of 2] window_nth [OF w, of 7] window_nth [OF w, of 15] window_nth [OF w, of 16] i by simp_all
  have Wi: "W ! i = sg1 (W ! (i - 2)) + W ! (i - 7) + sg0 (W ! (i - 15)) + W ! (i - 16)"
    unfolding W using False i by (intro schedule_rec) simp_all
  have sum: "w ! (i mod 16) + (sg1 (w ! ((i + 14) mod 16)) + w ! ((i + 9) mod 16) + sg0 (w ! ((i + 1) mod 16))) = W ! i"
    unfolding * Wi by (rule add.commute)
  show ?thesis
  proof (cases "i < n - 2")
    case True
    then have e: "canonical_wexp b n i = Upd (i mod 16) ((i + 14) mod 16) ((i + 9) mod 16) ((i + 1) mod 16)"
      using False by (simp only: canonical_wexp_def if_False if_True)
    have "eval_wexp sg0 sg1 rd chunk w (canonical_wexp b n i) = (W ! i, w[i mod 16 := W ! i])"
      unfolding e eval_wexp_def wexp.case sum Let_def ..
    with window_update [OF w] show ?thesis by (rule that [rotated])
  next
    case no: False
    then have e: "canonical_wexp b n i = Tmp (i mod 16) ((i + 14) mod 16) ((i + 9) mod 16) ((i + 1) mod 16)"
      using False by (simp only: canonical_wexp_def if_False)
    have "eval_wexp sg0 sg1 rd chunk w (canonical_wexp b n i) = (W ! i, w)"
      unfolding e eval_wexp_def wexp.case sum [symmetric] by (simp add: add.assoc)
    moreover have "window (n - 2) W (Suc i) w" using w no by (intro window_keep) simp_all
    ultimately show ?thesis by (rule that)
  qed
qed

text \<open>
  What an unrolled transform has to satisfy: its calls have the shape above, with the constants \<open>K\<close>.
\<close>

locale unrolled =
  fixes rnd :: "'a::len round_fun" and sg0 sg1 :: "'a word \<Rightarrow> 'a word" and rd :: "bytes \<Rightarrow> 'a word"
    and b :: nat and K :: "'a word list" and calls :: "'a round_call list"
  assumes calls_shape: "map (\<lambda>(r, k, e). (r, e)) calls = map (call_shape b (length K)) [0..<length K]"
    and calls_constants: "map (\<lambda>(r, k, e). k) calls = K"
    and whole_turns: "8 dvd length K"
begin

lemma length_calls: "length calls = length K"
  using arg_cong [OF calls_constants, of length] by simp

lemma nth_call:
  assumes "i < length K"
  shows "calls ! i = (map (place 8 i) [0..<8], K ! i, canonical_wexp b (length K) i)"
proof -
  have "(\<lambda>(r, k, e). (r, e)) (calls ! i) = call_shape b (length K) i" "(\<lambda>(r, k, e). k) (calls ! i) = K ! i"
    using arg_cong [OF calls_shape, of "\<lambda>xs. xs ! i"] arg_cong [OF calls_constants, of "\<lambda>xs. xs ! i"]
      assms length_calls by simp_all
  then show ?thesis by (cases "calls ! i") (simp add: call_shape_def)
qed

lemma calls_simulate:
  assumes "length s = 8" and "i \<le> length K"
  shows "\<exists>v w. foldl (exec_call rnd sg0 sg1 rd chunk) (s, replicate 16 0) (take i calls) = (v, w) \<and>
     holds 8 i v (rounds rnd ((!) K) ((!) (schedule sg0 sg1 rd b chunk (length K))) s i) \<and>
     window (length K - 2) (schedule sg0 sg1 rd b chunk (length K)) i w"
  using assms(2)
proof (induction i)
  case 0
  then show ?case using assms(1) by (simp add: holds_0 window_0)
next
  case (Suc i)
  let ?n = "length K" and ?W = "schedule sg0 sg1 rd b chunk (length K)"
  let ?A = "rounds rnd ((!) K) ((!) ?W) s i"
  from Suc obtain v w where IH: "foldl (exec_call rnd sg0 sg1 rd chunk) (s, replicate 16 0) (take i calls) = (v, w)"
    "holds 8 i v ?A" "window (?n - 2) ?W i w"
    by auto
  have i: "i < ?n" "i < length calls" using Suc.prems length_calls by simp_all
  obtain w' where w': "eval_wexp sg0 sg1 rd chunk w (canonical_wexp b ?n i) = (?W ! i, w')" "window (?n - 2) ?W (Suc i) w'"
    using eval_wexp_window [OF IH(3) refl i(1)] by metis
  obtain d h where dh: "rnd ?A (K ! i) (?W ! i) = (d, h)" by fastforce
  let ?v = "v[place 8 i 3 := d, place 8 i 7 := h]"
  have "exec_call rnd sg0 sg1 rd chunk (v, w) (calls ! i) = (?v, w')"
    using w' holds_read [OF IH(2)] dh by (simp add: exec_call_def nth_call [OF i(1)])
  then have "foldl (exec_call rnd sg0 sg1 rd chunk) (s, replicate 16 0) (take (Suc i) calls) = (?v, w')"
    using IH(1) i(2) by (simp add: take_Suc_conv_app_nth)
  moreover have "holds 8 i ?v (?A[3 := d, 7 := h])"
    by (intro holds_update IH(2)) simp_all
  then have "holds 8 (Suc i) ?v (last (?A[3 := d, 7 := h]) # butlast (?A[3 := d, 7 := h]))"
    by (rule holds_rotate) simp
  moreover have "shift_round rnd ?A (K ! i) (?W ! i) = last (?A[3 := d, 7 := h]) # butlast (?A[3 := d, 7 := h])"
    using length_rounds [OF assms(1)] dh by (rule shift_round_rotate)
  ultimately show ?case using w'(2) by (simp del: take_Suc)
qed

lemma run_calls_compress:
  assumes "length s = 8"
  shows "run_calls rnd sg0 sg1 rd calls s chunk = compress rnd sg0 sg1 rd b K s chunk"
proof -
  let ?A = "rounds rnd ((!) K) ((!) (schedule sg0 sg1 rd b chunk (length K))) s (length K)"
  from calls_simulate [OF assms order_refl, of chunk] obtain v w where
    vw: "foldl (exec_call rnd sg0 sg1 rd chunk) (s, replicate 16 0) calls = (v, w)" "holds 8 (length K) v ?A"
    by (auto simp: length_calls)
  then show ?thesis using holds_full [OF vw(2) whole_turns] by (simp add: run_calls_def compress_def)
qed

end

end
