(* ===== verification/Sha1.thy ===== *)
theory Sha1
  imports Sha2
begin

text \<open>
  \<^verbatim>\<open>src/crypto/sha1.cpp\<close>: the portable \<open>Transform\<close> with its eighty unrolled calls, and \<^verbatim>\<open>CSHA1\<close> over
  it. Any sequence of \<open>Write\<close> calls followed by \<open>Finalize\<close> yields the SHA-1 digest of FIPS 180-4. The
  ARM and AVX2 variants of \<open>Transform\<close> are not modelled.
\<close>

section \<open>The compression function\<close>

definition sha1_f1 :: "u32 \<Rightarrow> u32 \<Rightarrow> u32 \<Rightarrow> u32" where
  "sha1_f1 b c d = d XOR (b AND (c XOR d))"

definition sha1_f2 :: "u32 \<Rightarrow> u32 \<Rightarrow> u32 \<Rightarrow> u32" where
  "sha1_f2 b c d = b XOR c XOR d"

definition sha1_f3 :: "u32 \<Rightarrow> u32 \<Rightarrow> u32 \<Rightarrow> u32" where
  "sha1_f3 b c d = (b AND c) OR (d AND (b OR c))"

definition sha1_left :: "u32 \<Rightarrow> u32" where
  "sha1_left x = push_bit 1 x OR drop_bit 31 x"

text \<open>\<open>Round\<close> returns the new \<open>b\<close> and \<open>e\<close>.\<close>

definition sha1_Round :: "u32 \<Rightarrow> u32 \<Rightarrow> u32 \<Rightarrow> u32 \<Rightarrow> u32 \<Rightarrow> u32 \<Rightarrow> u32 \<Rightarrow> u32 \<Rightarrow> u32 \<times> u32" where
  "sha1_Round a b c d e f k w =
     (push_bit 30 b OR drop_bit 2 b, e + ((push_bit 5 a OR drop_bit 27 a) + f + k + w))"

definition sha1_Initialize :: "u32 list" where
  "sha1_Initialize = [0x67452301, 0xEFCDAB89, 0x98BADCFE, 0x10325476, 0xC3D2E1F0]"

abbreviation (input) sha1_k1 :: u32 where "sha1_k1 \<equiv> 0x5A827999"
abbreviation (input) sha1_k2 :: u32 where "sha1_k2 \<equiv> 0x6ED9EBA1"
abbreviation (input) sha1_k3 :: u32 where "sha1_k3 \<equiv> 0x8F1BBCDC"
abbreviation (input) sha1_k4 :: u32 where "sha1_k4 \<equiv> 0xCA62C1D6"

text \<open>
  A call \<open>Round(a, b, c, d, e, f(b, c, d), k, w)\<close>: the registers, the function and its arguments, the
  constant, and the word. Here \<open>Upd i j k l\<close> stands for \<open>w\<^sub>i = left(w\<^sub>i ^ w\<^sub>j ^ w\<^sub>k ^ w\<^sub>l)\<close> and \<open>Tmp\<close> for
  the right-hand side alone.
\<close>

datatype sha1_fun = F1 | F2 | F3

type_synonym sha1_call = "nat list \<times> sha1_fun \<times> nat list \<times> u32 \<times> wexp"

definition sha1_calls :: "sha1_call list" where
  "sha1_calls =
    [([0, 1, 2, 3, 4], F1, [1, 2, 3], sha1_k1, Load 0 0),
     ([4, 0, 1, 2, 3], F1, [0, 1, 2], sha1_k1, Load 1 4),
     ([3, 4, 0, 1, 2], F1, [4, 0, 1], sha1_k1, Load 2 8),
     ([2, 3, 4, 0, 1], F1, [3, 4, 0], sha1_k1, Load 3 12),
     ([1, 2, 3, 4, 0], F1, [2, 3, 4], sha1_k1, Load 4 16),
     ([0, 1, 2, 3, 4], F1, [1, 2, 3], sha1_k1, Load 5 20),
     ([4, 0, 1, 2, 3], F1, [0, 1, 2], sha1_k1, Load 6 24),
     ([3, 4, 0, 1, 2], F1, [4, 0, 1], sha1_k1, Load 7 28),
     ([2, 3, 4, 0, 1], F1, [3, 4, 0], sha1_k1, Load 8 32),
     ([1, 2, 3, 4, 0], F1, [2, 3, 4], sha1_k1, Load 9 36),
     ([0, 1, 2, 3, 4], F1, [1, 2, 3], sha1_k1, Load 10 40),
     ([4, 0, 1, 2, 3], F1, [0, 1, 2], sha1_k1, Load 11 44),
     ([3, 4, 0, 1, 2], F1, [4, 0, 1], sha1_k1, Load 12 48),
     ([2, 3, 4, 0, 1], F1, [3, 4, 0], sha1_k1, Load 13 52),
     ([1, 2, 3, 4, 0], F1, [2, 3, 4], sha1_k1, Load 14 56),
     ([0, 1, 2, 3, 4], F1, [1, 2, 3], sha1_k1, Load 15 60),
     ([4, 0, 1, 2, 3], F1, [0, 1, 2], sha1_k1, Upd 0 13 8 2),
     ([3, 4, 0, 1, 2], F1, [4, 0, 1], sha1_k1, Upd 1 14 9 3),
     ([2, 3, 4, 0, 1], F1, [3, 4, 0], sha1_k1, Upd 2 15 10 4),
     ([1, 2, 3, 4, 0], F1, [2, 3, 4], sha1_k1, Upd 3 0 11 5),
     ([0, 1, 2, 3, 4], F2, [1, 2, 3], sha1_k2, Upd 4 1 12 6),
     ([4, 0, 1, 2, 3], F2, [0, 1, 2], sha1_k2, Upd 5 2 13 7),
     ([3, 4, 0, 1, 2], F2, [4, 0, 1], sha1_k2, Upd 6 3 14 8),
     ([2, 3, 4, 0, 1], F2, [3, 4, 0], sha1_k2, Upd 7 4 15 9),
     ([1, 2, 3, 4, 0], F2, [2, 3, 4], sha1_k2, Upd 8 5 0 10),
     ([0, 1, 2, 3, 4], F2, [1, 2, 3], sha1_k2, Upd 9 6 1 11),
     ([4, 0, 1, 2, 3], F2, [0, 1, 2], sha1_k2, Upd 10 7 2 12),
     ([3, 4, 0, 1, 2], F2, [4, 0, 1], sha1_k2, Upd 11 8 3 13),
     ([2, 3, 4, 0, 1], F2, [3, 4, 0], sha1_k2, Upd 12 9 4 14),
     ([1, 2, 3, 4, 0], F2, [2, 3, 4], sha1_k2, Upd 13 10 5 15),
     ([0, 1, 2, 3, 4], F2, [1, 2, 3], sha1_k2, Upd 14 11 6 0),
     ([4, 0, 1, 2, 3], F2, [0, 1, 2], sha1_k2, Upd 15 12 7 1),
     ([3, 4, 0, 1, 2], F2, [4, 0, 1], sha1_k2, Upd 0 13 8 2),
     ([2, 3, 4, 0, 1], F2, [3, 4, 0], sha1_k2, Upd 1 14 9 3),
     ([1, 2, 3, 4, 0], F2, [2, 3, 4], sha1_k2, Upd 2 15 10 4),
     ([0, 1, 2, 3, 4], F2, [1, 2, 3], sha1_k2, Upd 3 0 11 5),
     ([4, 0, 1, 2, 3], F2, [0, 1, 2], sha1_k2, Upd 4 1 12 6),
     ([3, 4, 0, 1, 2], F2, [4, 0, 1], sha1_k2, Upd 5 2 13 7),
     ([2, 3, 4, 0, 1], F2, [3, 4, 0], sha1_k2, Upd 6 3 14 8),
     ([1, 2, 3, 4, 0], F2, [2, 3, 4], sha1_k2, Upd 7 4 15 9),
     ([0, 1, 2, 3, 4], F3, [1, 2, 3], sha1_k3, Upd 8 5 0 10),
     ([4, 0, 1, 2, 3], F3, [0, 1, 2], sha1_k3, Upd 9 6 1 11),
     ([3, 4, 0, 1, 2], F3, [4, 0, 1], sha1_k3, Upd 10 7 2 12),
     ([2, 3, 4, 0, 1], F3, [3, 4, 0], sha1_k3, Upd 11 8 3 13),
     ([1, 2, 3, 4, 0], F3, [2, 3, 4], sha1_k3, Upd 12 9 4 14),
     ([0, 1, 2, 3, 4], F3, [1, 2, 3], sha1_k3, Upd 13 10 5 15),
     ([4, 0, 1, 2, 3], F3, [0, 1, 2], sha1_k3, Upd 14 11 6 0),
     ([3, 4, 0, 1, 2], F3, [4, 0, 1], sha1_k3, Upd 15 12 7 1),
     ([2, 3, 4, 0, 1], F3, [3, 4, 0], sha1_k3, Upd 0 13 8 2),
     ([1, 2, 3, 4, 0], F3, [2, 3, 4], sha1_k3, Upd 1 14 9 3),
     ([0, 1, 2, 3, 4], F3, [1, 2, 3], sha1_k3, Upd 2 15 10 4),
     ([4, 0, 1, 2, 3], F3, [0, 1, 2], sha1_k3, Upd 3 0 11 5),
     ([3, 4, 0, 1, 2], F3, [4, 0, 1], sha1_k3, Upd 4 1 12 6),
     ([2, 3, 4, 0, 1], F3, [3, 4, 0], sha1_k3, Upd 5 2 13 7),
     ([1, 2, 3, 4, 0], F3, [2, 3, 4], sha1_k3, Upd 6 3 14 8),
     ([0, 1, 2, 3, 4], F3, [1, 2, 3], sha1_k3, Upd 7 4 15 9),
     ([4, 0, 1, 2, 3], F3, [0, 1, 2], sha1_k3, Upd 8 5 0 10),
     ([3, 4, 0, 1, 2], F3, [4, 0, 1], sha1_k3, Upd 9 6 1 11),
     ([2, 3, 4, 0, 1], F3, [3, 4, 0], sha1_k3, Upd 10 7 2 12),
     ([1, 2, 3, 4, 0], F3, [2, 3, 4], sha1_k3, Upd 11 8 3 13),
     ([0, 1, 2, 3, 4], F2, [1, 2, 3], sha1_k4, Upd 12 9 4 14),
     ([4, 0, 1, 2, 3], F2, [0, 1, 2], sha1_k4, Upd 13 10 5 15),
     ([3, 4, 0, 1, 2], F2, [4, 0, 1], sha1_k4, Upd 14 11 6 0),
     ([2, 3, 4, 0, 1], F2, [3, 4, 0], sha1_k4, Upd 15 12 7 1),
     ([1, 2, 3, 4, 0], F2, [2, 3, 4], sha1_k4, Upd 0 13 8 2),
     ([0, 1, 2, 3, 4], F2, [1, 2, 3], sha1_k4, Upd 1 14 9 3),
     ([4, 0, 1, 2, 3], F2, [0, 1, 2], sha1_k4, Upd 2 15 10 4),
     ([3, 4, 0, 1, 2], F2, [4, 0, 1], sha1_k4, Upd 3 0 11 5),
     ([2, 3, 4, 0, 1], F2, [3, 4, 0], sha1_k4, Upd 4 1 12 6),
     ([1, 2, 3, 4, 0], F2, [2, 3, 4], sha1_k4, Upd 5 2 13 7),
     ([0, 1, 2, 3, 4], F2, [1, 2, 3], sha1_k4, Upd 6 3 14 8),
     ([4, 0, 1, 2, 3], F2, [0, 1, 2], sha1_k4, Upd 7 4 15 9),
     ([3, 4, 0, 1, 2], F2, [4, 0, 1], sha1_k4, Upd 8 5 0 10),
     ([2, 3, 4, 0, 1], F2, [3, 4, 0], sha1_k4, Upd 9 6 1 11),
     ([1, 2, 3, 4, 0], F2, [2, 3, 4], sha1_k4, Upd 10 7 2 12),
     ([0, 1, 2, 3, 4], F2, [1, 2, 3], sha1_k4, Upd 11 8 3 13),
     ([4, 0, 1, 2, 3], F2, [0, 1, 2], sha1_k4, Upd 12 9 4 14),
     ([3, 4, 0, 1, 2], F2, [4, 0, 1], sha1_k4, Tmp 13 10 5 15),
     ([2, 3, 4, 0, 1], F2, [3, 4, 0], sha1_k4, Tmp 14 11 6 0),
     ([1, 2, 3, 4, 0], F2, [2, 3, 4], sha1_k4, Tmp 15 12 7 1)]"

primrec sha1_apply :: "sha1_fun \<Rightarrow> u32 \<Rightarrow> u32 \<Rightarrow> u32 \<Rightarrow> u32" where
  "sha1_apply F1 = sha1_f1"
| "sha1_apply F2 = sha1_f2"
| "sha1_apply F3 = sha1_f3"

definition sha1_eval_wexp :: "bytes \<Rightarrow> u32 list \<Rightarrow> wexp \<Rightarrow> u32 \<times> u32 list" where
  "sha1_eval_wexp chunk w e =
     (case e of
        Load i off \<Rightarrow> let x = ReadBE32 (drop off chunk) in (x, w[i := x])
      | Upd i j k l \<Rightarrow> let x = sha1_left (w ! i XOR w ! j XOR w ! k XOR w ! l) in (x, w[i := x])
      | Tmp i j k l \<Rightarrow> (sha1_left (w ! i XOR w ! j XOR w ! k XOR w ! l), w))"

definition sha1_exec_call :: "bytes \<Rightarrow> u32 list \<times> u32 list \<Rightarrow> sha1_call \<Rightarrow> u32 list \<times> u32 list" where
  "sha1_exec_call chunk st cl =
     (let (v, w) = st;
          (r, f, args, k, ex) = cl;
          (x, w) = sha1_eval_wexp chunk w ex;
          y = sha1_apply f (v ! (args ! 0)) (v ! (args ! 1)) (v ! (args ! 2));
          (b, e) = sha1_Round (v ! (r ! 0)) (v ! (r ! 1)) (v ! (r ! 2)) (v ! (r ! 3)) (v ! (r ! 4)) y k x
      in (v[r ! 1 := b, r ! 4 := e], w))"

definition sha1_Transform :: "u32 list \<Rightarrow> bytes \<Rightarrow> u32 list" where
  "sha1_Transform s chunk =
     (let (v, w) = foldl (sha1_exec_call chunk) (s, replicate 16 0) sha1_calls
      in map2 (+) s v)"

section \<open>The hasher object\<close>

type_synonym CSHA1 = "u32 list hasher"

definition CSHA1_new :: "bytes \<Rightarrow> CSHA1" where
  "CSHA1_new buf = \<lparr>hs = sha1_Initialize, hbuf = buf, hbytes = 0\<rparr>"

definition CSHA1_Write :: "CSHA1 \<Rightarrow> bytes \<Rightarrow> CSHA1" where
  "CSHA1_Write = hasher_Write 64 sha1_Transform"

definition CSHA1_Finalize :: "CSHA1 \<Rightarrow> bytes \<times> CSHA1" where
  "CSHA1_Finalize h =
     (let sizedesc = WriteBE64 (push_bit 3 (hbytes h));
          pad = 0x80 # replicate 63 0;
          h = CSHA1_Write h (take (1 + (119 - unat (hbytes h) mod 64) mod 64) pad);
          h = CSHA1_Write h sizedesc
      in (concat (map WriteBE32 (hs h)), h))"

definition CSHA1_Reset :: "CSHA1 \<Rightarrow> CSHA1" where
  "CSHA1_Reset h = h\<lparr>hbytes := 0, hs := sha1_Initialize\<rparr>"

section \<open>FIPS 180-4\<close>

definition sha1_ft :: "nat \<Rightarrow> u32 \<Rightarrow> u32 \<Rightarrow> u32 \<Rightarrow> u32" where
  "sha1_ft t x y z =
     (if t < 20 then (x AND y) XOR (NOT x AND z)
      else if t < 40 then x XOR y XOR z
      else if t < 60 then (x AND y) XOR (x AND z) XOR (y AND z)
      else x XOR y XOR z)"

definition sha1_Kt :: "nat \<Rightarrow> u32" where
  "sha1_Kt t = (if t < 20 then 0x5A827999 else if t < 40 then 0x6ED9EBA1 else if t < 60 then 0x8F1BBCDC else 0xCA62C1D6)"

primrec sha1_schedule :: "bytes \<Rightarrow> nat \<Rightarrow> u32 list" where
  "sha1_schedule chunk 0 = []"
| "sha1_schedule chunk (Suc t) =
     (let W = sha1_schedule chunk t
      in W @ [if t < 16 then ReadBE32 (drop (4 * t) chunk)
              else word_rotl 1 (W ! (t - 3) XOR W ! (t - 8) XOR W ! (t - 14) XOR W ! (t - 16))])"

primrec sha1_rounds :: "u32 list \<Rightarrow> u32 list \<Rightarrow> nat \<Rightarrow> u32 list" where
  "sha1_rounds W A 0 = A"
| "sha1_rounds W A (Suc t) =
     (let A = sha1_rounds W A t
      in [word_rotl 5 (A ! 0) + sha1_ft t (A ! 1) (A ! 2) (A ! 3) + A ! 4 + sha1_Kt t + W ! t,
          A ! 0, word_rotl 30 (A ! 1), A ! 2, A ! 3])"

definition sha1_compress :: "u32 list \<Rightarrow> bytes \<Rightarrow> u32 list" where
  "sha1_compress s chunk = map2 (+) s (sha1_rounds (sha1_schedule chunk 80) s 80)"

definition sha1_pad :: "bytes \<Rightarrow> bytes" where
  "sha1_pad m = m @ 0x80 # replicate ((119 - length m mod 64) mod 64) 0 @ WriteBE64 (word_of_nat (8 * length m))"

definition sha1 :: "bytes \<Rightarrow> bytes" where
  "sha1 m = concat (map WriteBE32 (absorb 64 sha1_compress sha1_Initialize (sha1_pad m)))"

section \<open>Facts\<close>

definition sha1_wexp :: "nat \<Rightarrow> wexp" where
  "sha1_wexp i =
     (if i < 16 then Load i (4 * i)
      else if i < 77 then Upd (i mod 16) ((i + 13) mod 16) ((i + 8) mod 16) ((i + 2) mod 16)
      else Tmp (i mod 16) ((i + 13) mod 16) ((i + 8) mod 16) ((i + 2) mod 16))"

definition sha1_shape :: "nat \<Rightarrow> nat list \<times> sha1_fun \<times> nat list \<times> wexp" where
  "sha1_shape i = (map (place 5 i) [0..<5], if i < 20 then F1 else if i < 40 then F2 else if i < 60 then F3 else F2,
     map (place 5 i) [1, 2, 3], sha1_wexp i)"

lemma sha1_calls_shape: "map (\<lambda>(r, f, a, k, e). (r, f, a, e)) sha1_calls = map sha1_shape [0..<80]"
  by (simp add: sha1_calls_def sha1_shape_def sha1_wexp_def place_def upt_rec)

lemma sha1_calls_constants: "map (\<lambda>(r, f, a, k, e). k) sha1_calls = map sha1_Kt [0..<80]"
  by (simp add: sha1_calls_def sha1_Kt_def upt_rec)

lemma length_sha1_calls: "length sha1_calls = 80"
  using arg_cong [OF sha1_calls_shape, of length] by simp

lemma nth_sha1_call:
  assumes "i < 80"
  shows "\<exists>f. sha1_calls ! i = (map (place 5 i) [0..<5], f, map (place 5 i) [1, 2, 3], sha1_Kt i, sha1_wexp i) \<and>
    sha1_apply f = sha1_ft i"
proof -
  have "(\<lambda>(r, f, a, k, e). (r, f, a, e)) (sha1_calls ! i) = sha1_shape i"
    "(\<lambda>(r, f, a, k, e). k) (sha1_calls ! i) = sha1_Kt i"
    using arg_cong [OF sha1_calls_shape, of "\<lambda>xs. xs ! i"] arg_cong [OF sha1_calls_constants, of "\<lambda>xs. xs ! i"]
      assms length_sha1_calls by simp_all
  moreover have "sha1_f1 = (\<lambda>x y z. (x AND y) XOR (NOT x AND z))"
    "sha1_f3 = (\<lambda>x y z. (x AND y) XOR (x AND z) XOR (y AND z))"
    by (intro ext bit_word_eqI; auto simp: sha1_f1_def sha1_f3_def bit_simps)+
  ultimately show ?thesis
    by (cases "sha1_calls ! i") (auto simp: sha1_shape_def fun_eq_iff sha1_ft_def sha1_f2_def)
qed

lemma length_sha1_schedule [simp]: "length (sha1_schedule chunk t) = t"
  by (induction t) (simp_all add: Let_def)

lemma sha1_schedule_nth: "t < n \<Longrightarrow> sha1_schedule chunk n ! t = sha1_schedule chunk (Suc t) ! t"
proof (induction n)
  case (Suc n)
  then show ?case by (cases "t = n") (simp_all add: Let_def nth_append)
qed simp

lemma sha1_schedule_load: "t < 16 \<Longrightarrow> t < n \<Longrightarrow> sha1_schedule chunk n ! t = ReadBE32 (drop (4 * t) chunk)"
  by (simp add: sha1_schedule_nth [of t n] Let_def nth_append)

lemma sha1_schedule_rec:
  assumes "16 \<le> t" and "t < n" and W: "W = sha1_schedule chunk n"
  shows "W ! t = word_rotl 1 (W ! (t - 3) XOR W ! (t - 8) XOR W ! (t - 14) XOR W ! (t - 16))"
proof -
  have *: "W ! k = sha1_schedule chunk t ! k" if "k < t" for k
    using that assms sha1_schedule_nth [of k n] sha1_schedule_nth [of k t] by simp
  have "W ! t = sha1_schedule chunk (Suc t) ! t" unfolding W using assms(2) by (rule sha1_schedule_nth)
  then show ?thesis using assms(1) by (simp add: * Let_def nth_append)
qed

lemma length_sha1_rounds: "length A = 5 \<Longrightarrow> length (sha1_rounds W A t) = 5"
  by (induction t) (simp_all add: Let_def)

lemma sha1_eval_wexp_window:
  assumes w: "window 77 W i w" and W: "W = sha1_schedule chunk 80" and i: "i < 80"
  obtains w' where "sha1_eval_wexp chunk w (sha1_wexp i) = (W ! i, w')" and "window 77 W (Suc i) w'"
proof (cases "i < 16")
  case True
  then have "sha1_eval_wexp chunk w (sha1_wexp i) = (W ! i, w[i mod 16 := W ! i])"
    using i by (simp add: W sha1_eval_wexp_def sha1_wexp_def sha1_schedule_load Let_def)
  with window_update [OF w] show ?thesis by (rule that [rotated])
next
  case False
  then have *: "w ! ((i + 13) mod 16) = W ! (i - 3)" "w ! ((i + 8) mod 16) = W ! (i - 8)"
    "w ! ((i + 2) mod 16) = W ! (i - 14)" "w ! (i mod 16) = W ! (i - 16)"
    using window_nth [OF w, of 3] window_nth [OF w, of 8] window_nth [OF w, of 14] window_nth [OF w, of 16] i by simp_all
  have left: "sha1_left x = word_rotl 1 x" for x
    by (simp add: sha1_left_def rotl32_shifts)
  have Wi: "sha1_left (w ! (i mod 16) XOR w ! ((i + 13) mod 16) XOR w ! ((i + 8) mod 16) XOR w ! ((i + 2) mod 16)) = W ! i"
    unfolding * left using False i sha1_schedule_rec [of i 80 W chunk] W by (simp add: xor.commute xor.left_commute xor.assoc)
  show ?thesis
  proof (cases "i < 77")
    case True
    then have e: "sha1_wexp i = Upd (i mod 16) ((i + 13) mod 16) ((i + 8) mod 16) ((i + 2) mod 16)"
      using False by (simp only: sha1_wexp_def if_False if_True)
    have "sha1_eval_wexp chunk w (sha1_wexp i) = (W ! i, w[i mod 16 := W ! i])"
      unfolding e sha1_eval_wexp_def wexp.case Wi Let_def ..
    with window_update [OF w] show ?thesis by (rule that [rotated])
  next
    case no: False
    then have e: "sha1_wexp i = Tmp (i mod 16) ((i + 13) mod 16) ((i + 8) mod 16) ((i + 2) mod 16)"
      using False by (simp only: sha1_wexp_def if_False)
    have "sha1_eval_wexp chunk w (sha1_wexp i) = (W ! i, w)"
      unfolding e sha1_eval_wexp_def wexp.case Wi ..
    moreover have "window 77 W (Suc i) w" using w no by (intro window_keep) simp_all
    ultimately show ?thesis by (rule that)
  qed
qed

lemma sha1_round_rotate:
  assumes "length A = 5" and be: "sha1_Round (A ! 0) (A ! 1) (A ! 2) (A ! 3) (A ! 4) f k x = (b, e)"
  shows "[word_rotl 5 (A ! 0) + f + A ! 4 + k + x, A ! 0, word_rotl 30 (A ! 1), A ! 2, A ! 3] =
    last (A[1 := b, 4 := e]) # butlast (A[1 := b, 4 := e])"
proof -
  obtain p q r t u where A: "A = [p, q, r, t, u]"
    using assms(1) by (auto simp: length_Suc_conv numeral_eq_Suc)
  then show ?thesis using be by (auto simp: sha1_Round_def rotl32_shifts)
qed

lemma sha1_simulate:
  assumes "length s = 5" and "i \<le> 80"
  shows "\<exists>v w. foldl (sha1_exec_call chunk) (s, replicate 16 0) (take i sha1_calls) = (v, w) \<and>
     holds 5 i v (sha1_rounds (sha1_schedule chunk 80) s i) \<and> window 77 (sha1_schedule chunk 80) i w"
  using assms(2)
proof (induction i)
  case 0
  then show ?case using assms(1) by (simp add: holds_0 window_0)
next
  case (Suc i)
  let ?W = "sha1_schedule chunk 80"
  let ?A = "sha1_rounds ?W s i"
  from Suc obtain v w where IH: "foldl (sha1_exec_call chunk) (s, replicate 16 0) (take i sha1_calls) = (v, w)"
    "holds 5 i v ?A" "window 77 ?W i w"
    by auto
  have i: "i < 80" "i < length sha1_calls" using Suc.prems length_sha1_calls by simp_all
  obtain w' where w': "sha1_eval_wexp chunk w (sha1_wexp i) = (?W ! i, w')" "window 77 ?W (Suc i) w'"
    using sha1_eval_wexp_window [OF IH(3) refl i(1)] by metis
  have v: "v ! place 5 i j = ?A ! j" if "j < 5" for j using IH(2) that by (simp add: holds_def)
  obtain b e where be: "sha1_Round (?A ! 0) (?A ! 1) (?A ! 2) (?A ! 3) (?A ! 4)
      (sha1_ft i (?A ! 1) (?A ! 2) (?A ! 3)) (sha1_Kt i) (?W ! i) = (b, e)" by fastforce
  let ?v = "v[place 5 i 1 := b, place 5 i 4 := e]" and ?A' = "?A[1 := b, 4 := e]"
  obtain f where f: "sha1_calls ! i = (map (place 5 i) [0..<5], f, map (place 5 i) [1, 2, 3], sha1_Kt i, sha1_wexp i)"
    "sha1_apply f = sha1_ft i" using nth_sha1_call [OF i(1)] by blast
  have "[0..<5] = [0, 1, 2, 3, 4]" by (simp add: upt_rec)
  then have "sha1_exec_call chunk (v, w) (sha1_calls ! i) = (?v, w')"
    unfolding f sha1_exec_call_def Let_def prod.case w'(1) using be by (simp add: v f(2))
  then have "foldl (sha1_exec_call chunk) (s, replicate 16 0) (take (Suc i) sha1_calls) = (?v, w')"
    using IH(1) i(2) by (simp add: take_Suc_conv_app_nth)
  moreover have "holds 5 i ?v ?A'"
    by (intro holds_update IH(2)) simp_all
  then have "holds 5 (Suc i) ?v (last ?A' # butlast ?A')"
    by (rule holds_rotate) simp
  moreover have "sha1_rounds ?W s (Suc i) = last ?A' # butlast ?A'"
    unfolding sha1_rounds.simps Let_def using length_sha1_rounds [OF assms(1)] be by (rule sha1_round_rotate)
  ultimately show ?case using w'(2) by (simp del: take_Suc)
qed

lemma sha1_Transform_fips:
  assumes "length s = 5"
  shows "sha1_Transform s chunk = sha1_compress s chunk"
proof -
  from sha1_simulate [OF assms order_refl, of chunk] obtain v w where
    vw: "foldl (sha1_exec_call chunk) (s, replicate 16 0) sha1_calls = (v, w)"
    "holds 5 80 v (sha1_rounds (sha1_schedule chunk 80) s 80)"
    by (auto simp: length_sha1_calls)
  then show ?thesis using holds_full [OF vw(2)] by (simp add: sha1_Transform_def sha1_compress_def)
qed

lemma length_sha1_compress: "length s = 5 \<Longrightarrow> length (sha1_compress s chunk) = 5"
  by (simp add: sha1_compress_def length_sha1_rounds)

lemma length_sha1_Transform: "length s = 5 \<Longrightarrow> length (sha1_Transform s chunk) = 5"
  by (simp add: sha1_Transform_fips length_sha1_compress)

lemma absorb_sha1: "length s = 5 \<Longrightarrow> absorb B sha1_Transform s m = absorb B sha1_compress s m"
  using absorb_cong [where P = "\<lambda>s. length s = 5"] sha1_Transform_fips length_sha1_Transform by blast

interpretation sha1_hasher: block_hash 64 sha1_Transform sha1_Initialize 8
  by unfold_locales simp_all

definition CSHA1_rep :: "CSHA1 \<Rightarrow> bytes \<Rightarrow> bool" where
  "CSHA1_rep = hasher_rep 64 sha1_Transform sha1_Initialize"

lemma CSHA1_rep_new: "length buf = 64 \<Longrightarrow> CSHA1_rep (CSHA1_new buf) []"
  using sha1_hasher.rep_init by (simp add: CSHA1_rep_def CSHA1_new_def)

lemma CSHA1_rep_Writes: "CSHA1_rep h m \<Longrightarrow> CSHA1_rep (foldl CSHA1_Write h ds) (m @ concat ds)"
  unfolding CSHA1_rep_def CSHA1_Write_def by (rule sha1_hasher.rep_Writes)

lemma CSHA1_rep_Reset: "CSHA1_rep h m \<Longrightarrow> CSHA1_rep (CSHA1_Reset h) []"
  using sha1_hasher.rep_init [of "hbuf h"]
  by (simp add: CSHA1_rep_def CSHA1_Reset_def hasher_rep_def)

lemma CSHA1_rep_Finalize:
  assumes "CSHA1_rep h m"
  shows "fst (CSHA1_Finalize h) = sha1 m"
proof -
  let ?pad = "128 # replicate ((119 - length m mod 64) mod 64) (0 :: u8)"
  let ?sz = "WriteBE64 (word_of_nat (8 * length m))"
  have "hbytes h = word_of_nat (length m)" using assms by (simp add: CSHA1_rep_def hasher_rep_def)
  then have sz: "WriteBE64 (push_bit 3 (hbytes h)) = ?sz" by (simp add: size_word)
  have pad: "take (1 + (119 - unat (hbytes h) mod 64) mod 64) (0x80 # replicate 63 0) = ?pad"
    using sha1_hasher.rep_bytes_mod [OF assms [unfolded CSHA1_rep_def]] take_pad [of 64 "119 - length m mod 64"] by simp
  have "hs (CSHA1_Write (CSHA1_Write h ?pad) ?sz) = absorb 64 sha1_Transform sha1_Initialize (m @ ?pad @ ?sz)"
    unfolding CSHA1_Write_def
    using assms by (intro sha1_hasher.rep_padded) (simp_all add: CSHA1_rep_def WriteBE64_def)
  also have "\<dots> = absorb 64 sha1_compress sha1_Initialize (sha1_pad m)"
    unfolding sha1_pad_def by (subst absorb_sha1) (simp_all add: sha1_Initialize_def)
  finally show ?thesis
    unfolding CSHA1_Finalize_def Let_def sz pad sha1_def fst_conv by (simp only:)
qed

lemma CSHA1_Finalize_buffer: "CSHA1_rep h m \<Longrightarrow> length (hbuf (snd (CSHA1_Finalize h))) = 64"
  unfolding CSHA1_Finalize_def Let_def snd_conv
  unfolding CSHA1_rep_def CSHA1_Write_def by (rule sha1_hasher.Writes_buffer)

lemma length_sha1: "length (sha1 m) = 20"
proof -
  have "length (absorb 64 sha1_compress sha1_Initialize (sha1_pad m)) = 5"
    using absorb_cong [where P = "\<lambda>s. length s = 5" and T = sha1_compress and T' = sha1_compress]
    by (simp add: length_sha1_compress sha1_Initialize_def)
  then show ?thesis by (simp add: sha1_def length_concat WriteBE32_def o_def sum_list_triv)
qed

end
