(* ===== verification/Sha256.thy ===== *)
theory Sha256
  imports Sha2
begin

text \<open>
  \<^verbatim>\<open>src/crypto/sha256.cpp\<close>: the portable \<open>Transform\<close>, and \<^verbatim>\<open>CSHA256\<close> over it. The result is that any
  sequence of \<open>Write\<close> calls followed by \<open>Finalize\<close> yields the SHA-256 digest of the concatenated
  message, as FIPS 180-4 defines it. The AVX2 and ARM variants of \<open>Transform\<close> call code outside the
  repository and are not modelled.
\<close>

section \<open>The compression function\<close>

definition sha256_Ch :: "u32 \<Rightarrow> u32 \<Rightarrow> u32 \<Rightarrow> u32" where
  "sha256_Ch x y z = z XOR (x AND (y XOR z))"

definition sha256_Maj :: "u32 \<Rightarrow> u32 \<Rightarrow> u32 \<Rightarrow> u32" where
  "sha256_Maj x y z = (x AND y) OR (z AND (x OR y))"

definition sha256_Sigma0 :: "u32 \<Rightarrow> u32" where
  "sha256_Sigma0 x = (drop_bit 2 x OR push_bit 30 x) XOR (drop_bit 13 x OR push_bit 19 x) XOR (drop_bit 22 x OR push_bit 10 x)"

definition sha256_Sigma1 :: "u32 \<Rightarrow> u32" where
  "sha256_Sigma1 x = (drop_bit 6 x OR push_bit 26 x) XOR (drop_bit 11 x OR push_bit 21 x) XOR (drop_bit 25 x OR push_bit 7 x)"

definition sha256_sigma0 :: "u32 \<Rightarrow> u32" where
  "sha256_sigma0 x = (drop_bit 7 x OR push_bit 25 x) XOR (drop_bit 18 x OR push_bit 14 x) XOR drop_bit 3 x"

definition sha256_sigma1 :: "u32 \<Rightarrow> u32" where
  "sha256_sigma1 x = (drop_bit 17 x OR push_bit 15 x) XOR (drop_bit 19 x OR push_bit 13 x) XOR drop_bit 10 x"

text \<open>\<open>Round\<close> on the registers \<open>a, \<dots>, h\<close> in the order of the call, returning the new \<open>d\<close> and \<open>h\<close>.\<close>

definition sha256_Round :: "32 round_fun" where
  "sha256_Round v k w =
     (let t1 = v ! 7 + sha256_Sigma1 (v ! 4) + sha256_Ch (v ! 4) (v ! 5) (v ! 6) + k + w;
          t2 = sha256_Sigma0 (v ! 0) + sha256_Maj (v ! 0) (v ! 1) (v ! 2)
      in (v ! 3 + t1, t1 + t2))"

definition sha256_Initialize :: "u32 list" where
  "sha256_Initialize =
     [0x6a09e667, 0xbb67ae85, 0x3c6ef372, 0xa54ff53a, 0x510e527f, 0x9b05688c, 0x1f83d9ab, 0x5be0cd19]"

text \<open>The sixty-four calls of the portable branch, register \<open>a\<close> being place 0.\<close>

definition sha256_calls :: "32 round_call list" where
  "sha256_calls =
    [([0, 1, 2, 3, 4, 5, 6, 7], 0x428a2f98, Load 0 0),
     ([7, 0, 1, 2, 3, 4, 5, 6], 0x71374491, Load 1 4),
     ([6, 7, 0, 1, 2, 3, 4, 5], 0xb5c0fbcf, Load 2 8),
     ([5, 6, 7, 0, 1, 2, 3, 4], 0xe9b5dba5, Load 3 12),
     ([4, 5, 6, 7, 0, 1, 2, 3], 0x3956c25b, Load 4 16),
     ([3, 4, 5, 6, 7, 0, 1, 2], 0x59f111f1, Load 5 20),
     ([2, 3, 4, 5, 6, 7, 0, 1], 0x923f82a4, Load 6 24),
     ([1, 2, 3, 4, 5, 6, 7, 0], 0xab1c5ed5, Load 7 28),
     ([0, 1, 2, 3, 4, 5, 6, 7], 0xd807aa98, Load 8 32),
     ([7, 0, 1, 2, 3, 4, 5, 6], 0x12835b01, Load 9 36),
     ([6, 7, 0, 1, 2, 3, 4, 5], 0x243185be, Load 10 40),
     ([5, 6, 7, 0, 1, 2, 3, 4], 0x550c7dc3, Load 11 44),
     ([4, 5, 6, 7, 0, 1, 2, 3], 0x72be5d74, Load 12 48),
     ([3, 4, 5, 6, 7, 0, 1, 2], 0x80deb1fe, Load 13 52),
     ([2, 3, 4, 5, 6, 7, 0, 1], 0x9bdc06a7, Load 14 56),
     ([1, 2, 3, 4, 5, 6, 7, 0], 0xc19bf174, Load 15 60),
     ([0, 1, 2, 3, 4, 5, 6, 7], 0xe49b69c1, Upd 0 14 9 1),
     ([7, 0, 1, 2, 3, 4, 5, 6], 0xefbe4786, Upd 1 15 10 2),
     ([6, 7, 0, 1, 2, 3, 4, 5], 0x0fc19dc6, Upd 2 0 11 3),
     ([5, 6, 7, 0, 1, 2, 3, 4], 0x240ca1cc, Upd 3 1 12 4),
     ([4, 5, 6, 7, 0, 1, 2, 3], 0x2de92c6f, Upd 4 2 13 5),
     ([3, 4, 5, 6, 7, 0, 1, 2], 0x4a7484aa, Upd 5 3 14 6),
     ([2, 3, 4, 5, 6, 7, 0, 1], 0x5cb0a9dc, Upd 6 4 15 7),
     ([1, 2, 3, 4, 5, 6, 7, 0], 0x76f988da, Upd 7 5 0 8),
     ([0, 1, 2, 3, 4, 5, 6, 7], 0x983e5152, Upd 8 6 1 9),
     ([7, 0, 1, 2, 3, 4, 5, 6], 0xa831c66d, Upd 9 7 2 10),
     ([6, 7, 0, 1, 2, 3, 4, 5], 0xb00327c8, Upd 10 8 3 11),
     ([5, 6, 7, 0, 1, 2, 3, 4], 0xbf597fc7, Upd 11 9 4 12),
     ([4, 5, 6, 7, 0, 1, 2, 3], 0xc6e00bf3, Upd 12 10 5 13),
     ([3, 4, 5, 6, 7, 0, 1, 2], 0xd5a79147, Upd 13 11 6 14),
     ([2, 3, 4, 5, 6, 7, 0, 1], 0x06ca6351, Upd 14 12 7 15),
     ([1, 2, 3, 4, 5, 6, 7, 0], 0x14292967, Upd 15 13 8 0),
     ([0, 1, 2, 3, 4, 5, 6, 7], 0x27b70a85, Upd 0 14 9 1),
     ([7, 0, 1, 2, 3, 4, 5, 6], 0x2e1b2138, Upd 1 15 10 2),
     ([6, 7, 0, 1, 2, 3, 4, 5], 0x4d2c6dfc, Upd 2 0 11 3),
     ([5, 6, 7, 0, 1, 2, 3, 4], 0x53380d13, Upd 3 1 12 4),
     ([4, 5, 6, 7, 0, 1, 2, 3], 0x650a7354, Upd 4 2 13 5),
     ([3, 4, 5, 6, 7, 0, 1, 2], 0x766a0abb, Upd 5 3 14 6),
     ([2, 3, 4, 5, 6, 7, 0, 1], 0x81c2c92e, Upd 6 4 15 7),
     ([1, 2, 3, 4, 5, 6, 7, 0], 0x92722c85, Upd 7 5 0 8),
     ([0, 1, 2, 3, 4, 5, 6, 7], 0xa2bfe8a1, Upd 8 6 1 9),
     ([7, 0, 1, 2, 3, 4, 5, 6], 0xa81a664b, Upd 9 7 2 10),
     ([6, 7, 0, 1, 2, 3, 4, 5], 0xc24b8b70, Upd 10 8 3 11),
     ([5, 6, 7, 0, 1, 2, 3, 4], 0xc76c51a3, Upd 11 9 4 12),
     ([4, 5, 6, 7, 0, 1, 2, 3], 0xd192e819, Upd 12 10 5 13),
     ([3, 4, 5, 6, 7, 0, 1, 2], 0xd6990624, Upd 13 11 6 14),
     ([2, 3, 4, 5, 6, 7, 0, 1], 0xf40e3585, Upd 14 12 7 15),
     ([1, 2, 3, 4, 5, 6, 7, 0], 0x106aa070, Upd 15 13 8 0),
     ([0, 1, 2, 3, 4, 5, 6, 7], 0x19a4c116, Upd 0 14 9 1),
     ([7, 0, 1, 2, 3, 4, 5, 6], 0x1e376c08, Upd 1 15 10 2),
     ([6, 7, 0, 1, 2, 3, 4, 5], 0x2748774c, Upd 2 0 11 3),
     ([5, 6, 7, 0, 1, 2, 3, 4], 0x34b0bcb5, Upd 3 1 12 4),
     ([4, 5, 6, 7, 0, 1, 2, 3], 0x391c0cb3, Upd 4 2 13 5),
     ([3, 4, 5, 6, 7, 0, 1, 2], 0x4ed8aa4a, Upd 5 3 14 6),
     ([2, 3, 4, 5, 6, 7, 0, 1], 0x5b9cca4f, Upd 6 4 15 7),
     ([1, 2, 3, 4, 5, 6, 7, 0], 0x682e6ff3, Upd 7 5 0 8),
     ([0, 1, 2, 3, 4, 5, 6, 7], 0x748f82ee, Upd 8 6 1 9),
     ([7, 0, 1, 2, 3, 4, 5, 6], 0x78a5636f, Upd 9 7 2 10),
     ([6, 7, 0, 1, 2, 3, 4, 5], 0x84c87814, Upd 10 8 3 11),
     ([5, 6, 7, 0, 1, 2, 3, 4], 0x8cc70208, Upd 11 9 4 12),
     ([4, 5, 6, 7, 0, 1, 2, 3], 0x90befffa, Upd 12 10 5 13),
     ([3, 4, 5, 6, 7, 0, 1, 2], 0xa4506ceb, Upd 13 11 6 14),
     ([2, 3, 4, 5, 6, 7, 0, 1], 0xbef9a3f7, Tmp 14 12 7 15),
     ([1, 2, 3, 4, 5, 6, 7, 0], 0xc67178f2, Tmp 15 13 8 0)]"

definition sha256_Transform :: "u32 list \<Rightarrow> bytes \<Rightarrow> u32 list" where
  "sha256_Transform s chunk = run_calls sha256_Round sha256_sigma0 sha256_sigma1 ReadBE32 sha256_calls s chunk"

section \<open>The hasher object\<close>

type_synonym CSHA256 = "u32 list hasher"

text \<open>The constructor leaves \<open>buf\<close> uninitialised: its content is an argument.\<close>

definition CSHA256_new :: "bytes \<Rightarrow> CSHA256" where
  "CSHA256_new buf = \<lparr>hs = sha256_Initialize, hbuf = buf, hbytes = 0\<rparr>"

definition CSHA256_Write :: "CSHA256 \<Rightarrow> bytes \<Rightarrow> CSHA256" where
  "CSHA256_Write = hasher_Write 64 sha256_Transform"

definition CSHA256_Finalize :: "CSHA256 \<Rightarrow> bytes \<times> CSHA256" where
  "CSHA256_Finalize h =
     (let sizedesc = WriteBE64 (push_bit 3 (hbytes h));
          pad = 0x80 # replicate 63 0;
          h = CSHA256_Write h (take (1 + (119 - unat (hbytes h) mod 64) mod 64) pad);
          h = CSHA256_Write h sizedesc
      in (concat (map WriteBE32 (hs h)), h))"

definition CSHA256_Reset :: "CSHA256 \<Rightarrow> CSHA256" where
  "CSHA256_Reset h = h\<lparr>hbytes := 0, hs := sha256_Initialize\<rparr>"

section \<open>FIPS 180-4\<close>

definition rotr32 :: "nat \<Rightarrow> u32 \<Rightarrow> u32" where
  "rotr32 n x = word_rotr n x"

definition fips_Ch :: "u32 \<Rightarrow> u32 \<Rightarrow> u32 \<Rightarrow> u32" where
  "fips_Ch x y z = (x AND y) XOR (NOT x AND z)"

definition fips_Maj :: "u32 \<Rightarrow> u32 \<Rightarrow> u32 \<Rightarrow> u32" where
  "fips_Maj x y z = (x AND y) XOR (x AND z) XOR (y AND z)"

definition fips_Round :: "32 round_fun" where
  "fips_Round v k w =
     (let t1 = v ! 7 + (rotr32 6 (v ! 4) XOR rotr32 11 (v ! 4) XOR rotr32 25 (v ! 4)) + fips_Ch (v ! 4) (v ! 5) (v ! 6) + k + w;
          t2 = (rotr32 2 (v ! 0) XOR rotr32 13 (v ! 0) XOR rotr32 22 (v ! 0)) + fips_Maj (v ! 0) (v ! 1) (v ! 2)
      in (v ! 3 + t1, t1 + t2))"

definition sha256_K :: "u32 list" where
  "sha256_K = map (cbrt_frac 32) (take 64 sha_primes)"

definition fips_compress :: "u32 list \<Rightarrow> bytes \<Rightarrow> u32 list" where
  "fips_compress =
     compress fips_Round (\<lambda>x. rotr32 7 x XOR rotr32 18 x XOR drop_bit 3 x)
       (\<lambda>x. rotr32 17 x XOR rotr32 19 x XOR drop_bit 10 x) ReadBE32 4 sha256_K"

definition sha_pad :: "bytes \<Rightarrow> bytes" where
  "sha_pad m = m @ 0x80 # replicate ((119 - length m mod 64) mod 64) 0 @ WriteBE64 (word_of_nat (8 * length m))"

definition sha256 :: "bytes \<Rightarrow> bytes" where
  "sha256 m = concat (map WriteBE32 (absorb 64 fips_compress sha256_Initialize (sha_pad m)))"

section \<open>Facts\<close>

lemma length_sha256_K: "length sha256_K = 64"
  by (simp add: sha256_K_def sha_primes_def)

lemma sha256_calls_shape: "map (\<lambda>(r, k, e). (r, e)) sha256_calls = map (call_shape 4 64) [0..<64]"
  by (simp add: sha256_calls_def call_shape_def canonical_wexp_def place_def upt_rec)

lemma len32: "LENGTH(32) = 32"
  by simp

lemma sha256_calls_constants: "map (\<lambda>(r, k, e). k) sha256_calls = sha256_K"
proof -
  have "list_all2 (\<lambda>(i, p) k. cbrt_check LENGTH(32) i p (unat (k :: u32))) (map (\<lambda>p. (icbrt p, p)) (take 64 sha_primes))
      (map (\<lambda>(r, k, e). k) sha256_calls)"
    by (simp add: sha256_calls_def sha_primes_def cbrt_check_def icbrt.simps)
  from cbrt_fracs [OF this] show ?thesis by (simp only: sha256_K_def map_map o_def prod.case len32)
qed

interpretation sha256: unrolled sha256_Round sha256_sigma0 sha256_sigma1 ReadBE32 4 sha256_K sha256_calls
  by unfold_locales (simp_all only: length_sha256_K sha256_calls_shape sha256_calls_constants, simp)

lemma sha256_Ch_fips: "sha256_Ch = fips_Ch"
  by (intro ext bit_word_eqI) (auto simp: sha256_Ch_def fips_Ch_def bit_simps)

lemma sha256_Maj_fips: "sha256_Maj = fips_Maj"
  by (intro ext bit_word_eqI) (auto simp: sha256_Maj_def fips_Maj_def bit_simps)

lemma rotr32_shifts: "0 < n \<Longrightarrow> n < 32 \<Longrightarrow> rotr32 n x = drop_bit n x OR push_bit (32 - n) x"
  using rotr_shifts [of n x] by (simp add: rotr32_def)

lemma sha256_Round_fips: "sha256_Round = fips_Round"
  by (intro ext)
     (simp add: sha256_Round_def fips_Round_def sha256_Ch_fips sha256_Maj_fips sha256_Sigma0_def sha256_Sigma1_def
        rotr32_shifts)

lemma sha256_Transform_fips:
  assumes "length s = 8"
  shows "sha256_Transform s chunk = fips_compress s chunk"
proof -
  have "sha256_sigma0 = (\<lambda>x. rotr32 7 x XOR rotr32 18 x XOR drop_bit 3 x)"
    "sha256_sigma1 = (\<lambda>x. rotr32 17 x XOR rotr32 19 x XOR drop_bit 10 x)"
    by (simp_all add: fun_eq_iff sha256_sigma0_def sha256_sigma1_def rotr32_shifts)
  then show ?thesis
    unfolding sha256_Transform_def sha256.run_calls_compress [OF assms] fips_compress_def
    by (simp only: sha256_Round_fips)
qed

lemma length_sha256_Transform: "length s = 8 \<Longrightarrow> length (sha256_Transform s chunk) = 8"
  by (simp add: sha256_Transform_fips fips_compress_def length_compress)

lemma absorb_sha256:
  "length s = 8 \<Longrightarrow> absorb B sha256_Transform s m = absorb B fips_compress s m"
  using absorb_cong [where P = "\<lambda>s. length s = 8"] sha256_Transform_fips length_sha256_Transform by blast

interpretation sha256_hasher: block_hash 64 sha256_Transform sha256_Initialize 8
  by unfold_locales simp_all

text \<open>The representation relation of the object.\<close>

definition CSHA256_rep :: "CSHA256 \<Rightarrow> bytes \<Rightarrow> bool" where
  "CSHA256_rep = hasher_rep 64 sha256_Transform sha256_Initialize"

lemma CSHA256_rep_new: "length buf = 64 \<Longrightarrow> CSHA256_rep (CSHA256_new buf) []"
  using sha256_hasher.rep_init by (simp add: CSHA256_rep_def CSHA256_new_def)

lemma CSHA256_rep_Write: "CSHA256_rep h m \<Longrightarrow> CSHA256_rep (CSHA256_Write h d) (m @ d)"
  unfolding CSHA256_rep_def CSHA256_Write_def by (rule sha256_hasher.rep_Write)

lemma CSHA256_rep_Writes: "CSHA256_rep h m \<Longrightarrow> CSHA256_rep (foldl CSHA256_Write h ds) (m @ concat ds)"
  unfolding CSHA256_rep_def CSHA256_Write_def by (rule sha256_hasher.rep_Writes)

lemma CSHA256_Reset_rep: "length (hbuf h) = 64 \<Longrightarrow> CSHA256_rep (CSHA256_Reset h) []"
  using sha256_hasher.rep_init [of "hbuf h"]
  by (simp add: CSHA256_rep_def CSHA256_Reset_def hasher_rep_def)

lemma CSHA256_rep_Finalize:
  assumes "CSHA256_rep h m"
  shows "fst (CSHA256_Finalize h) = sha256 m"
proof -
  let ?pad = "128 # replicate ((119 - length m mod 64) mod 64) (0 :: u8)"
  let ?sz = "WriteBE64 (word_of_nat (8 * length m))"
  have "hbytes h = word_of_nat (length m)" using assms by (simp add: CSHA256_rep_def hasher_rep_def)
  then have sz: "WriteBE64 (push_bit 3 (hbytes h)) = ?sz" by (simp add: size_word)
  have "unat (hbytes h) mod 64 = length m mod 64"
    using assms by (simp only: CSHA256_rep_def sha256_hasher.rep_bytes_mod)
  moreover have "(119 - length m mod 64) mod 64 \<le> 63" using mod_less_divisor [of 64 "119 - length m mod 64"] by linarith
  ultimately have pad: "take (1 + (119 - unat (hbytes h) mod 64) mod 64) (0x80 # replicate 63 0) = ?pad"
    by (simp add: min_def)
  have "hs (CSHA256_Write (CSHA256_Write h ?pad) ?sz) = absorb 64 sha256_Transform sha256_Initialize (m @ ?pad @ ?sz)"
    unfolding CSHA256_Write_def
    using assms by (intro sha256_hasher.rep_padded) (simp_all add: CSHA256_rep_def WriteBE64_def)
  also have "\<dots> = absorb 64 fips_compress sha256_Initialize (sha_pad m)"
    unfolding sha_pad_def by (subst absorb_sha256) (simp_all add: sha256_Initialize_def)
  finally show ?thesis
    unfolding CSHA256_Finalize_def Let_def sz pad sha256_def fst_conv by (simp only:)
qed

lemma CSHA256_Finalize_buffer: "CSHA256_rep h m \<Longrightarrow> length (hbuf (snd (CSHA256_Finalize h))) = 64"
  unfolding CSHA256_Finalize_def Let_def snd_conv
  unfolding CSHA256_rep_def CSHA256_Write_def by (rule sha256_hasher.Writes_buffer)

lemma length_sha256: "length (sha256 m) = 32"
proof -
  have "length (absorb 64 fips_compress sha256_Initialize (sha_pad m)) = 8"
    using absorb_cong [where P = "\<lambda>s. length s = 8" and T = fips_compress and T' = fips_compress]
    by (simp add: fips_compress_def length_compress sha256_Initialize_def)
  then show ?thesis by (simp add: sha256_def length_concat WriteBE32_def o_def sum_list_triv)
qed

section \<open>Properties\<close>

text \<open>The initial value is the one of the standard: the first 32 bits of the fractional parts of the square roots of the first eight primes.\<close>

lemma sha256_initial_value:
  "list_all (\<lambda>(p, r, h). (r * 2 ^ 32 + unat h) ^ 2 \<le> p * 2 ^ 64 \<and> p * 2 ^ 64 < (r * 2 ^ 32 + unat h + 1) ^ 2)
     (zip [2, 3, 5, 7, 11, 13, 17, 19 :: nat] (zip [1, 1, 2, 2, 3, 3, 4, 4] sha256_Initialize))"
  by (simp add: sha256_Initialize_def)

text \<open>
  C14: whatever the buffer held before and however the message is split over the calls to \<open>Write\<close>,
  the constructor, the writes and \<open>Finalize\<close> of \<^verbatim>\<open>CSHA256\<close> return the SHA-256 digest of the whole
  message: the unrolled, register-rotating transform with its window of sixteen words computes the
  FIPS 180-4 schedule and rounds, and the buffering and padding lose no byte.
\<close>

theorem CSHA256_computes_sha256:
  assumes "length buf = 64"
  shows "fst (CSHA256_Finalize (foldl CSHA256_Write (CSHA256_new buf) ds)) = sha256 (concat ds)"
  using CSHA256_rep_Finalize [OF CSHA256_rep_Writes [OF CSHA256_rep_new [OF assms]]] by simp

theorem CSHA256_computes_sha256_witness:
  "fst (CSHA256_Finalize (CSHA256_Write (CSHA256_Write (CSHA256_new (replicate 64 7)) [0x61]) [0x62, 0x63])) =
   sha256 [0x61, 0x62, 0x63]"
  using CSHA256_computes_sha256 [of "replicate 64 7" "[[0x61], [0x62, 0x63]]"] by simp

end
