(* ===== verification/Sha512.thy ===== *)
theory Sha512
  imports Sha2
begin

text \<open>
  \<^verbatim>\<open>src/crypto/sha512.cpp\<close>: the portable \<open>Transform\<close>, and \<^verbatim>\<open>CSHA512\<close> over it. The result is that any
  sequence of \<open>Write\<close> calls followed by \<open>Finalize\<close> yields the SHA-512 digest of the concatenated
  message, as FIPS 180-4 defines it. The 128-bit length
  field has its upper half zero, since \<^verbatim>\<open>bytes\<close> is a 64-bit counter. The AVX2 and ARM variants of
  \<open>Transform\<close> are not modelled.
\<close>

section \<open>The compression function\<close>

definition sha512_Ch :: "u64 \<Rightarrow> u64 \<Rightarrow> u64 \<Rightarrow> u64" where
  "sha512_Ch x y z = z XOR (x AND (y XOR z))"

definition sha512_Maj :: "u64 \<Rightarrow> u64 \<Rightarrow> u64 \<Rightarrow> u64" where
  "sha512_Maj x y z = (x AND y) OR (z AND (x OR y))"

definition sha512_Sigma0 :: "u64 \<Rightarrow> u64" where
  "sha512_Sigma0 x = (drop_bit 28 x OR push_bit 36 x) XOR (drop_bit 34 x OR push_bit 30 x) XOR (drop_bit 39 x OR push_bit 25 x)"

definition sha512_Sigma1 :: "u64 \<Rightarrow> u64" where
  "sha512_Sigma1 x = (drop_bit 14 x OR push_bit 50 x) XOR (drop_bit 18 x OR push_bit 46 x) XOR (drop_bit 41 x OR push_bit 23 x)"

definition sha512_sigma0 :: "u64 \<Rightarrow> u64" where
  "sha512_sigma0 x = (drop_bit 1 x OR push_bit 63 x) XOR (drop_bit 8 x OR push_bit 56 x) XOR drop_bit 7 x"

definition sha512_sigma1 :: "u64 \<Rightarrow> u64" where
  "sha512_sigma1 x = (drop_bit 19 x OR push_bit 45 x) XOR (drop_bit 61 x OR push_bit 3 x) XOR drop_bit 6 x"

text \<open>\<open>Round\<close> on the registers \<open>a, \<dots>, h\<close> in the order of the call, returning the new \<open>d\<close> and \<open>h\<close>.\<close>

definition sha512_Round :: "64 round_fun" where
  "sha512_Round v k w =
     (let t1 = v ! 7 + sha512_Sigma1 (v ! 4) + sha512_Ch (v ! 4) (v ! 5) (v ! 6) + k + w;
          t2 = sha512_Sigma0 (v ! 0) + sha512_Maj (v ! 0) (v ! 1) (v ! 2)
      in (v ! 3 + t1, t1 + t2))"

definition sha512_Initialize :: "u64 list" where
  "sha512_Initialize =
     [0x6a09e667f3bcc908, 0xbb67ae8584caa73b, 0x3c6ef372fe94f82b, 0xa54ff53a5f1d36f1,
      0x510e527fade682d1, 0x9b05688c2b3e6c1f, 0x1f83d9abfb41bd6b, 0x5be0cd19137e2179]"

text \<open>The eighty calls of the portable branch, register \<open>a\<close> being place 0.\<close>

definition sha512_calls :: "64 round_call list" where
  "sha512_calls =
    [([0, 1, 2, 3, 4, 5, 6, 7], 0x428a2f98d728ae22, Load 0 0),
     ([7, 0, 1, 2, 3, 4, 5, 6], 0x7137449123ef65cd, Load 1 8),
     ([6, 7, 0, 1, 2, 3, 4, 5], 0xb5c0fbcfec4d3b2f, Load 2 16),
     ([5, 6, 7, 0, 1, 2, 3, 4], 0xe9b5dba58189dbbc, Load 3 24),
     ([4, 5, 6, 7, 0, 1, 2, 3], 0x3956c25bf348b538, Load 4 32),
     ([3, 4, 5, 6, 7, 0, 1, 2], 0x59f111f1b605d019, Load 5 40),
     ([2, 3, 4, 5, 6, 7, 0, 1], 0x923f82a4af194f9b, Load 6 48),
     ([1, 2, 3, 4, 5, 6, 7, 0], 0xab1c5ed5da6d8118, Load 7 56),
     ([0, 1, 2, 3, 4, 5, 6, 7], 0xd807aa98a3030242, Load 8 64),
     ([7, 0, 1, 2, 3, 4, 5, 6], 0x12835b0145706fbe, Load 9 72),
     ([6, 7, 0, 1, 2, 3, 4, 5], 0x243185be4ee4b28c, Load 10 80),
     ([5, 6, 7, 0, 1, 2, 3, 4], 0x550c7dc3d5ffb4e2, Load 11 88),
     ([4, 5, 6, 7, 0, 1, 2, 3], 0x72be5d74f27b896f, Load 12 96),
     ([3, 4, 5, 6, 7, 0, 1, 2], 0x80deb1fe3b1696b1, Load 13 104),
     ([2, 3, 4, 5, 6, 7, 0, 1], 0x9bdc06a725c71235, Load 14 112),
     ([1, 2, 3, 4, 5, 6, 7, 0], 0xc19bf174cf692694, Load 15 120),
     ([0, 1, 2, 3, 4, 5, 6, 7], 0xe49b69c19ef14ad2, Upd 0 14 9 1),
     ([7, 0, 1, 2, 3, 4, 5, 6], 0xefbe4786384f25e3, Upd 1 15 10 2),
     ([6, 7, 0, 1, 2, 3, 4, 5], 0x0fc19dc68b8cd5b5, Upd 2 0 11 3),
     ([5, 6, 7, 0, 1, 2, 3, 4], 0x240ca1cc77ac9c65, Upd 3 1 12 4),
     ([4, 5, 6, 7, 0, 1, 2, 3], 0x2de92c6f592b0275, Upd 4 2 13 5),
     ([3, 4, 5, 6, 7, 0, 1, 2], 0x4a7484aa6ea6e483, Upd 5 3 14 6),
     ([2, 3, 4, 5, 6, 7, 0, 1], 0x5cb0a9dcbd41fbd4, Upd 6 4 15 7),
     ([1, 2, 3, 4, 5, 6, 7, 0], 0x76f988da831153b5, Upd 7 5 0 8),
     ([0, 1, 2, 3, 4, 5, 6, 7], 0x983e5152ee66dfab, Upd 8 6 1 9),
     ([7, 0, 1, 2, 3, 4, 5, 6], 0xa831c66d2db43210, Upd 9 7 2 10),
     ([6, 7, 0, 1, 2, 3, 4, 5], 0xb00327c898fb213f, Upd 10 8 3 11),
     ([5, 6, 7, 0, 1, 2, 3, 4], 0xbf597fc7beef0ee4, Upd 11 9 4 12),
     ([4, 5, 6, 7, 0, 1, 2, 3], 0xc6e00bf33da88fc2, Upd 12 10 5 13),
     ([3, 4, 5, 6, 7, 0, 1, 2], 0xd5a79147930aa725, Upd 13 11 6 14),
     ([2, 3, 4, 5, 6, 7, 0, 1], 0x06ca6351e003826f, Upd 14 12 7 15),
     ([1, 2, 3, 4, 5, 6, 7, 0], 0x142929670a0e6e70, Upd 15 13 8 0),
     ([0, 1, 2, 3, 4, 5, 6, 7], 0x27b70a8546d22ffc, Upd 0 14 9 1),
     ([7, 0, 1, 2, 3, 4, 5, 6], 0x2e1b21385c26c926, Upd 1 15 10 2),
     ([6, 7, 0, 1, 2, 3, 4, 5], 0x4d2c6dfc5ac42aed, Upd 2 0 11 3),
     ([5, 6, 7, 0, 1, 2, 3, 4], 0x53380d139d95b3df, Upd 3 1 12 4),
     ([4, 5, 6, 7, 0, 1, 2, 3], 0x650a73548baf63de, Upd 4 2 13 5),
     ([3, 4, 5, 6, 7, 0, 1, 2], 0x766a0abb3c77b2a8, Upd 5 3 14 6),
     ([2, 3, 4, 5, 6, 7, 0, 1], 0x81c2c92e47edaee6, Upd 6 4 15 7),
     ([1, 2, 3, 4, 5, 6, 7, 0], 0x92722c851482353b, Upd 7 5 0 8),
     ([0, 1, 2, 3, 4, 5, 6, 7], 0xa2bfe8a14cf10364, Upd 8 6 1 9),
     ([7, 0, 1, 2, 3, 4, 5, 6], 0xa81a664bbc423001, Upd 9 7 2 10),
     ([6, 7, 0, 1, 2, 3, 4, 5], 0xc24b8b70d0f89791, Upd 10 8 3 11),
     ([5, 6, 7, 0, 1, 2, 3, 4], 0xc76c51a30654be30, Upd 11 9 4 12),
     ([4, 5, 6, 7, 0, 1, 2, 3], 0xd192e819d6ef5218, Upd 12 10 5 13),
     ([3, 4, 5, 6, 7, 0, 1, 2], 0xd69906245565a910, Upd 13 11 6 14),
     ([2, 3, 4, 5, 6, 7, 0, 1], 0xf40e35855771202a, Upd 14 12 7 15),
     ([1, 2, 3, 4, 5, 6, 7, 0], 0x106aa07032bbd1b8, Upd 15 13 8 0),
     ([0, 1, 2, 3, 4, 5, 6, 7], 0x19a4c116b8d2d0c8, Upd 0 14 9 1),
     ([7, 0, 1, 2, 3, 4, 5, 6], 0x1e376c085141ab53, Upd 1 15 10 2),
     ([6, 7, 0, 1, 2, 3, 4, 5], 0x2748774cdf8eeb99, Upd 2 0 11 3),
     ([5, 6, 7, 0, 1, 2, 3, 4], 0x34b0bcb5e19b48a8, Upd 3 1 12 4),
     ([4, 5, 6, 7, 0, 1, 2, 3], 0x391c0cb3c5c95a63, Upd 4 2 13 5),
     ([3, 4, 5, 6, 7, 0, 1, 2], 0x4ed8aa4ae3418acb, Upd 5 3 14 6),
     ([2, 3, 4, 5, 6, 7, 0, 1], 0x5b9cca4f7763e373, Upd 6 4 15 7),
     ([1, 2, 3, 4, 5, 6, 7, 0], 0x682e6ff3d6b2b8a3, Upd 7 5 0 8),
     ([0, 1, 2, 3, 4, 5, 6, 7], 0x748f82ee5defb2fc, Upd 8 6 1 9),
     ([7, 0, 1, 2, 3, 4, 5, 6], 0x78a5636f43172f60, Upd 9 7 2 10),
     ([6, 7, 0, 1, 2, 3, 4, 5], 0x84c87814a1f0ab72, Upd 10 8 3 11),
     ([5, 6, 7, 0, 1, 2, 3, 4], 0x8cc702081a6439ec, Upd 11 9 4 12),
     ([4, 5, 6, 7, 0, 1, 2, 3], 0x90befffa23631e28, Upd 12 10 5 13),
     ([3, 4, 5, 6, 7, 0, 1, 2], 0xa4506cebde82bde9, Upd 13 11 6 14),
     ([2, 3, 4, 5, 6, 7, 0, 1], 0xbef9a3f7b2c67915, Upd 14 12 7 15),
     ([1, 2, 3, 4, 5, 6, 7, 0], 0xc67178f2e372532b, Upd 15 13 8 0),
     ([0, 1, 2, 3, 4, 5, 6, 7], 0xca273eceea26619c, Upd 0 14 9 1),
     ([7, 0, 1, 2, 3, 4, 5, 6], 0xd186b8c721c0c207, Upd 1 15 10 2),
     ([6, 7, 0, 1, 2, 3, 4, 5], 0xeada7dd6cde0eb1e, Upd 2 0 11 3),
     ([5, 6, 7, 0, 1, 2, 3, 4], 0xf57d4f7fee6ed178, Upd 3 1 12 4),
     ([4, 5, 6, 7, 0, 1, 2, 3], 0x06f067aa72176fba, Upd 4 2 13 5),
     ([3, 4, 5, 6, 7, 0, 1, 2], 0x0a637dc5a2c898a6, Upd 5 3 14 6),
     ([2, 3, 4, 5, 6, 7, 0, 1], 0x113f9804bef90dae, Upd 6 4 15 7),
     ([1, 2, 3, 4, 5, 6, 7, 0], 0x1b710b35131c471b, Upd 7 5 0 8),
     ([0, 1, 2, 3, 4, 5, 6, 7], 0x28db77f523047d84, Upd 8 6 1 9),
     ([7, 0, 1, 2, 3, 4, 5, 6], 0x32caab7b40c72493, Upd 9 7 2 10),
     ([6, 7, 0, 1, 2, 3, 4, 5], 0x3c9ebe0a15c9bebc, Upd 10 8 3 11),
     ([5, 6, 7, 0, 1, 2, 3, 4], 0x431d67c49c100d4c, Upd 11 9 4 12),
     ([4, 5, 6, 7, 0, 1, 2, 3], 0x4cc5d4becb3e42b6, Upd 12 10 5 13),
     ([3, 4, 5, 6, 7, 0, 1, 2], 0x597f299cfc657e2a, Upd 13 11 6 14),
     ([2, 3, 4, 5, 6, 7, 0, 1], 0x5fcb6fab3ad6faec, Tmp 14 12 7 15),
     ([1, 2, 3, 4, 5, 6, 7, 0], 0x6c44198c4a475817, Tmp 15 13 8 0)]"

definition sha512_Transform :: "u64 list \<Rightarrow> bytes \<Rightarrow> u64 list" where
  "sha512_Transform s chunk = run_calls sha512_Round sha512_sigma0 sha512_sigma1 ReadBE64 sha512_calls s chunk"

section \<open>The hasher object\<close>

type_synonym CSHA512 = "u64 list hasher"

text \<open>The constructor leaves \<open>buf\<close> uninitialised: its content is an argument.\<close>

definition CSHA512_new :: "bytes \<Rightarrow> CSHA512" where
  "CSHA512_new buf = \<lparr>hs = sha512_Initialize, hbuf = buf, hbytes = 0\<rparr>"

definition CSHA512_Write :: "CSHA512 \<Rightarrow> bytes \<Rightarrow> CSHA512" where
  "CSHA512_Write = hasher_Write 128 sha512_Transform"

definition CSHA512_Finalize :: "CSHA512 \<Rightarrow> bytes \<times> CSHA512" where
  "CSHA512_Finalize h =
     (let sizedesc = replicate 8 0 @ WriteBE64 (push_bit 3 (hbytes h));
          pad = 0x80 # replicate 127 0;
          h = CSHA512_Write h (take (1 + (239 - unat (hbytes h) mod 128) mod 128) pad);
          h = CSHA512_Write h sizedesc
      in (concat (map WriteBE64 (hs h)), h))"

definition CSHA512_Reset :: "CSHA512 \<Rightarrow> CSHA512" where
  "CSHA512_Reset h = h\<lparr>hbytes := 0, hs := sha512_Initialize\<rparr>"

section \<open>FIPS 180-4\<close>

definition rotr64 :: "nat \<Rightarrow> u64 \<Rightarrow> u64" where
  "rotr64 n x = word_rotr n x"

definition fips512_Ch :: "u64 \<Rightarrow> u64 \<Rightarrow> u64 \<Rightarrow> u64" where
  "fips512_Ch x y z = (x AND y) XOR (NOT x AND z)"

definition fips512_Maj :: "u64 \<Rightarrow> u64 \<Rightarrow> u64 \<Rightarrow> u64" where
  "fips512_Maj x y z = (x AND y) XOR (x AND z) XOR (y AND z)"

definition fips512_Round :: "64 round_fun" where
  "fips512_Round v k w =
     (let t1 = v ! 7 + (rotr64 14 (v ! 4) XOR rotr64 18 (v ! 4) XOR rotr64 41 (v ! 4)) + fips512_Ch (v ! 4) (v ! 5) (v ! 6) + k + w;
          t2 = (rotr64 28 (v ! 0) XOR rotr64 34 (v ! 0) XOR rotr64 39 (v ! 0)) + fips512_Maj (v ! 0) (v ! 1) (v ! 2)
      in (v ! 3 + t1, t1 + t2))"

definition sha512_K :: "u64 list" where
  "sha512_K = map (cbrt_frac 64) (take 80 sha_primes)"

definition fips512_compress :: "u64 list \<Rightarrow> bytes \<Rightarrow> u64 list" where
  "fips512_compress =
     compress fips512_Round (\<lambda>x. rotr64 1 x XOR rotr64 8 x XOR drop_bit 7 x)
       (\<lambda>x. rotr64 19 x XOR rotr64 61 x XOR drop_bit 6 x) ReadBE64 8 sha512_K"

definition sha512_pad :: "bytes \<Rightarrow> bytes" where
  "sha512_pad m = m @ 0x80 # replicate ((239 - length m mod 128) mod 128) 0 @ replicate 8 0 @ WriteBE64 (word_of_nat (8 * length m))"

definition sha512 :: "bytes \<Rightarrow> bytes" where
  "sha512 m = concat (map WriteBE64 (absorb 128 fips512_compress sha512_Initialize (sha512_pad m)))"

section \<open>Facts\<close>

lemma length_sha512_K: "length sha512_K = 80"
  by (simp add: sha512_K_def sha_primes_def)

lemma sha512_calls_shape: "map (\<lambda>(r, k, e). (r, e)) sha512_calls = map (call_shape 8 80) [0..<80]"
  by (simp add: sha512_calls_def call_shape_def canonical_wexp_def place_def upt_rec)

lemma len64: "LENGTH(64) = 64"
  by simp

lemma sha512_calls_constants: "map (\<lambda>(r, k, e). k) sha512_calls = sha512_K"
proof -
  have "list_all2 (\<lambda>(i, p) k. cbrt_check LENGTH(64) i p (unat (k :: u64))) (map (\<lambda>p. (icbrt p, p)) (take 80 sha_primes))
      (map (\<lambda>(r, k, e). k) sha512_calls)"
    by (simp add: sha512_calls_def sha_primes_def cbrt_check_def icbrt.simps)
  from cbrt_fracs [OF this] show ?thesis by (simp only: sha512_K_def map_map o_def prod.case len64)
qed

interpretation sha512: unrolled sha512_Round sha512_sigma0 sha512_sigma1 ReadBE64 8 sha512_K sha512_calls
  by unfold_locales (simp_all only: length_sha512_K sha512_calls_shape sha512_calls_constants, simp)

lemma sha512_Ch_fips: "sha512_Ch = fips512_Ch"
  by (intro ext bit_word_eqI) (auto simp: sha512_Ch_def fips512_Ch_def bit_simps)

lemma sha512_Maj_fips: "sha512_Maj = fips512_Maj"
  by (intro ext bit_word_eqI) (auto simp: sha512_Maj_def fips512_Maj_def bit_simps)

lemma rotr64_shifts: "0 < n \<Longrightarrow> n < 64 \<Longrightarrow> rotr64 n x = drop_bit n x OR push_bit (64 - n) x"
  using rotr_shifts [of n x] by (simp add: rotr64_def)

lemma sha512_Round_fips: "sha512_Round = fips512_Round"
  by (intro ext)
     (simp add: sha512_Round_def fips512_Round_def sha512_Ch_fips sha512_Maj_fips sha512_Sigma0_def sha512_Sigma1_def
        rotr64_shifts)

lemma sha512_Transform_fips:
  assumes "length s = 8"
  shows "sha512_Transform s chunk = fips512_compress s chunk"
proof -
  have "sha512_sigma0 = (\<lambda>x. rotr64 1 x XOR rotr64 8 x XOR drop_bit 7 x)"
    "sha512_sigma1 = (\<lambda>x. rotr64 19 x XOR rotr64 61 x XOR drop_bit 6 x)"
    by (simp_all add: fun_eq_iff sha512_sigma0_def sha512_sigma1_def rotr64_shifts)
  then show ?thesis
    unfolding sha512_Transform_def sha512.run_calls_compress [OF assms] fips512_compress_def
    by (simp only: sha512_Round_fips)
qed

lemma length_sha512_Transform: "length s = 8 \<Longrightarrow> length (sha512_Transform s chunk) = 8"
  by (simp add: sha512_Transform_fips fips512_compress_def length_compress)

lemma absorb_sha512:
  "length s = 8 \<Longrightarrow> absorb B sha512_Transform s m = absorb B fips512_compress s m"
  using absorb_cong [where P = "\<lambda>s. length s = 8"] sha512_Transform_fips length_sha512_Transform by blast

interpretation sha512_hasher: block_hash 128 sha512_Transform sha512_Initialize 16
  by unfold_locales simp_all

text \<open>The representation relation of the object.\<close>

definition CSHA512_rep :: "CSHA512 \<Rightarrow> bytes \<Rightarrow> bool" where
  "CSHA512_rep = hasher_rep 128 sha512_Transform sha512_Initialize"

lemma CSHA512_rep_new: "length buf = 128 \<Longrightarrow> CSHA512_rep (CSHA512_new buf) []"
  using sha512_hasher.rep_init by (simp add: CSHA512_rep_def CSHA512_new_def)

lemma CSHA512_rep_Write: "CSHA512_rep h m \<Longrightarrow> CSHA512_rep (CSHA512_Write h d) (m @ d)"
  unfolding CSHA512_rep_def CSHA512_Write_def by (rule sha512_hasher.rep_Write)

lemma CSHA512_rep_Writes: "CSHA512_rep h m \<Longrightarrow> CSHA512_rep (foldl CSHA512_Write h ds) (m @ concat ds)"
  unfolding CSHA512_rep_def CSHA512_Write_def by (rule sha512_hasher.rep_Writes)

lemma CSHA512_Reset_rep: "length (hbuf h) = 128 \<Longrightarrow> CSHA512_rep (CSHA512_Reset h) []"
  using sha512_hasher.rep_init [of "hbuf h"]
  by (simp add: CSHA512_rep_def CSHA512_Reset_def hasher_rep_def)

lemma CSHA512_rep_Finalize:
  assumes "CSHA512_rep h m"
  shows "fst (CSHA512_Finalize h) = sha512 m"
proof -
  let ?pad = "128 # replicate ((239 - length m mod 128) mod 128) (0 :: u8)"
  let ?sz = "replicate 8 0 @ WriteBE64 (word_of_nat (8 * length m))"
  have "hbytes h = word_of_nat (length m)" using assms by (simp add: CSHA512_rep_def hasher_rep_def)
  then have sz: "replicate 8 0 @ WriteBE64 (push_bit 3 (hbytes h)) = ?sz" by (simp add: size_word)
  have "unat (hbytes h) mod 128 = length m mod 128"
    using assms by (simp only: CSHA512_rep_def sha512_hasher.rep_bytes_mod)
  moreover have "(239 - length m mod 128) mod 128 \<le> 127" using mod_less_divisor [of 128 "239 - length m mod 128"] by linarith
  ultimately have pad: "take (1 + (239 - unat (hbytes h) mod 128) mod 128) (0x80 # replicate 127 0) = ?pad"
    by (simp add: min_def)
  have "hs (CSHA512_Write (CSHA512_Write h ?pad) ?sz) = absorb 128 sha512_Transform sha512_Initialize (m @ ?pad @ ?sz)"
    unfolding CSHA512_Write_def
    using assms by (intro sha512_hasher.rep_padded) (simp_all add: CSHA512_rep_def WriteBE64_def)
  also have "\<dots> = absorb 128 fips512_compress sha512_Initialize (sha512_pad m)"
    unfolding sha512_pad_def by (subst absorb_sha512) (simp_all add: sha512_Initialize_def)
  finally show ?thesis
    unfolding CSHA512_Finalize_def Let_def sz pad sha512_def fst_conv by (simp only:)
qed

lemma CSHA512_Finalize_buffer: "CSHA512_rep h m \<Longrightarrow> length (hbuf (snd (CSHA512_Finalize h))) = 128"
  unfolding CSHA512_Finalize_def Let_def snd_conv
  unfolding CSHA512_rep_def CSHA512_Write_def by (rule sha512_hasher.Writes_buffer)

lemma length_sha512: "length (sha512 m) = 64"
proof -
  have "length (absorb 128 fips512_compress sha512_Initialize (sha512_pad m)) = 8"
    using absorb_cong [where P = "\<lambda>s. length s = 8" and T = fips512_compress and T' = fips512_compress]
    by (simp add: fips512_compress_def length_compress sha512_Initialize_def)
  then show ?thesis by (simp add: sha512_def length_concat WriteBE64_def o_def sum_list_triv)
qed

end
