(* ===== verification/Ripemd160.thy ===== *)
theory Ripemd160
  imports Rounds
begin

text \<open>
  \<^verbatim>\<open>src/crypto/ripemd160.cpp\<close>: \<open>Transform\<close>, whose two lines of eighty rounds are written as 160
  interleaved calls, and \<^verbatim>\<open>CRIPEMD160\<close> over it. The reference is the RIPEMD-160 definition by tables of
  message-word selections and rotation amounts.
\<close>

section \<open>The compression function\<close>

definition rmd_f1 :: "u32 \<Rightarrow> u32 \<Rightarrow> u32 \<Rightarrow> u32" where "rmd_f1 x y z = x XOR y XOR z"
definition rmd_f2 :: "u32 \<Rightarrow> u32 \<Rightarrow> u32 \<Rightarrow> u32" where "rmd_f2 x y z = (x AND y) OR (NOT x AND z)"
definition rmd_f3 :: "u32 \<Rightarrow> u32 \<Rightarrow> u32 \<Rightarrow> u32" where "rmd_f3 x y z = (x OR NOT y) XOR z"
definition rmd_f4 :: "u32 \<Rightarrow> u32 \<Rightarrow> u32 \<Rightarrow> u32" where "rmd_f4 x y z = (x AND z) OR (y AND NOT z)"
definition rmd_f5 :: "u32 \<Rightarrow> u32 \<Rightarrow> u32 \<Rightarrow> u32" where "rmd_f5 x y z = x XOR (y OR NOT z)"

definition rmd_Initialize :: "u32 list" where
  "rmd_Initialize = [0x67452301, 0xEFCDAB89, 0x98BADCFE, 0x10325476, 0xC3D2E1F0]"

definition rmd_rol :: "u32 \<Rightarrow> nat \<Rightarrow> u32" where
  "rmd_rol x i = push_bit i x OR drop_bit (32 - i) x"

text \<open>\<open>Round\<close> returns the new \<open>a\<close> and \<open>c\<close>.\<close>

definition rmd_Round :: "u32 \<Rightarrow> u32 \<Rightarrow> u32 \<Rightarrow> u32 \<Rightarrow> u32 \<Rightarrow> u32 \<Rightarrow> u32 \<Rightarrow> u32 \<Rightarrow> nat \<Rightarrow> u32 \<times> u32" where
  "rmd_Round a b c d e f x k r = (rmd_rol (a + f + x + k) r + e, rmd_rol c 10)"

datatype rmd_round = R11 | R21 | R31 | R41 | R51 | R12 | R22 | R32 | R42 | R52

primrec rmd_R :: "rmd_round \<Rightarrow> u32 \<Rightarrow> u32 \<Rightarrow> u32 \<Rightarrow> u32 \<Rightarrow> u32 \<Rightarrow> u32 \<Rightarrow> nat \<Rightarrow> u32 \<times> u32" where
  "rmd_R R11 a b c d e x r = rmd_Round a b c d e (rmd_f1 b c d) x 0 r"
| "rmd_R R21 a b c d e x r = rmd_Round a b c d e (rmd_f2 b c d) x 0x5A827999 r"
| "rmd_R R31 a b c d e x r = rmd_Round a b c d e (rmd_f3 b c d) x 0x6ED9EBA1 r"
| "rmd_R R41 a b c d e x r = rmd_Round a b c d e (rmd_f4 b c d) x 0x8F1BBCDC r"
| "rmd_R R51 a b c d e x r = rmd_Round a b c d e (rmd_f5 b c d) x 0xA953FD4E r"
| "rmd_R R12 a b c d e x r = rmd_Round a b c d e (rmd_f5 b c d) x 0x50A28BE6 r"
| "rmd_R R22 a b c d e x r = rmd_Round a b c d e (rmd_f4 b c d) x 0x5C4DD124 r"
| "rmd_R R32 a b c d e x r = rmd_Round a b c d e (rmd_f3 b c d) x 0x6D703EF3 r"
| "rmd_R R42 a b c d e x r = rmd_Round a b c d e (rmd_f2 b c d) x 0x7A6D76E9 r"
| "rmd_R R52 a b c d e x r = rmd_Round a b c d e (rmd_f1 b c d) x 0 r"

text \<open>Which of the two sets of registers \<open>a1, \<dots>, e1\<close> and \<open>a2, \<dots>, e2\<close> a call names.\<close>

definition rmd_second :: "rmd_round \<Rightarrow> bool" where
  "rmd_second t \<longleftrightarrow> t = R12 \<or> t = R22 \<or> t = R32 \<or> t = R42 \<or> t = R52"

type_synonym rmd_call = "rmd_round \<times> nat list \<times> nat \<times> nat"

definition rmd_calls :: "rmd_call list" where
  "rmd_calls =
    [(R11, [0, 1, 2, 3, 4], 0, 11),
     (R12, [0, 1, 2, 3, 4], 5, 8),
     (R11, [4, 0, 1, 2, 3], 1, 14),
     (R12, [4, 0, 1, 2, 3], 14, 9),
     (R11, [3, 4, 0, 1, 2], 2, 15),
     (R12, [3, 4, 0, 1, 2], 7, 9),
     (R11, [2, 3, 4, 0, 1], 3, 12),
     (R12, [2, 3, 4, 0, 1], 0, 11),
     (R11, [1, 2, 3, 4, 0], 4, 5),
     (R12, [1, 2, 3, 4, 0], 9, 13),
     (R11, [0, 1, 2, 3, 4], 5, 8),
     (R12, [0, 1, 2, 3, 4], 2, 15),
     (R11, [4, 0, 1, 2, 3], 6, 7),
     (R12, [4, 0, 1, 2, 3], 11, 15),
     (R11, [3, 4, 0, 1, 2], 7, 9),
     (R12, [3, 4, 0, 1, 2], 4, 5),
     (R11, [2, 3, 4, 0, 1], 8, 11),
     (R12, [2, 3, 4, 0, 1], 13, 7),
     (R11, [1, 2, 3, 4, 0], 9, 13),
     (R12, [1, 2, 3, 4, 0], 6, 7),
     (R11, [0, 1, 2, 3, 4], 10, 14),
     (R12, [0, 1, 2, 3, 4], 15, 8),
     (R11, [4, 0, 1, 2, 3], 11, 15),
     (R12, [4, 0, 1, 2, 3], 8, 11),
     (R11, [3, 4, 0, 1, 2], 12, 6),
     (R12, [3, 4, 0, 1, 2], 1, 14),
     (R11, [2, 3, 4, 0, 1], 13, 7),
     (R12, [2, 3, 4, 0, 1], 10, 14),
     (R11, [1, 2, 3, 4, 0], 14, 9),
     (R12, [1, 2, 3, 4, 0], 3, 12),
     (R11, [0, 1, 2, 3, 4], 15, 8),
     (R12, [0, 1, 2, 3, 4], 12, 6),
     (R21, [4, 0, 1, 2, 3], 7, 7),
     (R22, [4, 0, 1, 2, 3], 6, 9),
     (R21, [3, 4, 0, 1, 2], 4, 6),
     (R22, [3, 4, 0, 1, 2], 11, 13),
     (R21, [2, 3, 4, 0, 1], 13, 8),
     (R22, [2, 3, 4, 0, 1], 3, 15),
     (R21, [1, 2, 3, 4, 0], 1, 13),
     (R22, [1, 2, 3, 4, 0], 7, 7),
     (R21, [0, 1, 2, 3, 4], 10, 11),
     (R22, [0, 1, 2, 3, 4], 0, 12),
     (R21, [4, 0, 1, 2, 3], 6, 9),
     (R22, [4, 0, 1, 2, 3], 13, 8),
     (R21, [3, 4, 0, 1, 2], 15, 7),
     (R22, [3, 4, 0, 1, 2], 5, 9),
     (R21, [2, 3, 4, 0, 1], 3, 15),
     (R22, [2, 3, 4, 0, 1], 10, 11),
     (R21, [1, 2, 3, 4, 0], 12, 7),
     (R22, [1, 2, 3, 4, 0], 14, 7),
     (R21, [0, 1, 2, 3, 4], 0, 12),
     (R22, [0, 1, 2, 3, 4], 15, 7),
     (R21, [4, 0, 1, 2, 3], 9, 15),
     (R22, [4, 0, 1, 2, 3], 8, 12),
     (R21, [3, 4, 0, 1, 2], 5, 9),
     (R22, [3, 4, 0, 1, 2], 12, 7),
     (R21, [2, 3, 4, 0, 1], 2, 11),
     (R22, [2, 3, 4, 0, 1], 4, 6),
     (R21, [1, 2, 3, 4, 0], 14, 7),
     (R22, [1, 2, 3, 4, 0], 9, 15),
     (R21, [0, 1, 2, 3, 4], 11, 13),
     (R22, [0, 1, 2, 3, 4], 1, 13),
     (R21, [4, 0, 1, 2, 3], 8, 12),
     (R22, [4, 0, 1, 2, 3], 2, 11),
     (R31, [3, 4, 0, 1, 2], 3, 11),
     (R32, [3, 4, 0, 1, 2], 15, 9),
     (R31, [2, 3, 4, 0, 1], 10, 13),
     (R32, [2, 3, 4, 0, 1], 5, 7),
     (R31, [1, 2, 3, 4, 0], 14, 6),
     (R32, [1, 2, 3, 4, 0], 1, 15),
     (R31, [0, 1, 2, 3, 4], 4, 7),
     (R32, [0, 1, 2, 3, 4], 3, 11),
     (R31, [4, 0, 1, 2, 3], 9, 14),
     (R32, [4, 0, 1, 2, 3], 7, 8),
     (R31, [3, 4, 0, 1, 2], 15, 9),
     (R32, [3, 4, 0, 1, 2], 14, 6),
     (R31, [2, 3, 4, 0, 1], 8, 13),
     (R32, [2, 3, 4, 0, 1], 6, 6),
     (R31, [1, 2, 3, 4, 0], 1, 15),
     (R32, [1, 2, 3, 4, 0], 9, 14),
     (R31, [0, 1, 2, 3, 4], 2, 14),
     (R32, [0, 1, 2, 3, 4], 11, 12),
     (R31, [4, 0, 1, 2, 3], 7, 8),
     (R32, [4, 0, 1, 2, 3], 8, 13),
     (R31, [3, 4, 0, 1, 2], 0, 13),
     (R32, [3, 4, 0, 1, 2], 12, 5),
     (R31, [2, 3, 4, 0, 1], 6, 6),
     (R32, [2, 3, 4, 0, 1], 2, 14),
     (R31, [1, 2, 3, 4, 0], 13, 5),
     (R32, [1, 2, 3, 4, 0], 10, 13),
     (R31, [0, 1, 2, 3, 4], 11, 12),
     (R32, [0, 1, 2, 3, 4], 0, 13),
     (R31, [4, 0, 1, 2, 3], 5, 7),
     (R32, [4, 0, 1, 2, 3], 4, 7),
     (R31, [3, 4, 0, 1, 2], 12, 5),
     (R32, [3, 4, 0, 1, 2], 13, 5),
     (R41, [2, 3, 4, 0, 1], 1, 11),
     (R42, [2, 3, 4, 0, 1], 8, 15),
     (R41, [1, 2, 3, 4, 0], 9, 12),
     (R42, [1, 2, 3, 4, 0], 6, 5),
     (R41, [0, 1, 2, 3, 4], 11, 14),
     (R42, [0, 1, 2, 3, 4], 4, 8),
     (R41, [4, 0, 1, 2, 3], 10, 15),
     (R42, [4, 0, 1, 2, 3], 1, 11),
     (R41, [3, 4, 0, 1, 2], 0, 14),
     (R42, [3, 4, 0, 1, 2], 3, 14),
     (R41, [2, 3, 4, 0, 1], 8, 15),
     (R42, [2, 3, 4, 0, 1], 11, 14),
     (R41, [1, 2, 3, 4, 0], 12, 9),
     (R42, [1, 2, 3, 4, 0], 15, 6),
     (R41, [0, 1, 2, 3, 4], 4, 8),
     (R42, [0, 1, 2, 3, 4], 0, 14),
     (R41, [4, 0, 1, 2, 3], 13, 9),
     (R42, [4, 0, 1, 2, 3], 5, 6),
     (R41, [3, 4, 0, 1, 2], 3, 14),
     (R42, [3, 4, 0, 1, 2], 12, 9),
     (R41, [2, 3, 4, 0, 1], 7, 5),
     (R42, [2, 3, 4, 0, 1], 2, 12),
     (R41, [1, 2, 3, 4, 0], 15, 6),
     (R42, [1, 2, 3, 4, 0], 13, 9),
     (R41, [0, 1, 2, 3, 4], 14, 8),
     (R42, [0, 1, 2, 3, 4], 9, 12),
     (R41, [4, 0, 1, 2, 3], 5, 6),
     (R42, [4, 0, 1, 2, 3], 7, 5),
     (R41, [3, 4, 0, 1, 2], 6, 5),
     (R42, [3, 4, 0, 1, 2], 10, 15),
     (R41, [2, 3, 4, 0, 1], 2, 12),
     (R42, [2, 3, 4, 0, 1], 14, 8),
     (R51, [1, 2, 3, 4, 0], 4, 9),
     (R52, [1, 2, 3, 4, 0], 12, 8),
     (R51, [0, 1, 2, 3, 4], 0, 15),
     (R52, [0, 1, 2, 3, 4], 15, 5),
     (R51, [4, 0, 1, 2, 3], 5, 5),
     (R52, [4, 0, 1, 2, 3], 10, 12),
     (R51, [3, 4, 0, 1, 2], 9, 11),
     (R52, [3, 4, 0, 1, 2], 4, 9),
     (R51, [2, 3, 4, 0, 1], 7, 6),
     (R52, [2, 3, 4, 0, 1], 1, 12),
     (R51, [1, 2, 3, 4, 0], 12, 8),
     (R52, [1, 2, 3, 4, 0], 5, 5),
     (R51, [0, 1, 2, 3, 4], 2, 13),
     (R52, [0, 1, 2, 3, 4], 8, 14),
     (R51, [4, 0, 1, 2, 3], 10, 12),
     (R52, [4, 0, 1, 2, 3], 7, 6),
     (R51, [3, 4, 0, 1, 2], 14, 5),
     (R52, [3, 4, 0, 1, 2], 6, 8),
     (R51, [2, 3, 4, 0, 1], 1, 12),
     (R52, [2, 3, 4, 0, 1], 2, 13),
     (R51, [1, 2, 3, 4, 0], 3, 13),
     (R52, [1, 2, 3, 4, 0], 13, 6),
     (R51, [0, 1, 2, 3, 4], 8, 14),
     (R52, [0, 1, 2, 3, 4], 14, 5),
     (R51, [4, 0, 1, 2, 3], 11, 11),
     (R52, [4, 0, 1, 2, 3], 0, 15),
     (R51, [3, 4, 0, 1, 2], 6, 8),
     (R52, [3, 4, 0, 1, 2], 3, 13),
     (R51, [2, 3, 4, 0, 1], 15, 5),
     (R52, [2, 3, 4, 0, 1], 9, 11),
     (R51, [1, 2, 3, 4, 0], 13, 6),
     (R52, [1, 2, 3, 4, 0], 11, 11)]"

definition rmd_step :: "u32 list \<Rightarrow> u32 list \<Rightarrow> rmd_call \<Rightarrow> u32 list" where
  "rmd_step w v cl =
     (let (t, rg, i, r) = cl;
          (a, c) = rmd_R t (v ! (rg ! 0)) (v ! (rg ! 1)) (v ! (rg ! 2)) (v ! (rg ! 3)) (v ! (rg ! 4)) (w ! i) r
      in v[rg ! 0 := a, rg ! 2 := c])"

definition rmd_exec_call :: "u32 list \<Rightarrow> u32 list \<times> u32 list \<Rightarrow> rmd_call \<Rightarrow> u32 list \<times> u32 list" where
  "rmd_exec_call w st cl =
     (if rmd_second (fst cl) then (fst st, rmd_step w (snd st) cl) else (rmd_step w (fst st) cl, snd st))"

definition rmd_Transform :: "u32 list \<Rightarrow> bytes \<Rightarrow> u32 list" where
  "rmd_Transform s chunk =
     (let w = map (\<lambda>i. ReadLE32 (drop (4 * i) chunk)) [0..<16];
          (v1, v2) = foldl (rmd_exec_call w) (s, s) rmd_calls
      in [s ! 1 + v1 ! 2 + v2 ! 3, s ! 2 + v1 ! 3 + v2 ! 4, s ! 3 + v1 ! 4 + v2 ! 0,
          s ! 4 + v1 ! 0 + v2 ! 1, s ! 0 + v1 ! 1 + v2 ! 2])"

section \<open>The hasher object\<close>

type_synonym CRIPEMD160 = "u32 list hasher"

definition CRIPEMD160_new :: "bytes \<Rightarrow> CRIPEMD160" where
  "CRIPEMD160_new buf = \<lparr>hs = rmd_Initialize, hbuf = buf, hbytes = 0\<rparr>"

definition CRIPEMD160_Write :: "CRIPEMD160 \<Rightarrow> bytes \<Rightarrow> CRIPEMD160" where
  "CRIPEMD160_Write = hasher_Write 64 rmd_Transform"

definition CRIPEMD160_Finalize :: "CRIPEMD160 \<Rightarrow> bytes \<times> CRIPEMD160" where
  "CRIPEMD160_Finalize h =
     (let sizedesc = WriteLE64 (push_bit 3 (hbytes h));
          pad = 0x80 # replicate 63 0;
          h = CRIPEMD160_Write h (take (1 + (119 - unat (hbytes h) mod 64) mod 64) pad);
          h = CRIPEMD160_Write h sizedesc
      in (concat (map WriteLE32 (hs h)), h))"

definition CRIPEMD160_Reset :: "CRIPEMD160 \<Rightarrow> CRIPEMD160" where
  "CRIPEMD160_Reset h = h\<lparr>hbytes := 0, hs := rmd_Initialize\<rparr>"

section \<open>RIPEMD-160\<close>

definition rmd_f :: "nat \<Rightarrow> u32 \<Rightarrow> u32 \<Rightarrow> u32 \<Rightarrow> u32" where
  "rmd_f j x y z =
     (if j < 16 then x XOR y XOR z
      else if j < 32 then (x AND y) OR (NOT x AND z)
      else if j < 48 then (x OR NOT y) XOR z
      else if j < 64 then (x AND z) OR (y AND NOT z)
      else x XOR (y OR NOT z))"

definition rmd_K :: "nat \<Rightarrow> u32" where
  "rmd_K j = [0, 0x5A827999, 0x6ED9EBA1, 0x8F1BBCDC, 0xA953FD4E] ! (j div 16)"

definition rmd_K' :: "nat \<Rightarrow> u32" where
  "rmd_K' j = [0x50A28BE6, 0x5C4DD124, 0x6D703EF3, 0x7A6D76E9, 0] ! (j div 16)"

text \<open>
  The selection of message words: the left line starts with the identity and the right line with
  \<open>\<pi>(i) = 9i + 5 mod 16\<close>, and each group of sixteen rounds applies the permutation \<open>\<rho>\<close> once more. The
  rotation amounts depend on the group and on the selected word, alike for both lines.
\<close>

definition rmd_rho :: "nat list" where
  "rmd_rho = [7, 4, 13, 1, 10, 6, 15, 3, 12, 0, 9, 5, 2, 14, 11, 8]"

primrec rho_iter :: "nat \<Rightarrow> nat \<Rightarrow> nat" where
  "rho_iter 0 i = i"
| "rho_iter (Suc k) i = rmd_rho ! rho_iter k i"

definition rmd_r :: "nat \<Rightarrow> nat" where
  "rmd_r j = rho_iter (j div 16) (j mod 16)"

definition rmd_r' :: "nat \<Rightarrow> nat" where
  "rmd_r' j = rho_iter (j div 16) ((9 * (j mod 16) + 5) mod 16)"

definition rmd_shifts :: "nat list list" where
  "rmd_shifts =
    [[11, 14, 15, 12, 5, 8, 7, 9, 11, 13, 14, 15, 6, 7, 9, 8],
     [12, 13, 11, 15, 6, 9, 9, 7, 12, 15, 11, 13, 7, 8, 7, 7],
     [13, 15, 14, 11, 7, 7, 6, 8, 13, 14, 13, 12, 5, 5, 6, 9],
     [14, 11, 12, 14, 8, 6, 5, 5, 15, 12, 15, 14, 9, 9, 8, 6],
     [15, 12, 13, 13, 9, 5, 8, 6, 14, 11, 12, 11, 8, 6, 5, 5]]"

definition rmd_s :: "(nat \<Rightarrow> nat) \<Rightarrow> nat \<Rightarrow> nat" where
  "rmd_s r j = rmd_shifts ! (j div 16) ! r j"

text \<open>One line: function, constants, word selection and rotations by round, on shifting registers.\<close>

primrec rmd_line ::
    "(nat \<Rightarrow> u32 \<Rightarrow> u32 \<Rightarrow> u32 \<Rightarrow> u32) \<Rightarrow> (nat \<Rightarrow> u32) \<Rightarrow> (nat \<Rightarrow> nat) \<Rightarrow> (nat \<Rightarrow> nat) \<Rightarrow> u32 list \<Rightarrow> u32 list \<Rightarrow> nat \<Rightarrow> u32 list" where
  "rmd_line f K r s X A 0 = A"
| "rmd_line f K r s X A (Suc j) =
     (let A = rmd_line f K r s X A j
      in [A ! 4, word_rotl (s j) (A ! 0 + f j (A ! 1) (A ! 2) (A ! 3) + X ! r j + K j) + A ! 4,
          A ! 1, word_rotl 10 (A ! 2), A ! 3])"

definition rmd_compress :: "u32 list \<Rightarrow> bytes \<Rightarrow> u32 list" where
  "rmd_compress h chunk =
     (let X = map (\<lambda>i. ReadLE32 (drop (4 * i) chunk)) [0..<16];
          A = rmd_line rmd_f rmd_K rmd_r (rmd_s rmd_r) X h 80;
          A' = rmd_line (\<lambda>j. rmd_f (79 - j)) rmd_K' rmd_r' (rmd_s rmd_r') X h 80
      in [h ! 1 + A ! 2 + A' ! 3, h ! 2 + A ! 3 + A' ! 4, h ! 3 + A ! 4 + A' ! 0,
          h ! 4 + A ! 0 + A' ! 1, h ! 0 + A ! 1 + A' ! 2])"

definition rmd_pad :: "bytes \<Rightarrow> bytes" where
  "rmd_pad m = m @ 0x80 # replicate ((119 - length m mod 64) mod 64) 0 @ WriteLE64 (word_of_nat (8 * length m))"

definition ripemd160 :: "bytes \<Rightarrow> bytes" where
  "ripemd160 m = concat (map WriteLE32 (absorb 64 rmd_compress rmd_Initialize (rmd_pad m)))"

section \<open>Facts\<close>

text \<open>The interleaved calls act on the two lines independently.\<close>

lemma foldl_rmd_exec_call:
  "foldl (rmd_exec_call w) (v1, v2) cs =
     (foldl (rmd_step w) v1 (filter (\<lambda>c. \<not> rmd_second (fst c)) cs), foldl (rmd_step w) v2 (filter (\<lambda>c. rmd_second (fst c)) cs))"
  by (induction cs arbitrary: v1 v2) (simp_all add: rmd_exec_call_def)

definition rmd_shape :: "(nat \<Rightarrow> nat) \<Rightarrow> (nat \<Rightarrow> nat) \<Rightarrow> nat \<Rightarrow> nat list \<times> nat \<times> nat" where
  "rmd_shape r s i = (map (place 5 i) [0..<5], r i, s i)"

lemma rho_iters:
  "rho_iter (Suc 0) i = rmd_rho ! i" "rho_iter 2 i = rmd_rho ! (rmd_rho ! i)"
  "rho_iter 3 i = rmd_rho ! (rmd_rho ! (rmd_rho ! i))" "rho_iter 4 i = rmd_rho ! (rmd_rho ! (rmd_rho ! (rmd_rho ! i)))"
  by (simp_all add: numeral_eq_Suc)

lemma rmd_calls_first:
  "filter (\<lambda>c. \<not> rmd_second (fst c)) rmd_calls =
   map (\<lambda>i. ([R11, R21, R31, R41, R51] ! (i div 16), rmd_shape rmd_r (rmd_s rmd_r) i)) [0..<80]"
  by (simp add: rmd_calls_def rmd_second_def rmd_shape_def rmd_r_def rmd_s_def rmd_shifts_def rho_iters rmd_rho_def place_def upt_rec)

lemma rmd_calls_second:
  "filter (\<lambda>c. rmd_second (fst c)) rmd_calls =
   map (\<lambda>i. ([R12, R22, R32, R42, R52] ! (i div 16), rmd_shape rmd_r' (rmd_s rmd_r') i)) [0..<80]"
  by (simp add: rmd_calls_def rmd_second_def rmd_shape_def rmd_r'_def rmd_s_def rmd_shifts_def rho_iters rmd_rho_def place_def upt_rec)

lemma rmd_line_round:
  assumes "length A = 5" and "0 < r" "r < 32" and ac: "rmd_Round (A ! 0) (A ! 1) (A ! 2) (A ! 3) (A ! 4) f x k r = (a, c)"
  shows "[A ! 4, word_rotl r (A ! 0 + f + x + k) + A ! 4, A ! 1, word_rotl 10 (A ! 2), A ! 3] =
    last (A[0 := a, 2 := c]) # butlast (A[0 := a, 2 := c])"
proof -
  obtain p q t u e where A: "A = [p, q, t, u, e]"
    using assms(1) by (auto simp: length_Suc_conv numeral_eq_Suc)
  then show ?thesis using ac assms(2,3) by (auto simp: rmd_Round_def rmd_rol_def rotl32_shifts)
qed

lemma length_rmd_line: "length A = 5 \<Longrightarrow> length (rmd_line f K r s X A j) = 5"
  by (induction j) (simp_all add: Let_def)

lemma rmd_line_simulate:
  assumes len: "length v = 5" and s: "\<And>i. i < 80 \<Longrightarrow> 0 < s i \<and> s i < 32"
    and R: "\<And>i a b c d e x rr. i < 80 \<Longrightarrow> rmd_R (t i) a b c d e x rr = rmd_Round a b c d e (f i b c d) x (K i) rr"
    and "n \<le> 80"
  shows "holds 5 n (foldl (rmd_step X) v (map (\<lambda>i. (t i, rmd_shape r s i)) [0..<n])) (rmd_line f K r s X v n)"
  using assms(4)
proof (induction n)
  case 0
  then show ?case using len by (simp add: holds_0)
next
  case (Suc n)
  let ?A = "rmd_line f K r s X v n" and ?v = "foldl (rmd_step X) v (map (\<lambda>i. (t i, rmd_shape r s i)) [0..<n])"
  from Suc have IH: "holds 5 n ?v ?A" by simp
  then have v: "?v ! place 5 n j = ?A ! j" if "j < 5" for j using that by (simp add: holds_def)
  have sn: "0 < s n" "s n < 32" using s [of n] Suc.prems by simp_all
  obtain a c where ac: "rmd_Round (?A ! 0) (?A ! 1) (?A ! 2) (?A ! 3) (?A ! 4) (f n (?A ! 1) (?A ! 2) (?A ! 3)) (X ! r n) (K n) (s n) = (a, c)"
    by fastforce
  have "[0..<5] = [0, 1, 2, 3, 4]" by (simp add: upt_rec)
  then have step: "rmd_step X ?v (t n, rmd_shape r s n) = ?v[place 5 n 0 := a, place 5 n 2 := c]"
    using ac Suc.prems by (simp add: rmd_step_def rmd_shape_def [of r s n] v R)
  have "holds 5 n (?v[place 5 n 0 := a, place 5 n 2 := c]) (?A[0 := a, 2 := c])"
    by (intro holds_update IH) simp_all
  then have "holds 5 (Suc n) (?v[place 5 n 0 := a, place 5 n 2 := c]) (last (?A[0 := a, 2 := c]) # butlast (?A[0 := a, 2 := c]))"
    by (rule holds_rotate) simp
  moreover have "rmd_line f K r s X v (Suc n) = last (?A[0 := a, 2 := c]) # butlast (?A[0 := a, 2 := c])"
    unfolding rmd_line.simps Let_def using length_rmd_line [OF len] sn ac by (rule rmd_line_round)
  ultimately show ?case using step by simp
qed

lemma less_80_cases: "i < 80 \<Longrightarrow> i div 16 = 0 \<or> i div 16 = 1 \<or> i div 16 = 2 \<or> i div 16 = 3 \<or> i div 16 = (4::nat)"
  by linarith

lemma rmd_R_first:
  assumes "i < 80"
  shows "rmd_R ([R11, R21, R31, R41, R51] ! (i div 16)) a b c d e x r = rmd_Round a b c d e (rmd_f i b c d) x (rmd_K i) r"
  using less_80_cases [OF assms]
  by (elim disjE; simp add: rmd_K_def rmd_f_def rmd_f1_def rmd_f2_def rmd_f3_def rmd_f4_def rmd_f5_def; linarith?)

lemma rmd_R_second:
  assumes "i < 80"
  shows "rmd_R ([R12, R22, R32, R42, R52] ! (i div 16)) a b c d e x r = rmd_Round a b c d e (rmd_f (79 - i) b c d) x (rmd_K' i) r"
  using less_80_cases [OF assms]
  by (elim disjE; simp add: rmd_K'_def rmd_f_def rmd_f1_def rmd_f2_def rmd_f3_def rmd_f4_def rmd_f5_def; linarith?)

lemma rmd_s_bounds:
  assumes "i < 80"
  shows "0 < rmd_s rmd_r i \<and> rmd_s rmd_r i < 32" and "0 < rmd_s rmd_r' i \<and> rmd_s rmd_r' i < 32"
proof -
  have "list_all (\<lambda>i. 0 < rmd_s rmd_r i \<and> rmd_s rmd_r i < 32 \<and> 0 < rmd_s rmd_r' i \<and> rmd_s rmd_r' i < 32) [0..<80]"
    by (simp add: upt_rec rmd_s_def rmd_r_def rmd_r'_def rmd_shifts_def rho_iters rmd_rho_def)
  then show "0 < rmd_s rmd_r i \<and> rmd_s rmd_r i < 32" "0 < rmd_s rmd_r' i \<and> rmd_s rmd_r' i < 32"
    using assms by (simp_all add: list_all_iff)
qed

lemma rmd_Transform_compress:
  assumes "length s = 5"
  shows "rmd_Transform s chunk = rmd_compress s chunk"
proof -
  let ?X = "map (\<lambda>i. ReadLE32 (drop (4 * i) chunk)) [0..<16]"
  have first: "foldl (rmd_step ?X) s (filter (\<lambda>c. \<not> rmd_second (fst c)) rmd_calls) = rmd_line rmd_f rmd_K rmd_r (rmd_s rmd_r) ?X s 80"
    unfolding rmd_calls_first
    by (rule holds_full [OF rmd_line_simulate [OF assms rmd_s_bounds(1) rmd_R_first]]) simp_all
  have second: "foldl (rmd_step ?X) s (filter (\<lambda>c. rmd_second (fst c)) rmd_calls) = rmd_line (\<lambda>j. rmd_f (79 - j)) rmd_K' rmd_r' (rmd_s rmd_r') ?X s 80"
    unfolding rmd_calls_second
    by (rule holds_full [OF rmd_line_simulate [OF assms rmd_s_bounds(2) rmd_R_second]]) simp_all
  show ?thesis
    unfolding rmd_Transform_def rmd_compress_def Let_def foldl_rmd_exec_call first second prod.case ..
qed

lemma length_rmd_Transform: "length (rmd_Transform s chunk) = 5"
  by (simp add: rmd_Transform_def Let_def split_beta)

lemma absorb_rmd: "length s = 5 \<Longrightarrow> absorb B rmd_Transform s m = absorb B rmd_compress s m"
  using absorb_cong [where P = "\<lambda>s. length s = 5"] rmd_Transform_compress length_rmd_Transform by blast

interpretation rmd_hasher: block_hash 64 rmd_Transform rmd_Initialize 8
  by unfold_locales simp_all

definition CRIPEMD160_rep :: "CRIPEMD160 \<Rightarrow> bytes \<Rightarrow> bool" where
  "CRIPEMD160_rep = hasher_rep 64 rmd_Transform rmd_Initialize"

lemma CRIPEMD160_rep_new: "length buf = 64 \<Longrightarrow> CRIPEMD160_rep (CRIPEMD160_new buf) []"
  using rmd_hasher.rep_init by (simp add: CRIPEMD160_rep_def CRIPEMD160_new_def)

lemma CRIPEMD160_rep_Write: "CRIPEMD160_rep h m \<Longrightarrow> CRIPEMD160_rep (CRIPEMD160_Write h d) (m @ d)"
  unfolding CRIPEMD160_rep_def CRIPEMD160_Write_def by (rule rmd_hasher.rep_Write)

lemma CRIPEMD160_rep_Writes: "CRIPEMD160_rep h m \<Longrightarrow> CRIPEMD160_rep (foldl CRIPEMD160_Write h ds) (m @ concat ds)"
  unfolding CRIPEMD160_rep_def CRIPEMD160_Write_def by (rule rmd_hasher.rep_Writes)

lemma CRIPEMD160_rep_Reset: "CRIPEMD160_rep h m \<Longrightarrow> CRIPEMD160_rep (CRIPEMD160_Reset h) []"
  using rmd_hasher.rep_init [of "hbuf h"]
  by (simp add: CRIPEMD160_rep_def CRIPEMD160_Reset_def hasher_rep_def)

lemma CRIPEMD160_rep_Finalize:
  assumes "CRIPEMD160_rep h m"
  shows "fst (CRIPEMD160_Finalize h) = ripemd160 m"
proof -
  let ?pad = "128 # replicate ((119 - length m mod 64) mod 64) (0 :: u8)"
  let ?sz = "WriteLE64 (word_of_nat (8 * length m))"
  have "hbytes h = word_of_nat (length m)" using assms by (simp add: CRIPEMD160_rep_def hasher_rep_def)
  then have sz: "WriteLE64 (push_bit 3 (hbytes h)) = ?sz" by (simp add: size_word)
  have pad: "take (1 + (119 - unat (hbytes h) mod 64) mod 64) (0x80 # replicate 63 0) = ?pad"
    using rmd_hasher.rep_bytes_mod [OF assms [unfolded CRIPEMD160_rep_def]] take_pad [of 64 "119 - length m mod 64"] by simp
  have "hs (CRIPEMD160_Write (CRIPEMD160_Write h ?pad) ?sz) = absorb 64 rmd_Transform rmd_Initialize (m @ ?pad @ ?sz)"
    unfolding CRIPEMD160_Write_def
    using assms by (intro rmd_hasher.rep_padded) (simp_all add: CRIPEMD160_rep_def WriteLE64_def)
  also have "\<dots> = absorb 64 rmd_compress rmd_Initialize (rmd_pad m)"
    unfolding rmd_pad_def by (subst absorb_rmd) (simp_all add: rmd_Initialize_def)
  finally show ?thesis
    unfolding CRIPEMD160_Finalize_def Let_def sz pad ripemd160_def fst_conv by (simp only:)
qed

lemma CRIPEMD160_Finalize_buffer: "CRIPEMD160_rep h m \<Longrightarrow> length (hbuf (snd (CRIPEMD160_Finalize h))) = 64"
  unfolding CRIPEMD160_Finalize_def Let_def snd_conv
  unfolding CRIPEMD160_rep_def CRIPEMD160_Write_def by (rule rmd_hasher.Writes_buffer)

lemma length_ripemd160: "length (ripemd160 m) = 20"
proof -
  have "length (absorb 64 rmd_compress rmd_Initialize (rmd_pad m)) = 5"
    using absorb_cong [where P = "\<lambda>s. length s = 5" and T = rmd_compress and T' = rmd_compress]
    by (simp add: rmd_compress_def Let_def rmd_Initialize_def)
  then show ?thesis by (simp add: ripemd160_def length_concat WriteLE32_def o_def sum_list_triv)
qed

section \<open>Properties\<close>

text \<open>
  However the message is split over the calls to \<open>Write\<close>, the constructor, the writes and
  \<open>Finalize\<close> of \<^verbatim>\<open>CRIPEMD160\<close> return the RIPEMD-160 digest of the whole message: the 160 interleaved
  round calls compute the two table-driven lines.
\<close>

theorem CRIPEMD160_computes_ripemd160:
  assumes "length buf = 64"
  shows "fst (CRIPEMD160_Finalize (foldl CRIPEMD160_Write (CRIPEMD160_new buf) ds)) = ripemd160 (concat ds)"
  using CRIPEMD160_rep_Finalize [OF CRIPEMD160_rep_Writes [OF CRIPEMD160_rep_new [OF assms]]] by simp

theorem CRIPEMD160_computes_ripemd160_witness:
  "fst (CRIPEMD160_Finalize (CRIPEMD160_Write (CRIPEMD160_Write (CRIPEMD160_new (replicate 64 7)) [0x61]) [0x62, 0x63])) =
   ripemd160 [0x61, 0x62, 0x63]"
  using CRIPEMD160_computes_ripemd160 [of "replicate 64 7" "[[0x61], [0x62, 0x63]]"] by simp

end
