(* ===== verification/Hash.thy ===== *)
theory Hash
  imports Sha1 Sha256 Sha512 Ripemd160
begin

text \<open>
  \<^verbatim>\<open>src/hash.h\<close>, \<^verbatim>\<open>src/hash.cpp\<close> and the two HMAC classes of \<^verbatim>\<open>src/crypto\<close>: the double hash
  \<^verbatim>\<open>CHash256\<close>, \<^verbatim>\<open>CHash160\<close>, \<^verbatim>\<open>CHashWriter\<close>, HMAC-SHA-256 and HMAC-SHA-512, \<open>BIP32Hash\<close>, \<open>MurmurHash3\<close>
  and SipHash-2-4. The buffer of a hasher constructed as a temporary is uninitialised in the code; it
  is taken to hold zeros, which the results on the hashers show to be immaterial.
\<close>

section \<open>Double and mixed hashes\<close>

type_synonym CHash256 = CSHA256

definition CHash256_new :: CHash256 where
  "CHash256_new = CSHA256_new (replicate 64 0)"

definition CHash256_Write :: "CHash256 \<Rightarrow> bytes \<Rightarrow> CHash256" where
  "CHash256_Write = CSHA256_Write"

definition CHash256_Finalize :: "CHash256 \<Rightarrow> bytes \<times> CHash256" where
  "CHash256_Finalize sha =
     (let (buf, sha) = CSHA256_Finalize sha
      in CSHA256_Finalize (CSHA256_Write (CSHA256_Reset sha) buf))"

definition CHash256_Reset :: "CHash256 \<Rightarrow> CHash256" where
  "CHash256_Reset = CSHA256_Reset"

type_synonym CHash160 = CSHA256

definition CHash160_new :: CHash160 where
  "CHash160_new = CSHA256_new (replicate 64 0)"

definition CHash160_Write :: "CHash160 \<Rightarrow> bytes \<Rightarrow> CHash160" where
  "CHash160_Write = CSHA256_Write"

definition CHash160_Finalize :: "CHash160 \<Rightarrow> bytes \<times> CHash160" where
  "CHash160_Finalize sha =
     (let (buf, sha) = CSHA256_Finalize sha
      in (fst (CRIPEMD160_Finalize (CRIPEMD160_Write (CRIPEMD160_new (replicate 64 0)) buf)), sha))"

definition CHash160_Reset :: "CHash160 \<Rightarrow> CHash160" where
  "CHash160_Reset = CSHA256_Reset"

text \<open>
  \<open>Hash\<close> of one, two and three ranges, and \<open>Hash160\<close>. The code passes the address of a static blank for
  an empty range, with length zero.
\<close>

definition Hash1 :: "bytes \<Rightarrow> bytes" where
  "Hash1 p = fst (CHash256_Finalize (CHash256_Write CHash256_new p))"

definition Hash2 :: "bytes \<Rightarrow> bytes \<Rightarrow> bytes" where
  "Hash2 p1 p2 = fst (CHash256_Finalize (CHash256_Write (CHash256_Write CHash256_new p1) p2))"

definition Hash3 :: "bytes \<Rightarrow> bytes \<Rightarrow> bytes \<Rightarrow> bytes" where
  "Hash3 p1 p2 p3 =
     fst (CHash256_Finalize (CHash256_Write (CHash256_Write (CHash256_Write CHash256_new p1) p2) p3))"

definition Hash160 :: "bytes \<Rightarrow> bytes" where
  "Hash160 p = fst (CHash160_Finalize (CHash160_Write CHash160_new p))"

text \<open>\<open>CHashWriter\<close>: serialisation feeds it a sequence of writes.\<close>

record CHashWriter =
  hw_ctx :: CHash256
  hw_nType :: int
  hw_nVersion :: int

definition CHashWriter_new :: "int \<Rightarrow> int \<Rightarrow> CHashWriter" where
  "CHashWriter_new nTypeIn nVersionIn = \<lparr>hw_ctx = CHash256_new, hw_nType = nTypeIn, hw_nVersion = nVersionIn\<rparr>"

definition CHashWriter_write :: "CHashWriter \<Rightarrow> bytes \<Rightarrow> CHashWriter" where
  "CHashWriter_write w pch = w\<lparr>hw_ctx := CHash256_Write (hw_ctx w) pch\<rparr>"

definition CHashWriter_GetHash :: "CHashWriter \<Rightarrow> bytes \<times> CHashWriter" where
  "CHashWriter_GetHash w =
     (let (result, ctx) = CHash256_Finalize (hw_ctx w) in (result, w\<lparr>hw_ctx := ctx\<rparr>))"

section \<open>HMAC\<close>

record CHMAC_SHA256 =
  hm_outer :: CSHA256
  hm_inner :: CSHA256

definition CHMAC_SHA256_new :: "bytes \<Rightarrow> CHMAC_SHA256" where
  "CHMAC_SHA256_new key =
     (let rkey = (if length key \<le> 64 then key @ replicate (64 - length key) 0
                  else fst (CSHA256_Finalize (CSHA256_Write (CSHA256_new (replicate 64 0)) key)) @ replicate 32 0);
          rkey = map (\<lambda>x. x XOR 0x5c) rkey;
          outer = CSHA256_Write (CSHA256_new (replicate 64 0)) rkey;
          rkey = map (\<lambda>x. x XOR (0x5c XOR 0x36)) rkey;
          inner = CSHA256_Write (CSHA256_new (replicate 64 0)) rkey
      in \<lparr>hm_outer = outer, hm_inner = inner\<rparr>)"

definition CHMAC_SHA256_Write :: "CHMAC_SHA256 \<Rightarrow> bytes \<Rightarrow> CHMAC_SHA256" where
  "CHMAC_SHA256_Write h data = h\<lparr>hm_inner := CSHA256_Write (hm_inner h) data\<rparr>"

definition CHMAC_SHA256_Finalize :: "CHMAC_SHA256 \<Rightarrow> bytes \<times> CHMAC_SHA256" where
  "CHMAC_SHA256_Finalize h =
     (let (temp, inner) = CSHA256_Finalize (hm_inner h);
          (hash, outer) = CSHA256_Finalize (CSHA256_Write (hm_outer h) temp)
      in (hash, \<lparr>hm_outer = outer, hm_inner = inner\<rparr>))"

record CHMAC_SHA512 =
  hm5_outer :: CSHA512
  hm5_inner :: CSHA512

definition CHMAC_SHA512_new :: "bytes \<Rightarrow> CHMAC_SHA512" where
  "CHMAC_SHA512_new key =
     (let rkey = (if length key \<le> 128 then key @ replicate (128 - length key) 0
                  else fst (CSHA512_Finalize (CSHA512_Write (CSHA512_new (replicate 128 0)) key)) @ replicate 64 0);
          rkey = map (\<lambda>x. x XOR 0x5c) rkey;
          outer = CSHA512_Write (CSHA512_new (replicate 128 0)) rkey;
          rkey = map (\<lambda>x. x XOR (0x5c XOR 0x36)) rkey;
          inner = CSHA512_Write (CSHA512_new (replicate 128 0)) rkey
      in \<lparr>hm5_outer = outer, hm5_inner = inner\<rparr>)"

definition CHMAC_SHA512_Write :: "CHMAC_SHA512 \<Rightarrow> bytes \<Rightarrow> CHMAC_SHA512" where
  "CHMAC_SHA512_Write h data = h\<lparr>hm5_inner := CSHA512_Write (hm5_inner h) data\<rparr>"

definition CHMAC_SHA512_Finalize :: "CHMAC_SHA512 \<Rightarrow> bytes \<times> CHMAC_SHA512" where
  "CHMAC_SHA512_Finalize h =
     (let (temp, inner) = CSHA512_Finalize (hm5_inner h);
          (hash, outer) = CSHA512_Finalize (CSHA512_Write (hm5_outer h) temp)
      in (hash, \<lparr>hm5_outer = outer, hm5_inner = inner\<rparr>))"

definition BIP32Hash :: "bytes \<Rightarrow> u32 \<Rightarrow> u8 \<Rightarrow> bytes \<Rightarrow> bytes" where
  "BIP32Hash chainCode nChild header data =
     (let num = [ucast (drop_bit 24 nChild AND 0xFF), ucast (drop_bit 16 nChild AND 0xFF),
                 ucast (drop_bit 8 nChild AND 0xFF), ucast (nChild AND 0xFF)]
      in fst (CHMAC_SHA512_Finalize (CHMAC_SHA512_Write (CHMAC_SHA512_Write (CHMAC_SHA512_Write
           (CHMAC_SHA512_new chainCode) [header]) data) num)))"

section \<open>MurmurHash3\<close>

definition ROTL32 :: "u32 \<Rightarrow> nat \<Rightarrow> u32" where
  "ROTL32 x r = push_bit r x OR drop_bit (32 - r) x"

definition murmur_k :: "u32 \<Rightarrow> u32" where
  "murmur_k k1 = ROTL32 (k1 * 0xcc9e2d51) 15 * 0x1b873593"

fun murmur_body :: "nat \<Rightarrow> u32 \<Rightarrow> bytes \<Rightarrow> u32 \<times> bytes" where
  "murmur_body 0 h1 tail = (h1, tail)"
| "murmur_body (Suc nblocks) h1 data =
     (let h1 = h1 XOR murmur_k (ReadLE32 data);
          h1 = ROTL32 h1 13;
          h1 = h1 * 5 + 0xe6546b64
      in murmur_body nblocks h1 (drop 4 data))"

definition murmur_tail :: "u32 \<Rightarrow> bytes \<Rightarrow> u32" where
  "murmur_tail h1 tail =
     (let n = length tail;
          k1 = 0;
          k1 = (if n = 3 then k1 XOR push_bit 16 (ucast (tail ! 2)) else k1);
          k1 = (if n = 3 \<or> n = 2 then k1 XOR push_bit 8 (ucast (tail ! 1)) else k1)
      in if n = 3 \<or> n = 2 \<or> n = 1 then h1 XOR murmur_k (k1 XOR ucast (tail ! 0)) else h1)"

definition MurmurHash3 :: "u32 \<Rightarrow> bytes \<Rightarrow> u32" where
  "MurmurHash3 nHashSeed vDataToHash =
     (let h1 = nHashSeed;
          h1 = (if length vDataToHash > 0
                then let (h1, tail) = murmur_body (length vDataToHash div 4) h1 vDataToHash in murmur_tail h1 tail
                else h1);
          h1 = h1 XOR word_of_nat (length vDataToHash);
          h1 = h1 XOR drop_bit 16 h1;
          h1 = h1 * 0x85ebca6b;
          h1 = h1 XOR drop_bit 13 h1;
          h1 = h1 * 0xc2b2ae35;
          h1 = h1 XOR drop_bit 16 h1
      in h1)"

section \<open>SipHash\<close>

definition sip_ROTL :: "u64 \<Rightarrow> nat \<Rightarrow> u64" where
  "sip_ROTL x b = push_bit b x OR drop_bit (64 - b) x"

type_synonym sip_state = "u64 \<times> u64 \<times> u64 \<times> u64"

fun SIPROUND :: "sip_state \<Rightarrow> sip_state" where
  "SIPROUND (v0, v1, v2, v3) =
     (let v0 = v0 + v1; v1 = sip_ROTL v1 13; v1 = v1 XOR v0;
          v0 = sip_ROTL v0 32;
          v2 = v2 + v3; v3 = sip_ROTL v3 16; v3 = v3 XOR v2;
          v0 = v0 + v3; v3 = sip_ROTL v3 21; v3 = v3 XOR v0;
          v2 = v2 + v1; v1 = sip_ROTL v1 17; v1 = v1 XOR v2;
          v2 = sip_ROTL v2 32
      in (v0, v1, v2, v3))"

record CSipHasher =
  sip_v :: sip_state
  sip_tmp :: u64
  sip_count :: nat

definition CSipHasher_new :: "u64 \<Rightarrow> u64 \<Rightarrow> CSipHasher" where
  "CSipHasher_new k0 k1 =
     \<lparr>sip_v = (0x736f6d6570736575 XOR k0, 0x646f72616e646f6d XOR k1, 0x6c7967656e657261 XOR k0, 0x7465646279746573 XOR k1),
      sip_tmp = 0, sip_count = 0\<rparr>"

text \<open>The four statements \<open>v3 ^= d; SIPROUND; SIPROUND; v0 ^= d\<close>.\<close>

definition sip_compress :: "sip_state \<Rightarrow> u64 \<Rightarrow> sip_state" where
  "sip_compress v d =
     (let (v0, v1, v2, v3) = v;
          (v0, v1, v2, v3) = SIPROUND (SIPROUND (v0, v1, v2, v3 XOR d))
      in (v0 XOR d, v1, v2, v3))"

text \<open>\<open>Write\<close> of a 64-bit integer; None is the failed assertion.\<close>

definition CSipHasher_Write64 :: "CSipHasher \<Rightarrow> u64 \<Rightarrow> CSipHasher option" where
  "CSipHasher_Write64 h data =
     (if sip_count h mod 8 \<noteq> 0 then None
      else Some (h\<lparr>sip_v := sip_compress (sip_v h) data, sip_count := sip_count h + 8\<rparr>))"

fun sip_loop :: "sip_state \<Rightarrow> u64 \<Rightarrow> nat \<Rightarrow> bytes \<Rightarrow> sip_state \<times> u64 \<times> nat" where
  "sip_loop v t c [] = (v, t, c)"
| "sip_loop v t c (b # data) =
     (let t = t OR push_bit (8 * (c mod 8)) (ucast b);
          c = c + 1
      in if c mod 8 = 0 then sip_loop (sip_compress v t) 0 c data else sip_loop v t c data)"

definition CSipHasher_Write :: "CSipHasher \<Rightarrow> bytes \<Rightarrow> CSipHasher" where
  "CSipHasher_Write h data =
     (let (v, t, c) = sip_loop (sip_v h) (sip_tmp h) (sip_count h) data
      in h\<lparr>sip_v := v, sip_count := c, sip_tmp := t\<rparr>)"

definition sip_finish :: "sip_state \<Rightarrow> u64" where
  "sip_finish v =
     (let (v0, v1, v2, v3) = v;
          (v0, v1, v2, v3) = SIPROUND (SIPROUND (SIPROUND (SIPROUND (v0, v1, v2 XOR 0xFF, v3))))
      in v0 XOR v1 XOR v2 XOR v3)"

definition CSipHasher_Finalize :: "CSipHasher \<Rightarrow> u64" where
  "CSipHasher_Finalize h =
     (let t = sip_tmp h OR push_bit 56 (word_of_nat (sip_count h))
      in sip_finish (sip_compress (sip_v h) t))"

text \<open>\<open>GetUint64(i)\<close> of a 32-byte value, little-endian.\<close>

definition GetUint64 :: "bytes \<Rightarrow> nat \<Rightarrow> u64" where
  "GetUint64 val pos = ReadLE64 (drop (pos * 8) val)"

definition SipHashUint256 :: "u64 \<Rightarrow> u64 \<Rightarrow> bytes \<Rightarrow> u64" where
  "SipHashUint256 k0 k1 val =
     (let d = GetUint64 val 0;
          v0 = 0x736f6d6570736575 XOR k0;
          v1 = 0x646f72616e646f6d XOR k1;
          v2 = 0x6c7967656e657261 XOR k0;
          v3 = (0x7465646279746573 XOR k1) XOR d;
          (v0, v1, v2, v3) = SIPROUND (SIPROUND (v0, v1, v2, v3));
          v0 = v0 XOR d;
          d = GetUint64 val 1;
          v3 = v3 XOR d;
          (v0, v1, v2, v3) = SIPROUND (SIPROUND (v0, v1, v2, v3));
          v0 = v0 XOR d;
          d = GetUint64 val 2;
          v3 = v3 XOR d;
          (v0, v1, v2, v3) = SIPROUND (SIPROUND (v0, v1, v2, v3));
          v0 = v0 XOR d;
          d = GetUint64 val 3;
          v3 = v3 XOR d;
          (v0, v1, v2, v3) = SIPROUND (SIPROUND (v0, v1, v2, v3));
          v0 = v0 XOR d;
          v3 = v3 XOR push_bit 59 4;
          (v0, v1, v2, v3) = SIPROUND (SIPROUND (v0, v1, v2, v3));
          v0 = v0 XOR push_bit 59 4;
          v2 = v2 XOR 0xFF;
          (v0, v1, v2, v3) = SIPROUND (SIPROUND (SIPROUND (SIPROUND (v0, v1, v2, v3))))
      in v0 XOR v1 XOR v2 XOR v3)"

section \<open>Specification\<close>

text \<open>RFC 2104 over a hash function \<open>H\<close> with block size \<open>B\<close>.\<close>

definition hmac_key :: "(bytes \<Rightarrow> bytes) \<Rightarrow> nat \<Rightarrow> bytes \<Rightarrow> bytes" where
  "hmac_key H B key = (let k = (if length key > B then H key else key) in k @ replicate (B - length k) 0)"

definition hmac :: "(bytes \<Rightarrow> bytes) \<Rightarrow> nat \<Rightarrow> bytes \<Rightarrow> bytes \<Rightarrow> bytes" where
  "hmac H B key m =
     H (map (\<lambda>x. x XOR 0x5c) (hmac_key H B key) @ H (map (\<lambda>x. x XOR 0x36) (hmac_key H B key) @ m))"

text \<open>
  SipHash-2-4: the full eight-byte words of the message are compressed in turn, and the last word is
  made of the remaining bytes and, in its top byte, the length.
\<close>

definition sip_block :: "sip_state \<Rightarrow> bytes \<Rightarrow> sip_state" where
  "sip_block v c = sip_compress v (le_word c)"

definition siphash24 :: "u64 \<Rightarrow> u64 \<Rightarrow> bytes \<Rightarrow> u64" where
  "siphash24 k0 k1 m =
     sip_finish (sip_compress (absorb 8 sip_block (sip_v (CSipHasher_new k0 k1)) m)
       (le_word (pending 8 m) OR push_bit 56 (word_of_nat (length m))))"

section \<open>Facts\<close>

lemma CSHA256_zero_rep: "CSHA256_rep (CSHA256_new (replicate 64 0)) []"
  by (rule CSHA256_rep_new) simp

lemma CSHA512_zero_rep: "CSHA512_rep (CSHA512_new (replicate 128 0)) []"
  by (rule CSHA512_rep_new) simp

lemma CHash256_rep_Finalize:
  assumes "CSHA256_rep h m"
  shows "fst (CHash256_Finalize h) = sha256 (sha256 m)"
proof -
  obtain buf h' where f: "CSHA256_Finalize h = (buf, h')" by fastforce
  have "CSHA256_rep (CSHA256_Reset h') []"
    using CSHA256_Finalize_buffer [OF assms] f by (simp add: CSHA256_Reset_rep)
  from CSHA256_rep_Finalize [OF CSHA256_rep_Write [OF this, of buf]] show ?thesis
    using CSHA256_rep_Finalize [OF assms] f by (simp add: CHash256_Finalize_def)
qed

lemma CHash160_rep_Finalize:
  assumes "CSHA256_rep h m"
  shows "fst (CHash160_Finalize h) = ripemd160 (sha256 m)"
proof -
  have "CRIPEMD160_rep (CRIPEMD160_new (replicate 64 0)) []" by (rule CRIPEMD160_rep_new) simp
  from CRIPEMD160_rep_Finalize [OF CRIPEMD160_rep_Write [OF this, of "sha256 m"]] show ?thesis
    using CSHA256_rep_Finalize [OF assms] by (simp add: CHash160_Finalize_def split_beta)
qed

text \<open>
  What HMAC needs of a hash object: \<open>rep h m\<close> says that \<open>h\<close> has absorbed \<open>m\<close>.
\<close>

locale hash_object =
  fixes fresh :: 'h and Write :: "'h \<Rightarrow> bytes \<Rightarrow> 'h" and Finalize :: "'h \<Rightarrow> bytes \<times> 'h"
    and rep :: "'h \<Rightarrow> bytes \<Rightarrow> bool" and H :: "bytes \<Rightarrow> bytes" and B z :: nat
  assumes rep_fresh: "rep fresh []"
    and rep_Write: "rep h m \<Longrightarrow> rep (Write h d) (m @ d)"
    and rep_Finalize: "rep h m \<Longrightarrow> fst (Finalize h) = H m"
    and length_H: "length (H m) + z = B"
begin

definition keyed :: "'h \<Rightarrow> 'h \<Rightarrow> bytes \<Rightarrow> bytes \<Rightarrow> bool" where
  "keyed outer inner key m \<longleftrightarrow>
     rep outer (map (\<lambda>x. x XOR 0x5c) (hmac_key H B key)) \<and> rep inner (map (\<lambda>x. x XOR 0x36) (hmac_key H B key) @ m)"

lemma rkey:
  "(if length key \<le> B then key @ replicate (B - length key) 0
    else fst (Finalize (Write fresh key)) @ replicate z 0) = hmac_key H B key"
  using rep_Finalize [OF rep_Write [OF rep_fresh, of key]] length_H [of key] by (auto simp: hmac_key_def)

lemma keyed_new:
  "keyed (Write fresh (map (\<lambda>x. x XOR 0x5c) (hmac_key H B key)))
     (Write fresh (map (\<lambda>x. x XOR (0x5c XOR 0x36)) (map (\<lambda>x. x XOR 0x5c) (hmac_key H B key)))) key []"
proof -
  have "(x XOR 0x5c) XOR (0x5c XOR 0x36) = x XOR (0x36 :: u8)" for x by (simp add: xor.assoc)
  then show ?thesis
    using rep_Write [OF rep_fresh] by (simp add: keyed_def o_def)
qed

lemma keyed_Write: "keyed outer inner key m \<Longrightarrow> keyed outer (Write inner d) key (m @ d)"
  using rep_Write [of inner _ d] by (fastforce simp: keyed_def)

lemma keyed_Finalize: "keyed outer inner key m \<Longrightarrow> fst (Finalize (Write outer (fst (Finalize inner)))) = hmac H B key m"
  using rep_Finalize [of inner] rep_Finalize [OF rep_Write [of outer]] by (auto simp: keyed_def hmac_def)

end

interpretation sha256_object: hash_object "CSHA256_new (replicate 64 0)" CSHA256_Write CSHA256_Finalize CSHA256_rep sha256 64 32
  by unfold_locales (simp_all add: CSHA256_zero_rep CSHA256_rep_Write CSHA256_rep_Finalize length_sha256)

interpretation sha512_object: hash_object "CSHA512_new (replicate 128 0)" CSHA512_Write CSHA512_Finalize CSHA512_rep sha512 128 64
  by unfold_locales (simp_all add: CSHA512_zero_rep CSHA512_rep_Write CSHA512_rep_Finalize length_sha512)

lemma CHMAC_SHA256_keyed_new: "sha256_object.keyed (hm_outer (CHMAC_SHA256_new key)) (hm_inner (CHMAC_SHA256_new key)) key []"
  unfolding CHMAC_SHA256_new_def Let_def sha256_object.rkey CHMAC_SHA256.simps by (rule sha256_object.keyed_new)

lemma CHMAC_SHA512_keyed_new: "sha512_object.keyed (hm5_outer (CHMAC_SHA512_new key)) (hm5_inner (CHMAC_SHA512_new key)) key []"
  unfolding CHMAC_SHA512_new_def Let_def sha512_object.rkey CHMAC_SHA512.simps by (rule sha512_object.keyed_new)

lemma CHMAC_SHA256_keyed_Writes:
  "sha256_object.keyed (hm_outer h) (hm_inner h) key m \<Longrightarrow>
   sha256_object.keyed (hm_outer (foldl CHMAC_SHA256_Write h ds)) (hm_inner (foldl CHMAC_SHA256_Write h ds)) key (m @ concat ds)"
proof (induction ds arbitrary: h m)
  case (Cons d ds)
  from Cons.IH [of "CHMAC_SHA256_Write h d" "m @ d"] sha256_object.keyed_Write [OF Cons.prems, of d] show ?case
    by (simp add: CHMAC_SHA256_Write_def)
qed simp

lemma CHMAC_SHA512_keyed_Writes:
  "sha512_object.keyed (hm5_outer h) (hm5_inner h) key m \<Longrightarrow>
   sha512_object.keyed (hm5_outer (foldl CHMAC_SHA512_Write h ds)) (hm5_inner (foldl CHMAC_SHA512_Write h ds)) key (m @ concat ds)"
proof (induction ds arbitrary: h m)
  case (Cons d ds)
  from Cons.IH [of "CHMAC_SHA512_Write h d" "m @ d"] sha512_object.keyed_Write [OF Cons.prems, of d] show ?case
    by (simp add: CHMAC_SHA512_Write_def)
qed simp

lemma CHMAC_SHA256_hmac: "fst (CHMAC_SHA256_Finalize (foldl CHMAC_SHA256_Write (CHMAC_SHA256_new key) ds)) = hmac sha256 64 key (concat ds)"
  using sha256_object.keyed_Finalize [OF CHMAC_SHA256_keyed_Writes [OF CHMAC_SHA256_keyed_new, of key ds]]
  by (simp add: CHMAC_SHA256_Finalize_def split_beta Let_def)

lemma CHMAC_SHA512_hmac: "fst (CHMAC_SHA512_Finalize (foldl CHMAC_SHA512_Write (CHMAC_SHA512_new key) ds)) = hmac sha512 128 key (concat ds)"
  using sha512_object.keyed_Finalize [OF CHMAC_SHA512_keyed_Writes [OF CHMAC_SHA512_keyed_new, of key ds]]
  by (simp add: CHMAC_SHA512_Finalize_def split_beta Let_def)

lemma BIP32_index: "[ucast (drop_bit 24 n AND 0xFF), ucast (drop_bit 16 n AND 0xFF), ucast (drop_bit 8 n AND 0xFF), ucast (n AND 0xFF)] =
   WriteBE32 (n :: u32)"
proof -
  have *: "ucast (x AND 0xFF) = (ucast x :: u8)" for x :: u32
  proof -
    have m: "(0xFF :: u32) = mask 8" by (simp add: mask_eq_exp_minus_1)
    show ?thesis unfolding m by (rule bit_word_eqI) (simp add: bit_simps del: mask_numeral)
  qed
  have "(4::nat) = Suc (Suc (Suc (Suc 0)))" by simp
  then show ?thesis unfolding * WriteBE32_def by (simp only: le_bytes.simps drop_bit_drop_bit) simp
qed

lemma BIP32Hash_hmac: "BIP32Hash cc n hdr data = hmac sha512 128 cc (hdr # data @ WriteBE32 n)"
  using CHMAC_SHA512_hmac [of cc "[[hdr], data, WriteBE32 n]"] by (simp add: BIP32Hash_def BIP32_index)

subsection \<open>SipHash\<close>

lemma sip_loop_rep:
  "sip_loop (absorb 8 sip_block init m) (le_word (pending 8 m)) (length m) d =
   (absorb 8 sip_block init (m @ d), le_word (pending 8 (m @ d)), length (m @ d))"
proof (induction d arbitrary: m)
  case (Cons b d)
  have t: "le_word (pending 8 m) OR push_bit (8 * (length m mod 8)) (ucast b) = (le_word (pending 8 m @ [b]) :: u64)"
    by (simp add: le_word_append)
  show ?case
  proof (cases "Suc (length m mod 8) = 8")
    case True
    then have "(length m + 1) mod 8 = 0" by (simp add: mod_Suc)
    moreover have "absorb 8 sip_block init (m @ [b]) = sip_compress (absorb 8 sip_block init m) (le_word (pending 8 m @ [b]))"
      using absorb_snoc_full(1) [of 8 m sip_block init b] True by (simp only: sip_block_def)
    ultimately show ?thesis
      using Cons.IH [of "m @ [b]"] t absorb_snoc_full(2) [of 8 m b] True by simp
  next
    case False
    then have *: "Suc (length m mod 8) < 8" using mod_less_divisor [of 8 "length m"] by linarith
    then have "(length m + 1) mod 8 \<noteq> 0" by (simp add: mod_Suc)
    with Cons.IH [of "m @ [b]"] t absorb_snoc(1) [of 8 m sip_block init b] absorb_snoc(2) [of 8 m b] * show ?thesis by simp
  qed
qed simp

lemma CSipHasher_Writes:
  "sip_v h = absorb 8 sip_block init m \<Longrightarrow> sip_tmp h = le_word (pending 8 m) \<Longrightarrow> sip_count h = length m \<Longrightarrow>
   h' = foldl CSipHasher_Write h ds \<Longrightarrow>
   sip_v h' = absorb 8 sip_block init (m @ concat ds) \<and> sip_tmp h' = le_word (pending 8 (m @ concat ds)) \<and>
   sip_count h' = length (m @ concat ds)"
proof (induction ds arbitrary: h m)
  case (Cons d ds)
  from Cons.IH [of "CSipHasher_Write h d" "m @ d"] Cons.prems show ?case
    by (simp add: CSipHasher_Write_def sip_loop_rep)
qed simp

lemma CSipHasher_siphash24:
  "CSipHasher_Finalize (foldl CSipHasher_Write (CSipHasher_new k0 k1) ds) = siphash24 k0 k1 (concat ds)"
  using CSipHasher_Writes [of "CSipHasher_new k0 k1" _ "[]" _ ds]
  by (simp add: CSipHasher_Finalize_def siphash24_def CSipHasher_new_def absorb_short pending_def)

lemma SipHashUint256_compress:
  "SipHashUint256 k0 k1 val =
   sip_finish (sip_compress (sip_compress (sip_compress (sip_compress (sip_compress (sip_v (CSipHasher_new k0 k1))
     (GetUint64 val 0)) (GetUint64 val 1)) (GetUint64 val 2)) (GetUint64 val 3)) (push_bit 59 4))"
proof -
  let ?d = "GetUint64 val"
  obtain a0 a1 a2 a3 where a: "SIPROUND (SIPROUND (0x736f6d6570736575 XOR k0, 0x646f72616e646f6d XOR k1,
      0x6c7967656e657261 XOR k0, (0x7465646279746573 XOR k1) XOR ?d 0)) = (a0, a1, a2, a3)" by (rule prod_cases4)
  obtain b0 b1 b2 b3 where b: "SIPROUND (SIPROUND (a0 XOR ?d 0, a1, a2, a3 XOR ?d 1)) = (b0, b1, b2, b3)" by (rule prod_cases4)
  obtain c0 c1 c2 c3 where c: "SIPROUND (SIPROUND (b0 XOR ?d 1, b1, b2, b3 XOR ?d 2)) = (c0, c1, c2, c3)" by (rule prod_cases4)
  obtain e0 e1 e2 e3 where e: "SIPROUND (SIPROUND (c0 XOR ?d 2, c1, c2, c3 XOR ?d 3)) = (e0, e1, e2, e3)" by (rule prod_cases4)
  obtain f0 f1 f2 f3 where f: "SIPROUND (SIPROUND (e0 XOR ?d 3, e1, e2, e3 XOR push_bit 59 4)) = (f0, f1, f2, f3)" by (rule prod_cases4)
  show ?thesis
    unfolding SipHashUint256_def sip_compress_def sip_finish_def CSipHasher_new_def CSipHasher.simps Let_def prod.case a b c e f ..
qed

lemma SipHashUint256_siphash24:
  assumes "length val = 32"
  shows "SipHashUint256 k0 k1 val = siphash24 k0 k1 val"
proof -
  have "absorb 8 sip_block s val =
      sip_compress (sip_compress (sip_compress (sip_compress s (GetUint64 val 0)) (GetUint64 val 1)) (GetUint64 val 2)) (GetUint64 val 3)" for s
    using assms by (simp add: absorb_step absorb_short sip_block_def GetUint64_def ReadLE64_def)
  moreover have "pending 8 val = []" using assms by (simp add: pending_def)
  moreover have "push_bit 56 (word_of_nat 32) = (push_bit 59 4 :: u64)" by (simp add: push_bit_eq_mult)
  ultimately show ?thesis
    using assms by (simp add: SipHashUint256_compress siphash24_def del: push_bit_numeral)
qed

subsection \<open>Hash functions\<close>

lemma Hash1_eq: "Hash1 p = sha256 (sha256 p)"
  using CHash256_rep_Finalize [OF CSHA256_rep_Write [OF CSHA256_zero_rep, of p]]
  by (simp add: Hash1_def CHash256_new_def CHash256_Write_def)

lemma Hash2_eq: "Hash2 p q = sha256 (sha256 (p @ q))"
  using CHash256_rep_Finalize [OF CSHA256_rep_Write [OF CSHA256_rep_Write [OF CSHA256_zero_rep, of p], of q]]
  by (simp add: Hash2_def CHash256_new_def CHash256_Write_def)

lemma Hash3_eq: "Hash3 p q r = sha256 (sha256 (p @ q @ r))"
  using CHash256_rep_Finalize [OF CSHA256_rep_Writes [OF CSHA256_zero_rep, of "[p, q, r]"]]
  by (simp add: Hash3_def CHash256_new_def CHash256_Write_def)

lemma Hash160_eq: "Hash160 p = ripemd160 (sha256 p)"
  using CHash160_rep_Finalize [OF CSHA256_rep_Write [OF CSHA256_zero_rep, of p]]
  by (simp add: Hash160_def CHash160_new_def CHash160_Write_def)

lemma hash_writer:
  "fst (CHashWriter_GetHash (foldl CHashWriter_write (CHashWriter_new nType nVersion) ds)) = sha256 (sha256 (concat ds))"
proof -
  have "hw_ctx (foldl CHashWriter_write w ds) = foldl CSHA256_Write (hw_ctx w) ds" for w
    by (induction ds arbitrary: w) (simp_all add: CHashWriter_write_def CHash256_Write_def)
  then show ?thesis
    using CHash256_rep_Finalize [OF CSHA256_rep_Writes [OF CSHA256_zero_rep, of ds]]
    by (simp add: CHashWriter_GetHash_def CHashWriter_new_def CHash256_new_def split_beta)
qed

section \<open>Properties\<close>

text \<open>
  C15: \<open>Hash\<close> of any number of ranges is SHA-256 applied twice to their concatenation, \<open>Hash160\<close> is
  RIPEMD-160 of SHA-256, and \<^verbatim>\<open>CHashWriter\<close> hashes exactly the bytes written to it, whatever the
  grouping. The two HMAC classes compute RFC 2104 over SHA-256 and SHA-512 for keys of any length and any
  grouping of the writes, and \<open>BIP32Hash\<close> is the HMAC-SHA-512, under the chain code, of the header byte,
  the key data and the big-endian child index.
\<close>

theorem combined_hashes:
  "Hash1 p = sha256 (sha256 p) \<and> Hash2 p q = sha256 (sha256 (p @ q)) \<and> Hash3 p q r = sha256 (sha256 (p @ q @ r)) \<and>
   Hash160 p = ripemd160 (sha256 p) \<and>
   fst (CHashWriter_GetHash (foldl CHashWriter_write (CHashWriter_new nType nVersion) ds)) = sha256 (sha256 (concat ds)) \<and>
   fst (CHMAC_SHA256_Finalize (foldl CHMAC_SHA256_Write (CHMAC_SHA256_new key) ds)) = hmac sha256 64 key (concat ds) \<and>
   fst (CHMAC_SHA512_Finalize (foldl CHMAC_SHA512_Write (CHMAC_SHA512_new key) ds)) = hmac sha512 128 key (concat ds) \<and>
   BIP32Hash cc nChild hdr data = hmac sha512 128 cc (hdr # data @ WriteBE32 nChild)"
  by (intro conjI Hash1_eq Hash2_eq Hash3_eq Hash160_eq hash_writer CHMAC_SHA256_hmac CHMAC_SHA512_hmac BIP32Hash_hmac)

text \<open>
  The buffering SipHash object computes SipHash-2-4 of the bytes written, and the unrolled
  \<open>SipHashUint256\<close> agrees with it on every 32-byte value.
\<close>

theorem siphash_agree:
  assumes "length (concat ds) = 32"
  shows "CSipHasher_Finalize (foldl CSipHasher_Write (CSipHasher_new k0 k1) ds) = siphash24 k0 k1 (concat ds) \<and>
    SipHashUint256 k0 k1 (concat ds) = siphash24 k0 k1 (concat ds)"
  using CSipHasher_siphash24 SipHashUint256_siphash24 [OF assms] by blast

theorem siphash_agree_witness:
  "SipHashUint256 1 2 (replicate 5 7 @ replicate 27 7) =
   CSipHasher_Finalize (CSipHasher_Write (CSipHasher_Write (CSipHasher_new 1 2) (replicate 5 7)) (replicate 27 7))"
  using siphash_agree [of "[replicate 5 7, replicate 27 7]" 1 2] by simp

end
