(* ===== verification/Amount.thy ===== *)
theory Amount
  imports Complex_Main Prelude
begin

text \<open>
  \<^verbatim>\<open>src/amount.h\<close>, \<^verbatim>\<open>src/amount.cpp\<close> and \<^verbatim>\<open>src/utilmoneystr.cpp\<close>: amounts, fee
  rates, and the conversion of amounts to and from decimal strings. An amount
  is a 64-bit signed integer, kept as an integer with \<open>wrap64\<close> around the operations that can leave the
  range.
\<close>

section \<open>Amounts and fee rates\<close>

type_synonym CAmount = int

definition COIN :: CAmount where "COIN = 100000000"
definition CENT :: CAmount where "CENT = 1000000"
definition MAX_MONEY :: CAmount where "MAX_MONEY = 10000000000 * COIN"

definition MoneyRange :: "CAmount \<Rightarrow> bool" where
  "MoneyRange nValue \<longleftrightarrow> nValue \<ge> 0 \<and> nValue \<le> MAX_MONEY"

record CFeeRate =
  nSatoshisPerK :: CAmount

text \<open>The failed assertion on the size is None.\<close>

definition CFeeRate_paid :: "CAmount \<Rightarrow> nat \<Rightarrow> CFeeRate option" where
  "CFeeRate_paid nFeePaid nBytes =
     (if nBytes \<le> 2 ^ 63 - 1
      then let nSize = int nBytes
           in if nSize > 0 then Some \<lparr>nSatoshisPerK = wrap64 (nFeePaid * 1000) sdiv nSize\<rparr>
              else Some \<lparr>nSatoshisPerK = 0\<rparr>
      else None)"

definition GetFee :: "CFeeRate \<Rightarrow> nat \<Rightarrow> CAmount option" where
  "GetFee rate nBytes =
     (if nBytes \<le> 2 ^ 63 - 1
      then let nSize = int nBytes;
               nFee = wrap64 (nSatoshisPerK rate * nSize) sdiv 1000
           in Some (if nFee = 0 \<and> nSize \<noteq> 0
                    then if nSatoshisPerK rate > 0 then 1 else if nSatoshisPerK rate < 0 then - 1 else nFee
                    else nFee)
      else None)"

definition GetFeePerK :: "CFeeRate \<Rightarrow> CAmount option" where
  "GetFeePerK rate = GetFee rate 1000"

definition CFeeRate_add :: "CFeeRate \<Rightarrow> CFeeRate \<Rightarrow> CFeeRate" where
  "CFeeRate_add r a = r\<lparr>nSatoshisPerK := wrap64 (nSatoshisPerK r + nSatoshisPerK a)\<rparr>"

section \<open>Decimal strings\<close>

definition isdigit :: "char \<Rightarrow> bool" where
  "isdigit c \<longleftrightarrow> 48 \<le> (of_char c :: nat) \<and> (of_char c :: nat) \<le> 57"

definition isspace :: "char \<Rightarrow> bool" where
  "isspace c \<longleftrightarrow> c = CHR '' '' \<or> 9 \<le> (of_char c :: nat) \<and> (of_char c :: nat) \<le> 13"

definition digit_val :: "char \<Rightarrow> int" where
  "digit_val c = int (of_char c) - 48"

definition digit :: "nat \<Rightarrow> char" where
  "digit d = char_of (48 + d)"

text \<open>The conversions \<open>%d\<close> and \<open>%08d\<close> of \<open>strprintf\<close>.\<close>

fun nat_digits :: "nat \<Rightarrow> string" where
  "nat_digits n = (if n < 10 then [digit n] else nat_digits (n div 10) @ [digit (n mod 10)])"

declare nat_digits.simps [simp del]

definition fmt_d :: "int \<Rightarrow> string" where
  "fmt_d n = (if n < 0 then CHR ''-'' # nat_digits (nat (- n)) else nat_digits (nat n))"

definition fmt_08d :: "int \<Rightarrow> string" where
  "fmt_08d n =
     (if n < 0 then CHR ''-'' # replicate (7 - length (nat_digits (nat (- n)))) CHR ''0'' @ nat_digits (nat (- n))
      else replicate (8 - length (nat_digits (nat n))) CHR ''0'' @ nat_digits (nat n))"

text \<open>The trimming loop, on the reversed string: the last character goes when it is a zero and the one
  two places before it is a digit.\<close>

fun trim_zeros :: "string \<Rightarrow> string" where
  "trim_zeros (c # c' # c'' # s) =
     (if c = CHR ''0'' \<and> isdigit c'' then trim_zeros (c' # c'' # s) else c # c' # c'' # s)"
| "trim_zeros s = s"

definition FormatMoney :: "CAmount \<Rightarrow> string" where
  "FormatMoney n =
     (let n_abs = (if n > 0 then n else wrap64 (- n));
          quotient = n_abs sdiv COIN;
          remainder = n_abs smod COIN;
          str = fmt_d quotient @ ''.'' @ fmt_08d remainder;
          str = rev (trim_zeros (rev str))
      in if n < 0 then CHR ''-'' # str else str)"

fun parse_frac :: "string \<Rightarrow> int \<Rightarrow> int \<Rightarrow> int \<times> string" where
  "parse_frac (c # p) nMult nUnits =
     (if isdigit c \<and> nMult > 0 then parse_frac p (nMult sdiv 10) (nUnits + nMult * digit_val c) else (nUnits, c # p))"
| "parse_frac [] nMult nUnits = (nUnits, [])"

text \<open>The main loop returns the whole part, the units and the rest; None is the early \<open>return false\<close>.\<close>

fun parse_whole :: "string \<Rightarrow> string \<Rightarrow> (string \<times> int \<times> string) option" where
  "parse_whole [] strWhole = Some (strWhole, 0, [])"
| "parse_whole (c # p) strWhole =
     (if c = CHR ''.'' then (let (nUnits, p) = parse_frac p (CENT * 10) 0 in Some (strWhole, nUnits, p))
      else if isspace c then Some (strWhole, 0, c # p)
      else if \<not> isdigit c then None
      else parse_whole p (strWhole @ [c]))"

text \<open>\<open>atoi64\<close> on a string of digits.\<close>

definition atoi64 :: "string \<Rightarrow> int" where
  "atoi64 s = foldl (\<lambda>a c. 10 * a + digit_val c) 0 s"

definition ParseMoney :: "string \<Rightarrow> CAmount option" where
  "ParseMoney str =
     (let p = dropWhile isspace (takeWhile (\<lambda>c. c \<noteq> CHR 0x00) str)
      in case parse_whole p [] of
           None \<Rightarrow> None
         | Some (strWhole, nUnits, p) \<Rightarrow>
             if \<not> list_all isspace p then None
             else if length strWhole > 10 then None
             else if nUnits < 0 \<or> nUnits > COIN then None
             else Some (wrap64 (wrap64 (atoi64 strWhole * COIN) + nUnits)))"

definition CFeeRate_ToString :: "CFeeRate \<Rightarrow> string" where
  "CFeeRate_ToString r = fmt_d (nSatoshisPerK r sdiv COIN) @ ''.'' @ fmt_08d (nSatoshisPerK r smod COIN) @ '' DOGE/kB''"

section \<open>Facts on fees\<close>

lemma MoneyRange_max: "MoneyRange MAX_MONEY" "MoneyRange 0"
  by (simp_all add: MoneyRange_def MAX_MONEY_def COIN_def)

lemma sdiv_nonneg: "0 \<le> a \<Longrightarrow> 0 < b \<Longrightarrow> a sdiv b = a div (b :: int)"
  by (simp add: signed_divide_int_def sgn_if)

lemma smod_nonneg: "0 \<le> a \<Longrightarrow> 0 < b \<Longrightarrow> a smod b = a mod (b :: int)"
  by (cases "a = 0") (simp_all add: signed_modulo_int_def)

lemma GetFee_nonneg:
  assumes "0 \<le> nSatoshisPerK r" and "nBytes \<le> 2 ^ 63 - 1" and "nSatoshisPerK r * int nBytes < 2 ^ 63"
  shows "GetFee r nBytes =
    Some (if nSatoshisPerK r > 0 \<and> nBytes > 0 then max 1 (nSatoshisPerK r * int nBytes div 1000) else 0)"
proof -
  have nn: "0 \<le> nSatoshisPerK r * int nBytes" using assms(1) by simp
  then have "wrap64 (nSatoshisPerK r * int nBytes) = nSatoshisPerK r * int nBytes"
    using assms(3) by (intro wrap64_id) simp_all
  moreover have "0 \<le> nSatoshisPerK r * int nBytes div 1000" using nn by simp
  ultimately show ?thesis
    using assms(1,2) nn by (auto simp: GetFee_def sdiv_nonneg Let_def max_def)
qed

section \<open>Facts on decimal strings\<close>

lemma of_char_digit: "d < 10 \<Longrightarrow> (of_char (digit d) :: nat) = 48 + d"
  by (simp add: digit_def of_char_of)

lemma digit_facts [simp]: "d < 10 \<Longrightarrow> isdigit (digit d)" "d < 10 \<Longrightarrow> digit_val (digit d) = int d"
  by (simp_all add: isdigit_def digit_val_def of_char_digit)

lemma isdigit_0 [simp]: "isdigit CHR ''0''" "digit_val CHR ''0'' = 0"
  by (simp_all add: isdigit_def digit_val_def)

lemma isdigit_others: "isdigit c \<Longrightarrow> c \<noteq> CHR ''.'' \<and> \<not> isspace c \<and> c \<noteq> CHR 0x00"
  by (auto simp: isdigit_def isspace_def)

lemma not_isdigit_dot [simp]: "\<not> isdigit CHR ''.''"
  by (simp add: isdigit_def)

lemma atoi64_append: "atoi64 (s @ t) = atoi64 s * 10 ^ length t + atoi64 t"
proof -
  have *: "foldl (\<lambda>a c. 10 * a + digit_val c) a t = a * 10 ^ length t + foldl (\<lambda>a c. 10 * a + digit_val c) 0 t" for a
  proof (induction t arbitrary: a)
    case (Cons c t)
    from Cons.IH [of "10 * a + digit_val c"] Cons.IH [of "digit_val c"] show ?case by (simp add: algebra_simps)
  qed simp
  show ?thesis unfolding atoi64_def foldl_append by (rule *)
qed

lemma atoi64_simps [simp]: "atoi64 [] = 0" "atoi64 [c] = digit_val c"
  by (simp_all add: atoi64_def)

lemma atoi64_Cons: "atoi64 (c # s) = digit_val c * 10 ^ length s + atoi64 s"
  using atoi64_append [of "[c]" s] by simp

lemma atoi64_zeros: "atoi64 (replicate k CHR ''0'') = 0"
  by (induction k) (simp_all add: atoi64_Cons)

lemma nat_digits_props:
  "list_all isdigit (nat_digits n) \<and> atoi64 (nat_digits n) = int n \<and> nat_digits n \<noteq> []"
proof (induction n rule: nat_digits.induct)
  case (1 n)
  show ?case
  proof (cases "n < 10")
    case True
    then show ?thesis by (simp add: nat_digits.simps [of n])
  next
    case False
    with 1 have "list_all isdigit (nat_digits (n div 10)) \<and> atoi64 (nat_digits (n div 10)) = int (n div 10)" by simp
    moreover have "int (n div 10) * 10 + int (n mod 10) = int n" by presburger
    ultimately show ?thesis using False by (simp add: nat_digits.simps [of n] atoi64_append del: of_nat_mod of_nat_div)
  qed
qed

lemma length_nat_digits: "n < 10 ^ Suc k \<Longrightarrow> length (nat_digits n) \<le> Suc k"
proof (induction k arbitrary: n)
  case 0
  then show ?case by (simp add: nat_digits.simps)
next
  case (Suc k)
  show ?case
  proof (cases "n < 10")
    case False
    have "n div 10 < 10 ^ Suc k" using Suc.prems by (simp add: less_mult_imp_div_less mult.commute)
    from Suc.IH [OF this] False show ?thesis by (simp add: nat_digits.simps [of n])
  qed (simp add: nat_digits.simps)
qed

lemma fmt_08d_props:
  assumes "0 \<le> r" and "r < COIN"
  shows "length (fmt_08d r) = 8" "list_all isdigit (fmt_08d r)" "atoi64 (fmt_08d r) = r"
proof -
  have "nat r < 10 ^ Suc 7" using assms by (simp add: COIN_def)
  from length_nat_digits [OF this] show "length (fmt_08d r) = 8"
    using assms by (simp add: fmt_08d_def)
  have "list_all isdigit (replicate k CHR ''0'')" for k by (induction k) simp_all
  then show "list_all isdigit (fmt_08d r)" "atoi64 (fmt_08d r) = r"
    using assms nat_digits_props [of "nat r"] by (simp_all add: fmt_08d_def atoi64_append atoi64_zeros)
qed

text \<open>Trimming drops trailing zeros of the fraction and keeps two digits.\<close>

lemma trim_zeros_frac:
  "list_all isdigit f \<Longrightarrow> 2 \<le> length f \<Longrightarrow>
   \<exists>g k. f = replicate k CHR ''0'' @ g \<and> 2 \<le> length g \<and> trim_zeros (f @ CHR ''.'' # w) = g @ CHR ''.'' # w"
proof (induction f)
  case (Cons c f)
  show ?case
  proof (cases "c = CHR ''0'' \<and> 2 \<le> length f")
    case True
    then obtain d e f' where f: "f = d # e # f'" by (auto simp: numeral_2_eq_2 Suc_le_length_iff)
    from Cons True obtain g k where "f = replicate k CHR ''0'' @ g" "2 \<le> length g" "trim_zeros (f @ CHR ''.'' # w) = g @ CHR ''.'' # w"
      by auto
    moreover have "trim_zeros ((c # f) @ CHR ''.'' # w) = trim_zeros (f @ CHR ''.'' # w)"
      using True Cons.prems f by simp
    ultimately show ?thesis using True by (intro exI [of _ g] exI [of _ "Suc k"]) simp
  next
    case False
    from Cons.prems obtain d f' where f: "f = d # f'" by (cases f) auto
    have "trim_zeros ((c # f) @ CHR ''.'' # w) = (c # f) @ CHR ''.'' # w"
      using False f by (cases f') (auto simp: not_le)
    then show ?thesis using Cons.prems by (intro exI [of _ "c # f"] exI [of _ 0]) simp
  qed
qed simp

lemma parse_whole_digits:
  "list_all isdigit w \<Longrightarrow> parse_whole (w @ CHR ''.'' # p) acc = (let (u, p) = parse_frac p (CENT * 10) 0 in Some (acc @ w, u, p))"
  by (induction w arbitrary: acc) (auto dest: isdigit_others)

lemma parse_frac_digits:
  "list_all isdigit f \<Longrightarrow> length f \<le> Suc k \<Longrightarrow> parse_frac f (10 ^ k) u = (u + atoi64 f * 10 ^ (Suc k - length f), [])"
proof (induction f arbitrary: k u)
  case (Cons c f)
  show ?case
  proof (cases k)
    case 0
    then show ?thesis using Cons.prems by (simp add: digit_val_def)
  next
    case (Suc k')
    have "(10 :: int) ^ Suc k' sdiv 10 = 10 ^ k'" by (simp add: sdiv_nonneg)
    then have "parse_frac (c # f) (10 ^ k) u = parse_frac f (10 ^ k') (u + 10 ^ k * digit_val c)"
      using Cons.prems Suc by simp
    also have "\<dots> = (u + 10 ^ k * digit_val c + atoi64 f * 10 ^ (Suc k' - length f), [])"
      using Cons Suc by simp
    also have "Suc k' = length f + (Suc k' - length f)" using Cons.prems Suc by simp
    then have p: "(10 :: int) ^ k = 10 ^ length f * 10 ^ (Suc k' - length f)"
      unfolding Suc by (metis power_add)
    have "u + 10 ^ k * digit_val c + atoi64 f * 10 ^ (Suc k' - length f) =
        u + atoi64 (c # f) * 10 ^ (Suc k - length (c # f))"
      unfolding p by (simp add: Suc atoi64_Cons algebra_simps)
    finally show ?thesis by (simp only:)
  qed
qed simp

lemma FormatMoney_shape:
  assumes "0 \<le> n" and "n < 2 ^ 63"
  obtains g where "FormatMoney n = nat_digits (nat (n div COIN)) @ CHR ''.'' # g" "list_all isdigit g" "length g \<le> 8"
    "2 \<le> length g" "atoi64 g * 10 ^ (8 - length g) = n mod COIN"
proof -
  let ?w = "nat_digits (nat (n div COIN))" and ?f = "fmt_08d (n mod COIN)"
  have abs: "(if n > 0 then n else wrap64 (- n)) = n" using assms by auto
  have COIN: "COIN > 0" by (simp add: COIN_def)
  have q: "0 \<le> n div COIN" and r: "0 \<le> n mod COIN" "n mod COIN < COIN"
    using assms(1) COIN by (simp_all add: pos_imp_zdiv_nonneg_iff)
  note f = fmt_08d_props [OF r]
  from f obtain h k where h: "rev ?f = replicate k CHR ''0'' @ h" "2 \<le> length h"
      "trim_zeros (rev ?f @ CHR ''.'' # rev ?w) = h @ CHR ''.'' # rev ?w"
    using trim_zeros_frac [of "rev ?f" "rev ?w"] by (auto simp: list_all_rev)
  have "FormatMoney n = ?w @ CHR ''.'' # rev h"
    using assms(1) abs q h(3) COIN by (simp add: FormatMoney_def sdiv_nonneg smod_nonneg fmt_d_def)
  moreover have frev: "?f = rev h @ replicate k CHR ''0''" using arg_cong [OF h(1), of rev] by simp
  moreover have "8 - length (rev h) = k" using f(1) unfolding frev by simp
  then have "atoi64 (rev h) * 10 ^ (8 - length (rev h)) = n mod COIN"
    using f(3) unfolding frev by (simp add: atoi64_append atoi64_zeros)
  moreover have "list_all isdigit (rev h)" "length (rev h) \<le> 8" using f(1,2) unfolding frev by simp_all
  ultimately show thesis using h(2) that by simp
qed

lemma ParseMoney_digits:
  assumes "list_all isdigit w" and "w \<noteq> []" and "list_all isdigit g"
  shows "ParseMoney (w @ CHR ''.'' # g) =
    (case parse_frac g (CENT * 10) 0 of (u, p) \<Rightarrow>
       if \<not> list_all isspace p then None else if length w > 10 then None
       else if u < 0 \<or> u > COIN then None else Some (wrap64 (wrap64 (atoi64 w * COIN) + u)))"
proof -
  have "takeWhile (\<lambda>c. c \<noteq> CHR 0x00) (w @ CHR ''.'' # g) = w @ CHR ''.'' # g"
    using assms by (intro takeWhile_eq_all_conv [THEN iffD2]) (auto simp: list_all_iff dest: isdigit_others)
  moreover have "dropWhile isspace (w @ CHR ''.'' # g) = w @ CHR ''.'' # g"
    using assms by (cases w) (auto dest: isdigit_others)
  ultimately show ?thesis
    unfolding ParseMoney_def Let_def using assms(1) by (simp only: parse_whole_digits) (simp add: split_beta)
qed

lemma ParseMoney_FormatMoney:
  assumes "0 \<le> n" and "n < MAX_MONEY"
  shows "ParseMoney (FormatMoney n) = Some n"
proof -
  have n63: "n < 2 ^ 63" using assms by (simp add: MAX_MONEY_def COIN_def)
  obtain g where g: "FormatMoney n = nat_digits (nat (n div COIN)) @ CHR ''.'' # g" "list_all isdigit g" "length g \<le> 8"
    "2 \<le> length g" "atoi64 g * 10 ^ (8 - length g) = n mod COIN"
    using FormatMoney_shape [OF assms(1) n63] by blast
  let ?w = "nat_digits (nat (n div COIN))"
  note w = nat_digits_props [of "nat (n div COIN)"]
  have q: "0 \<le> n div COIN" "n div COIN < 10 ^ 10"
    using assms by (simp_all add: COIN_def MAX_MONEY_def)
  then have lw: "length ?w \<le> 10" using length_nat_digits [of "nat (n div COIN)" 9] by (simp add: nat_less_iff)
  have "parse_frac g (CENT * 10) 0 = (n mod COIN, [])"
    using parse_frac_digits [of g 7 0] g by (simp add: CENT_def)
  with w g(2) have pm: "ParseMoney (?w @ CHR ''.'' # g) =
      (if length ?w > 10 then None else if n mod COIN < 0 \<or> n mod COIN > COIN then None
       else Some (wrap64 (wrap64 (atoi64 ?w * COIN) + n mod COIN)))"
    by (simp add: ParseMoney_digits)
  have "0 \<le> n div COIN * COIN" "n div COIN * COIN < 2 ^ 63" "0 \<le> n" "n < 2 ^ 63"
    using q n63 assms by (simp_all add: COIN_def)
  then have "wrap64 (n div COIN * COIN) = n div COIN * COIN" "wrap64 n = n" by simp_all
  then have "wrap64 (wrap64 (n div COIN * COIN) + n mod COIN) = n" by simp
  moreover have "0 \<le> n mod COIN" "n mod COIN \<le> COIN" by (simp_all add: COIN_def)
  ultimately show ?thesis
    using w q lw unfolding g(1) pm by simp
qed

section \<open>Properties\<close>

text \<open>
  For a non-negative rate and a product within 63 bits the fee is the rounded-down proportional
  fee, raised to one unit when a paying rate and a non-empty transaction would round to nothing.
\<close>

theorem GetFee_proportional:
  assumes "0 \<le> nSatoshisPerK r" and "nBytes \<le> 2 ^ 63 - 1" and "nSatoshisPerK r * int nBytes < 2 ^ 63"
  shows "GetFee r nBytes =
    Some (if nSatoshisPerK r > 0 \<and> nBytes > 0 then max 1 (nSatoshisPerK r * int nBytes div 1000) else 0)"
  by (rule GetFee_nonneg [OF assms])

theorem GetFee_proportional_witness: "GetFee \<lparr>nSatoshisPerK = 3\<rparr> 250 = Some 1"
  using GetFee_proportional [of "\<lparr>nSatoshisPerK = 3\<rparr>" 250] by simp

lemma ParseMoney_MAX_MONEY: "ParseMoney (FormatMoney MAX_MONEY) = None"
proof -
  have "0 \<le> MAX_MONEY" "MAX_MONEY < 2 ^ 63" by (simp_all add: MAX_MONEY_def COIN_def)
  then obtain g where g: "FormatMoney MAX_MONEY = nat_digits (nat (MAX_MONEY div COIN)) @ CHR ''.'' # g"
      "list_all isdigit g"
    using FormatMoney_shape by blast
  have "length (nat_digits 10000000000) = 11" by (simp add: nat_digits.simps)
  then have "length (nat_digits (nat (MAX_MONEY div COIN))) = 11" by (simp add: MAX_MONEY_def COIN_def)
  then show ?thesis
    using nat_digits_props [of "nat (MAX_MONEY div COIN)"] g by (simp add: ParseMoney_digits split_beta)
qed

text \<open>
  C40: every amount from zero up to, and not including, \<open>MAX_MONEY\<close> is read back unchanged from the
  string that \<open>FormatMoney\<close> prints for it. The largest valid amount itself is not: its whole part has eleven
  digits, one more than \<open>ParseMoney\<close> accepts.
\<close>

theorem money_roundtrip:
  assumes "0 \<le> n" and "MoneyRange n"
  shows "ParseMoney (FormatMoney n) = (if n = MAX_MONEY then None else Some n)"
  using assms ParseMoney_FormatMoney [of n] ParseMoney_MAX_MONEY by (auto simp: MoneyRange_def)

theorem money_roundtrip_witness:
  "MoneyRange 123456789 \<and> ParseMoney (FormatMoney 123456789) = Some 123456789"
  using money_roundtrip [of 123456789] by (simp add: MoneyRange_def MAX_MONEY_def COIN_def)

end
