(* ===== verification/Scrypt.thy ===== *)
theory Scrypt
  imports Hash ArithUint256
begin

text \<open>
  \<^verbatim>\<open>src/crypto/scrypt.cpp\<close>, \<^verbatim>\<open>src/crypto/scrypt.h\<close>: PBKDF2 over HMAC-SHA-256 and the portable scrypt routine
  with its parameters fixed to \<open>N = 1024\<close>, \<open>r = p = 1\<close>, which hashes block headers for the proof of work. The
  scratchpad is the flat array of 32-bit words that the source carves out of a byte buffer.
\<close>

section \<open>The routines\<close>

definition be32enc :: "u32 \<Rightarrow> bytes" where
  "be32enc x = [ucast (drop_bit 24 x AND 0xff), ucast (drop_bit 16 x AND 0xff), ucast (drop_bit 8 x AND 0xff), ucast (x AND 0xff)]"

definition le32dec :: "bytes \<Rightarrow> u32" where
  "le32dec p = ucast (p ! 0) + push_bit 8 (ucast (p ! 1)) + push_bit 16 (ucast (p ! 2)) + push_bit 24 (ucast (p ! 3))"

definition le32enc :: "u32 \<Rightarrow> bytes" where
  "le32enc x = [ucast (x AND 0xff), ucast (drop_bit 8 x AND 0xff), ucast (drop_bit 16 x AND 0xff), ucast (drop_bit 24 x AND 0xff)]"

text \<open>The loop over \<open>j\<close>: its first argument counts the iterations left.\<close>

primrec pbkdf2_chain :: "nat \<Rightarrow> CHMAC_SHA256 \<Rightarrow> bytes \<Rightarrow> bytes \<Rightarrow> bytes" where
  "pbkdf2_chain 0 baseCtx U T = T"
| "pbkdf2_chain (Suc n) baseCtx U T =
     (let hctx = CHMAC_SHA256_Write baseCtx U;
          U = fst (CHMAC_SHA256_Finalize hctx)
      in pbkdf2_chain n baseCtx U (map2 (XOR) T U))"

function pbkdf2_loop :: "CHMAC_SHA256 \<Rightarrow> CHMAC_SHA256 \<Rightarrow> nat \<Rightarrow> nat \<Rightarrow> nat \<Rightarrow> bytes \<Rightarrow> bytes" where
  "pbkdf2_loop baseCtx PShctx c dkLen i buf =
     (if i * 32 < dkLen
      then let ivec = be32enc (word_of_nat (i + 1));
               U = fst (CHMAC_SHA256_Finalize (CHMAC_SHA256_Write PShctx ivec));
               T = pbkdf2_chain (c - 1) baseCtx U U;
               clen = min (dkLen - i * 32) 32
           in pbkdf2_loop baseCtx PShctx c dkLen (i + 1) (memcpy_at buf (i * 32) (take clen T))
      else buf)"
  by pat_completeness auto
termination
  by (relation "measure (\<lambda>(b, p, c, dkLen, i, buf). dkLen - i * 32)") auto

declare pbkdf2_loop.simps [simp del]

definition PBKDF2_SHA256 :: "bytes \<Rightarrow> bytes \<Rightarrow> nat \<Rightarrow> bytes \<Rightarrow> nat \<Rightarrow> bytes" where
  "PBKDF2_SHA256 passwd salt c buf dkLen =
     (let baseCtx = CHMAC_SHA256_new passwd;
          PShctx = CHMAC_SHA256_Write (CHMAC_SHA256_new passwd) salt
      in pbkdf2_loop baseCtx PShctx c dkLen 0 buf)"

definition ROTL :: "u32 \<Rightarrow> nat \<Rightarrow> u32" where
  "ROTL a b = push_bit b a OR drop_bit (32 - b) a"

text \<open>
  The statements \<open>x_d ^= ROTL(x_a + x_b, n)\<close> of the loop body, in program order, as quadruples \<open>(d, a, b, n)\<close>.
\<close>

definition salsa_columns :: "(nat \<times> nat \<times> nat \<times> nat) list" where
  "salsa_columns =
     [(4, 0, 12, 7), (9, 5, 1, 7), (14, 10, 6, 7), (3, 15, 11, 7),
      (8, 4, 0, 9), (13, 9, 5, 9), (2, 14, 10, 9), (7, 3, 15, 9),
      (12, 8, 4, 13), (1, 13, 9, 13), (6, 2, 14, 13), (11, 7, 3, 13),
      (0, 12, 8, 18), (5, 1, 13, 18), (10, 6, 2, 18), (15, 11, 7, 18)]"

definition salsa_rows :: "(nat \<times> nat \<times> nat \<times> nat) list" where
  "salsa_rows =
     [(1, 0, 3, 7), (6, 5, 4, 7), (11, 10, 9, 7), (12, 15, 14, 7),
      (2, 1, 0, 9), (7, 6, 5, 9), (8, 11, 10, 9), (13, 12, 15, 9),
      (3, 2, 1, 13), (4, 7, 6, 13), (9, 8, 11, 13), (14, 13, 12, 13),
      (0, 3, 2, 18), (5, 4, 7, 18), (10, 9, 8, 18), (15, 14, 13, 18)]"

fun salsa_step :: "nat \<times> nat \<times> nat \<times> nat \<Rightarrow> u32 list \<Rightarrow> u32 list" where
  "salsa_step (d, a, b, n) x = x[d := x ! d XOR ROTL (x ! a + x ! b) n]"

definition xor_salsa8 :: "u32 list \<Rightarrow> u32 list \<Rightarrow> u32 list" where
  "xor_salsa8 B Bx =
     (let B = map2 (XOR) B Bx;
          x = ((\<lambda>x. fold salsa_step salsa_rows (fold salsa_step salsa_columns x)) ^^ 4) B
      in map2 (+) B x)"

definition salsa_both :: "u32 list \<Rightarrow> u32 list" where
  "salsa_both X =
     (let X0 = xor_salsa8 (take 16 X) (drop 16 X);
          X1 = xor_salsa8 (drop 16 X) X0
      in X0 @ X1)"

primrec scrypt_fill :: "nat \<Rightarrow> nat \<Rightarrow> u32 list \<Rightarrow> u32 list \<Rightarrow> u32 list \<times> u32 list" where
  "scrypt_fill 0 i V X = (V, X)"
| "scrypt_fill (Suc n) i V X = scrypt_fill n (i + 1) (memcpy_at V (i * 32) X) (salsa_both X)"

primrec scrypt_mix :: "nat \<Rightarrow> u32 list \<Rightarrow> u32 list \<Rightarrow> u32 list" where
  "scrypt_mix 0 V X = X"
| "scrypt_mix (Suc n) V X =
     (let j = 32 * unat (X ! 16 AND 1023);
          X = map (\<lambda>k. X ! k XOR V ! (j + k)) [0..<32]
      in scrypt_mix n V (salsa_both X))"

definition scrypt_1024_1_1_256_sp_generic :: "bytes \<Rightarrow> u32 list \<Rightarrow> bytes" where
  "scrypt_1024_1_1_256_sp_generic input V =
     (let input = take 80 input;
          B = PBKDF2_SHA256 input input 1 (replicate 128 0) 128;
          X = map (\<lambda>k. le32dec (drop (4 * k) B)) [0..<32];
          (V, X) = scrypt_fill 1024 0 V X;
          X = scrypt_mix 1024 V X;
          B = concat (map le32enc X)
      in PBKDF2_SHA256 input B 1 (replicate 32 0) 32)"

definition scrypt_1024_1_1_256 :: "bytes \<Rightarrow> bytes" where
  "scrypt_1024_1_1_256 input = scrypt_1024_1_1_256_sp_generic input (replicate 32768 0)"

section \<open>RFC 8018 and RFC 7914\<close>

text \<open>PBKDF2 over a pseudorandom function with 32-byte results.\<close>

definition pbkdf2_F :: "(bytes \<Rightarrow> bytes) \<Rightarrow> bytes \<Rightarrow> nat \<Rightarrow> nat \<Rightarrow> bytes" where
  "pbkdf2_F prf salt c i =
     (let U = (\<lambda>j. (prf ^^ Suc j) (salt @ WriteBE32 (word_of_nat i)))
      in foldl (map2 (XOR)) (U 0) (map U [1..<c]))"

definition pbkdf2 :: "(bytes \<Rightarrow> bytes \<Rightarrow> bytes) \<Rightarrow> bytes \<Rightarrow> bytes \<Rightarrow> nat \<Rightarrow> nat \<Rightarrow> bytes" where
  "pbkdf2 prf passwd salt c dkLen =
     take dkLen (concat (map (\<lambda>i. pbkdf2_F (prf passwd) salt c (Suc i)) [0..<(dkLen + 31) div 32]))"

text \<open>The Salsa20/8 core, by quarter rounds.\<close>

definition quarterround :: "nat \<times> nat \<times> nat \<times> nat \<Rightarrow> u32 list \<Rightarrow> u32 list" where
  "quarterround = (\<lambda>(a, b, c, d) y.
     let zb = y ! b XOR word_rotl 7 (y ! a + y ! d);
         zc = y ! c XOR word_rotl 9 (zb + y ! a);
         zd = y ! d XOR word_rotl 13 (zc + zb);
         za = y ! a XOR word_rotl 18 (zd + zc)
     in y[a := za, b := zb, c := zc, d := zd])"

definition columnround :: "u32 list \<Rightarrow> u32 list" where
  "columnround = fold quarterround [(0, 4, 8, 12), (5, 9, 13, 1), (10, 14, 2, 6), (15, 3, 7, 11)]"

definition rowround :: "u32 list \<Rightarrow> u32 list" where
  "rowround = fold quarterround [(0, 1, 2, 3), (5, 6, 7, 4), (10, 11, 8, 9), (15, 12, 13, 14)]"

definition salsa20_8 :: "u32 list \<Rightarrow> u32 list" where
  "salsa20_8 x = map2 (+) x (((rowround \<circ> columnround) ^^ 4) x)"

text \<open>Block mixing of a list of sixteen-word blocks.\<close>

primrec block_chain :: "u32 list \<Rightarrow> u32 list list \<Rightarrow> u32 list list" where
  "block_chain X [] = []"
| "block_chain X (B # Bs) = (let Y = salsa20_8 (map2 (XOR) X B) in Y # block_chain Y Bs)"

definition scryptBlockMix :: "u32 list list \<Rightarrow> u32 list list" where
  "scryptBlockMix B =
     (let Y = block_chain (last B) B
      in map ((!) Y) (filter even [0..<length Y]) @ map ((!) Y) (filter odd [0..<length Y]))"

definition Integerify :: "u32 list list \<Rightarrow> nat" where
  "Integerify X = uval (last X)"

definition scryptROMix :: "nat \<Rightarrow> u32 list list \<Rightarrow> u32 list list" where
  "scryptROMix N B =
     ((\<lambda>X. scryptBlockMix (map2 (map2 (XOR)) X ((scryptBlockMix ^^ (Integerify X mod N)) B))) ^^ N)
       ((scryptBlockMix ^^ N) B)"

primrec pieces :: "nat \<Rightarrow> nat \<Rightarrow> 'a list \<Rightarrow> 'a list list" where
  "pieces k 0 xs = []"
| "pieces k (Suc n) xs = take k xs # pieces k n (drop k xs)"

definition scrypt :: "bytes \<Rightarrow> bytes \<Rightarrow> nat \<Rightarrow> nat \<Rightarrow> nat \<Rightarrow> nat \<Rightarrow> bytes" where
  "scrypt P S N r p dkLen =
     (let prf = hmac sha256 64;
          B = pieces (128 * r) p (pbkdf2 prf P S 1 (p * 128 * r));
          words = (\<lambda>b. map (map le_word \<circ> pieces 4 16) (pieces 64 (2 * r) b));
          B = map (\<lambda>b. concat (map WriteLE32 (concat (scryptROMix N (words b))))) B
      in pbkdf2 prf P (concat B) 1 dkLen)"

section \<open>PBKDF2\<close>

lemma be32enc_eq: "be32enc x = WriteBE32 x"
  by (simp only: be32enc_def BIP32_index)

lemma le32enc_eq: "le32enc = WriteLE32"
proof
  fix x
  have "le32enc x = rev (be32enc x)" by (simp add: le32enc_def be32enc_def)
  then show "le32enc x = WriteLE32 x" by (simp add: be32enc_eq WriteBE32_def WriteLE32_def)
qed

abbreviation prf256 :: "bytes \<Rightarrow> bytes \<Rightarrow> bytes" where
  "prf256 \<equiv> hmac sha256 64"

lemma length_prf256 [simp]: "length (prf256 k m) = 32"
  by (simp add: hmac_def length_sha256)

lemma CHMAC_one: "fst (CHMAC_SHA256_Finalize (CHMAC_SHA256_Write (CHMAC_SHA256_new k) m)) = prf256 k m"
  using CHMAC_SHA256_hmac [of k "[m]"] by simp

lemma CHMAC_two:
  "fst (CHMAC_SHA256_Finalize (CHMAC_SHA256_Write (CHMAC_SHA256_Write (CHMAC_SHA256_new k) m) d)) = prf256 k (m @ d)"
  using CHMAC_SHA256_hmac [of k "[m, d]"] by simp

lemma pbkdf2_chain_foldl:
  "pbkdf2_chain n (CHMAC_SHA256_new P) U T = foldl (map2 (XOR)) T (map (\<lambda>j. (prf256 P ^^ Suc j) U) [0..<n])"
proof (induction n arbitrary: U T)
  case (Suc n)
  have "map (\<lambda>j. (prf256 P ^^ Suc j) U) [0..<Suc n] = prf256 P U # map (\<lambda>j. (prf256 P ^^ Suc j) (prf256 P U)) [0..<n]"
    by (simp only: upt_conv_Cons map_Suc_upt [symmetric] list.map map_map o_def) (simp add: funpow_swap1)
  then show ?case by (simp only: pbkdf2_chain.simps Let_def CHMAC_one Suc foldl_Cons)
qed simp

lemma pbkdf2_chain_F:
  "pbkdf2_chain (c - 1) (CHMAC_SHA256_new P) (prf256 P (S @ WriteBE32 (word_of_nat i))) (prf256 P (S @ WriteBE32 (word_of_nat i))) =
   pbkdf2_F (prf256 P) S c i"
proof -
  have "[1..<c] = map Suc [0..<c - 1]" by (cases c) (simp_all add: map_Suc_upt)
  then show ?thesis
    unfolding pbkdf2_chain_foldl pbkdf2_F_def Let_def by (simp add: o_def funpow_swap1)
qed

lemma length_foldl_xor: "(\<And>y. y \<in> set ys \<Longrightarrow> length y = length x) \<Longrightarrow> length (foldl (map2 (XOR)) (x :: bytes) ys) = length x"
  by (induction ys arbitrary: x) simp_all

lemma length_pbkdf2_F: "length (pbkdf2_F (prf256 P) S c i) = 32"
  unfolding pbkdf2_F_def Let_def by (subst length_foldl_xor) auto

lemma pbkdf2_loop_eq:
  assumes "length buf = dkLen"
  shows "pbkdf2_loop (CHMAC_SHA256_new P) (CHMAC_SHA256_Write (CHMAC_SHA256_new P) S) c dkLen i buf =
    take (i * 32) buf @ take (dkLen - i * 32) (concat (map (\<lambda>i. pbkdf2_F (prf256 P) S c (Suc i)) [i..<(dkLen + 31) div 32]))"
  using assms
proof (induction "dkLen - i * 32" arbitrary: i buf rule: less_induct)
  case less
  let ?F = "\<lambda>i. pbkdf2_F (prf256 P) S c (Suc i)"
  show ?case
  proof (cases "i * 32 < dkLen")
    case True
    define buf' where "buf' = memcpy_at buf (i * 32) (take (min (dkLen - i * 32) 32) (?F i))"
    have len: "length buf' = dkLen"
      unfolding buf'_def using True less.prems by (subst length_memcpy_at) (auto simp: length_pbkdf2_F)
    have tk: "take ((i + 1) * 32) buf' = take (i * 32) buf @ take (dkLen - i * 32) (?F i)"
      using True less.prems by (auto simp: buf'_def memcpy_at_def length_pbkdf2_F min_def)
    have step: "pbkdf2_loop (CHMAC_SHA256_new P) (CHMAC_SHA256_Write (CHMAC_SHA256_new P) S) c dkLen i buf =
      pbkdf2_loop (CHMAC_SHA256_new P) (CHMAC_SHA256_Write (CHMAC_SHA256_new P) S) c dkLen (i + 1) buf'"
      using True
      by (subst pbkdf2_loop.simps) (simp only: Let_def CHMAC_two be32enc_eq pbkdf2_chain_F buf'_def Suc_eq_plus1 if_True)
    have "i < (dkLen + 31) div 32" using True by simp
    then have up: "[i..<(dkLen + 31) div 32] = i # [i + 1..<(dkLen + 31) div 32]" by (simp add: upt_conv_Cons)
    have "dkLen - (i + 1) * 32 < dkLen - i * 32" using True by simp
    from less.hyps [OF this len] show ?thesis
      unfolding step up tk by (simp add: length_pbkdf2_F add.commute)
  next
    case False
    then show ?thesis using less.prems by (subst pbkdf2_loop.simps) simp
  qed
qed

lemma PBKDF2_SHA256_eq: "length buf = dkLen \<Longrightarrow> PBKDF2_SHA256 P S c buf dkLen = pbkdf2 prf256 P S c dkLen"
  by (simp add: PBKDF2_SHA256_def Let_def pbkdf2_loop_eq pbkdf2_def)

lemma length_pbkdf2: "length (pbkdf2 prf256 P S c dkLen) = dkLen"
proof -
  have "length (concat (map (\<lambda>i. pbkdf2_F (prf256 P) S c (Suc i)) [0..<n])) = n * 32" for n
    by (induction n) (simp_all add: length_pbkdf2_F)
  then show ?thesis by (simp add: pbkdf2_def)
qed

section \<open>Salsa20/8\<close>

lemma list_16E:
  assumes "length x = 16"
  obtains x0 x1 x2 x3 x4 x5 x6 x7 x8 x9 x10 x11 x12 x13 x14 x15
  where "x = [x0, x1, x2, x3, x4, x5, x6, x7, x8, x9, x10, x11, x12, x13, x14, x15]"
  using assms by (auto simp: numeral_eq_Suc length_Suc_conv)

lemma ROTL_rotl: "ROTL x 7 = word_rotl 7 x" "ROTL x 9 = word_rotl 9 x" "ROTL x 13 = word_rotl 13 x" "ROTL x 18 = word_rotl 18 x"
  by (simp_all add: ROTL_def rotl32_shifts)

lemma columns_round: "length x = 16 \<Longrightarrow> fold salsa_step salsa_columns x = columnround x"
  by (erule list_16E) (simp add: salsa_columns_def columnround_def quarterround_def ROTL_rotl Let_def)

lemma rows_round: "length x = 16 \<Longrightarrow> fold salsa_step salsa_rows x = rowround x"
  by (erule list_16E) (simp add: salsa_rows_def rowround_def quarterround_def ROTL_rotl Let_def)

lemma length_salsa_fold [simp]: "length (fold salsa_step ss x) = length x"
proof (induction ss arbitrary: x)
  case (Cons s ss)
  then show ?case by (cases s) simp
qed simp

lemma double_rounds:
  "length x = 16 \<Longrightarrow>
   ((\<lambda>x. fold salsa_step salsa_rows (fold salsa_step salsa_columns x)) ^^ n) x = ((rowround \<circ> columnround) ^^ n) x \<and>
   length (((rowround \<circ> columnround) ^^ n) x) = 16"
proof (induction n)
  case (Suc n)
  then show ?case
    using rows_round [of "fold salsa_step salsa_columns (((rowround \<circ> columnround) ^^ n) x)"]
    by (simp add: columns_round) (metis columns_round length_salsa_fold rows_round)
qed simp

lemma xor_salsa8_eq: "length A = 16 \<Longrightarrow> length B = 16 \<Longrightarrow> xor_salsa8 A B = salsa20_8 (map2 (XOR) A B)"
  using double_rounds [of "map2 (XOR) A B" 4] by (simp add: xor_salsa8_def salsa20_8_def Let_def)

lemma length_salsa20_8: "length x = 16 \<Longrightarrow> length (salsa20_8 x) = 16"
  using double_rounds [of x 4] by (simp add: salsa20_8_def)

section \<open>Mixing\<close>

definition halves :: "u32 list \<Rightarrow> u32 list list" where
  "halves X = [take 16 X, drop 16 X]"

lemma concat_halves [simp]: "concat (halves X) = X"
  by (simp add: halves_def)

lemma map2_xor_commute: "length A = length B \<Longrightarrow> map2 (XOR) A B = map2 (XOR) B (A :: 'a::len word list)"
  by (rule nth_equalityI) (simp_all add: xor.commute)

lemma salsa_both_mix: "length X = 32 \<Longrightarrow> length (salsa_both X) = 32 \<and> halves (salsa_both X) = scryptBlockMix (halves X)"
proof -
  assume X: "length X = 32"
  let ?A = "take 16 X" and ?B = "drop 16 X"
  let ?Y = "salsa20_8 (map2 (XOR) ?A ?B)"
  have Y: "length ?Y = 16" using X by (intro length_salsa20_8) simp
  let ?Z = "salsa20_8 (map2 (XOR) ?B ?Y)"
  have Z: "length ?Z = 16" using X Y by (intro length_salsa20_8) simp
  have "salsa_both X = ?Y @ ?Z" using X Y by (simp add: salsa_both_def xor_salsa8_eq Let_def)
  moreover have "scryptBlockMix (halves X) = [?Y, ?Z]"
    using X Y map2_xor_commute [of ?B ?A] map2_xor_commute [of ?Y ?B]
    by (simp add: scryptBlockMix_def halves_def Let_def)
  ultimately show ?thesis using Y Z by (simp add: halves_def)
qed

lemma length_salsa_iter: "length X = 32 \<Longrightarrow> length ((salsa_both ^^ n) X) = 32"
  by (induction n) (simp_all add: salsa_both_mix)

lemma halves_iter: "length X = 32 \<Longrightarrow> halves ((salsa_both ^^ n) X) = (scryptBlockMix ^^ n) (halves X)"
  by (induction n) (simp_all add: salsa_both_mix length_salsa_iter)

lemma scrypt_fill_eq:
  "length X = 32 \<Longrightarrow> 32 * (i + n) \<le> length V \<Longrightarrow>
   scrypt_fill n i V X =
   (take (32 * i) V @ concat (map (\<lambda>k. (salsa_both ^^ k) X) [0..<n]) @ drop (32 * (i + n)) V, (salsa_both ^^ n) X)"
proof (induction n arbitrary: i V X)
  case (Suc n)
  let ?V = "memcpy_at V (i * 32) X"
  have len: "length ?V = length V" using Suc.prems by (intro length_memcpy_at) simp
  have up: "[0..<Suc n] = 0 # map Suc [0..<n]" by (simp add: map_Suc_upt upt_conv_Cons del: upt_Suc)
  have "take (32 * (i + 1)) ?V = take (32 * i) V @ X" "drop (32 * (i + 1 + n)) ?V = drop (32 * (i + Suc n)) V"
    using Suc.prems by (simp_all add: memcpy_at_def algebra_simps)
  with Suc.IH [of "salsa_both X" "i + 1" ?V] Suc.prems len show ?case
    unfolding up by (simp add: salsa_both_mix funpow_swap1 o_def)
qed simp

lemma nth_concat_uniform:
  "(\<And>x. x \<in> set xs \<Longrightarrow> length x = m) \<Longrightarrow> j < length xs \<Longrightarrow> k < m \<Longrightarrow> concat xs ! (m * j + k) = xs ! j ! k"
proof (induction xs arbitrary: j)
  case (Cons x xs)
  then show ?case by (cases j) (simp_all add: nth_append)
qed simp

lemma scrypt_index: "length X = 32 \<Longrightarrow> unat (X ! 16 AND 1023) = Integerify (halves X) mod 1024"
proof -
  assume "length X = 32"
  then have "drop 16 X = X ! 16 # drop 17 X" by (simp add: Cons_nth_drop_Suc [symmetric])
  moreover have "(1023 :: u32) = mask 10" by (simp add: mask_eq_exp_minus_1)
  then have "unat (X ! 16 AND 1023) = unat (X ! 16) mod 2 ^ 10" by (simp only: unat_and_mask)
  moreover have "(unat (X ! 16) + 2 ^ 32 * u) mod 1024 = unat (X ! 16) mod 1024" for u :: nat
    using mod_mult_self2 [of "unat (X ! 16)" 1024 "2 ^ 22 * u"] by simp
  ultimately show ?thesis by (simp add: Integerify_def halves_def)
qed

lemma scrypt_mix_eq:
  assumes X0: "length X0 = 32" and V: "V = concat (map (\<lambda>k. (salsa_both ^^ k) X0) [0..<1024])"
  shows "length X = 32 \<Longrightarrow> halves (scrypt_mix n V X) =
    ((\<lambda>X. scryptBlockMix (map2 (map2 (XOR)) X ((scryptBlockMix ^^ (Integerify X mod 1024)) (halves X0)))) ^^ n) (halves X)"
proof (induction n arbitrary: X)
  case (Suc n)
  let ?j = "Integerify (halves X) mod 1024"
  let ?W = "(salsa_both ^^ ?j) X0"
  let ?X = "map (\<lambda>k. X ! k XOR V ! (32 * ?j + k)) [0..<32]"
  have W: "length ?W = 32" by (rule length_salsa_iter [OF X0])
  have "V ! (32 * ?j + k) = ?W ! k" if "k < 32" for k
    unfolding V using that X0 by (subst nth_concat_uniform) (auto simp: length_salsa_iter)
  then have X': "?X = map2 (XOR) X ?W" using Suc.prems W by (intro nth_equalityI) simp_all
  have "halves (map2 (XOR) X ?W) = map2 (map2 (XOR)) (halves X) (halves ?W)"
    by (simp add: halves_def take_map drop_map take_zip drop_zip)
  then have "halves (salsa_both ?X) = scryptBlockMix (map2 (map2 (XOR)) (halves X) ((scryptBlockMix ^^ ?j) (halves X0)))"
    and "length (salsa_both ?X) = 32"
    unfolding X' using salsa_both_mix [of "map2 (XOR) X ?W"] Suc.prems W halves_iter [OF X0, of ?j] by simp_all
  with Suc.IH [of "salsa_both ?X"] show ?case
    by (simp only: scrypt_mix.simps scrypt_index [OF Suc.prems] Let_def funpow_Suc_right o_apply)
qed simp

section \<open>Properties\<close>

lemma le32dec_eq: "4 \<le> length p \<Longrightarrow> le32dec p = le_word (take 4 p)"
proof -
  assume "4 \<le> length p"
  then obtain a b c d ps where p: "p = a # b # c # d # ps"
    by (auto simp: numeral_eq_Suc Suc_le_length_iff)
  have lt: "unat x < 256" for x :: u8 using unsigned_less [of x, where ?'a = nat] by simp
  have sh: "unat (push_bit n (ucast x :: u32)) = unat x * 2 ^ n" if "n \<le> 24" for n and x :: u8
  proof -
    have "unat x * 2 ^ n < 2 ^ 8 * 2 ^ 24"
      using lt [of x] power_increasing [OF that, of "2 :: nat"] by (intro mult_less_le_imp_less) simp_all
    moreover have "unat (ucast x :: u32) = unat x" using lt [of x] by (simp add: unsigned_ucast_eq take_bit_nat_eq_self)
    ultimately have "take_bit 32 (push_bit n (unat (ucast x :: u32))) = unat x * 2 ^ n"
      by (simp add: push_bit_eq_mult take_bit_nat_eq_self)
    then show ?thesis by (simp only: unsigned_push_bit_eq) simp
  qed
  have "unat (le_word (take 4 p) :: u32) = bval (take 4 p)" by (rule unat_le_word) (simp add: p)
  also have "\<dots> = unat (le32dec p)"
    using lt [of a] lt [of b] lt [of c] lt [of d] sh [of 0 a] sh [of 8 b] sh [of 16 c] sh [of 24 d]
    by (simp add: p le32dec_def unat_word_ariths)
  finally have "unat (le32dec p) = unat (le_word (take 4 p) :: u32)" by (rule sym)
  then show ?thesis by (rule unsigned_word_eqI)
qed

lemma pieces_map: "pieces k n xs = map (\<lambda>i. take k (drop (k * i) xs)) [0..<n]"
proof (induction n arbitrary: xs)
  case (Suc n)
  have up: "[0..<Suc n] = 0 # map Suc [0..<n]" by (simp add: map_Suc_upt upt_conv_Cons del: upt_Suc)
  show ?case unfolding up by (simp add: Suc add.commute)
qed simp

lemma words_halves:
  assumes "length B = 128"
  shows "map (map le_word \<circ> pieces 4 16) (pieces 64 2 B) = halves (map (\<lambda>k. le32dec (drop (4 * k) B)) [0..<32])"
proof -
  have 1: "map le_word (pieces 4 16 (take 64 (drop (64 * h) B))) = map (\<lambda>k. le32dec (drop (4 * (16 * h + k)) B)) [0..<16]" if "h < 2" for h
  proof (rule nth_equalityI)
    fix k assume "k < length (map le_word (pieces 4 16 (take 64 (drop (64 * h) B))))"
    then have k: "k < 16" by (simp add: pieces_map)
    have "take 4 (drop (4 * k) (take 64 (drop (64 * h) B))) = take 4 (drop (4 * (16 * h + k)) B)"
      using k by (simp add: drop_take min_def add.commute algebra_simps)
    with k that assms show "map le_word (pieces 4 16 (take 64 (drop (64 * h) B))) ! k = map (\<lambda>k. le32dec (drop (4 * (16 * h + k)) B)) [0..<16] ! k"
      by (simp add: pieces_map le32dec_eq)
  qed (simp add: pieces_map)
  have 2: "halves (map f [0..<32]) = [map f [0..<16], map (\<lambda>k. f (16 + k)) [0..<16]]" for f :: "nat \<Rightarrow> u32"
    by (rule nth_equalityI) (auto simp: halves_def take_map drop_map less_Suc_eq intro!: nth_equalityI)
  have "pieces 64 2 B = [take 64 (drop (64 * 0) B), take 64 (drop (64 * 1) B)]" by (simp add: numeral_2_eq_2)
  then show ?thesis using 1 [of 0] 1 [of 1] by (simp add: 2)
qed

text \<open>
  C36: the proof-of-work hash \<open>scrypt_1024_1_1_256\<close> of an 80-byte input, or of the first 80 bytes of a longer one, computes the scrypt function
  of RFC 7914 with these bytes as password and as salt, cost 1024, block size and parallelisation 1 and a 32-byte result: the in-place
  Salsa20/8 double rounds, the flat scratchpad and the masked index are the specification's block mixing and
  sequential memory-hard function, and both key derivations are PBKDF2 with HMAC-SHA-256.
\<close>

theorem scrypt_rfc7914: "scrypt_1024_1_1_256 input = scrypt (take 80 input) (take 80 input) 1024 1 1 32"
proof -
  define B where "B = pbkdf2 prf256 (take 80 input) (take 80 input) 1 128"
  have B: "length B = 128" by (simp add: B_def length_pbkdf2)
  define X where "X = map (\<lambda>k. le32dec (drop (4 * k) B)) [0..<32]"
  have X: "length X = 32" by (simp add: X_def)
  define V where "V = concat (map (\<lambda>k. (salsa_both ^^ k) X) [0..<1024])"
  have fill: "scrypt_fill 1024 0 (replicate 32768 0) X = (V, (salsa_both ^^ 1024) X)"
    unfolding V_def using scrypt_fill_eq [OF X, of 0 1024 "replicate 32768 0"] by simp
  have "halves (scrypt_mix 1024 V ((salsa_both ^^ 1024) X)) = scryptROMix 1024 (halves X)"
    using scrypt_mix_eq [OF X V_def length_salsa_iter [OF X], of 1024 1024] by (simp only: halves_iter [OF X] scryptROMix_def)
  then have mix: "scrypt_mix 1024 V ((salsa_both ^^ 1024) X) = concat (scryptROMix 1024 (halves X))"
    by (metis concat_halves)
  have "map (map le_word \<circ> pieces 4 16) (pieces 64 2 B) = halves X" unfolding X_def by (rule words_halves [OF B])
  moreover have "pieces 128 1 B = [B]" using B by simp
  ultimately have "scrypt (take 80 input) (take 80 input) 1024 1 1 32 =
      pbkdf2 prf256 (take 80 input) (concat (map WriteLE32 (concat (scryptROMix 1024 (halves X))))) 1 32"
    unfolding scrypt_def Let_def mult_1_right mult_1 B_def [symmetric] by (simp only: list.map concat.simps append_Nil2)
  moreover have "scrypt_1024_1_1_256 input =
      pbkdf2 prf256 (take 80 input) (concat (map WriteLE32 (concat (scryptROMix 1024 (halves X))))) 1 32"
    unfolding scrypt_1024_1_1_256_def scrypt_1024_1_1_256_sp_generic_def
    by (simp only: PBKDF2_SHA256_eq length_replicate Let_def B_def [symmetric] X_def [symmetric] fill prod.case mix le32enc_eq)
  ultimately show ?thesis by simp
qed

end
