(* ===== verification/Serialize.thy ===== *)
theory Serialize
  imports Hasher
begin

text \<open>
  \<^verbatim>\<open>src/serialize.h\<close>, \<^verbatim>\<open>src/streams.h\<close>: the wire format. Writing an object appends bytes to a stream, so it is the byte
  string it appends. Reading consumes bytes from the front of a stream and can throw, so it maps the bytes that
  remain to an error or to a value and the bytes left over. The stream class \<open>CDataStream\<close> itself, with its buffer and its
  32-bit read position, is modelled separately and shown to provide this interface.
\<close>

section \<open>Readers\<close>

datatype ser_error =
    EndOfData
  | NonCanonicalSize
  | SizeTooLarge
  | StringLimitExceeded
  | UnknownOptionalData
  | NegativeIgnore
  | OutOfBounds

type_synonym 'a reader = "bytes \<Rightarrow> ser_error + 'a \<times> bytes"

definition then_read :: "'a reader \<Rightarrow> ('a \<Rightarrow> 'b reader) \<Rightarrow> 'b reader" where
  "then_read r f s = (case r s of Inl e \<Rightarrow> Inl e | Inr (a, s') \<Rightarrow> f a s')"

definition return_read :: "'a \<Rightarrow> 'a reader" where
  "return_read a s = Inr (a, s)"

definition throw_read :: "ser_error \<Rightarrow> 'a reader" where
  "throw_read e s = Inl e"

definition read_bytes :: "nat \<Rightarrow> bytes reader" where
  "read_bytes n s = (if n \<le> length s then Inr (take n s, drop n s) else Inl EndOfData)"

section \<open>Integers\<close>

definition ser_writedata8 :: "u8 \<Rightarrow> bytes" where "ser_writedata8 obj = [obj]"
definition ser_writedata16 :: "u16 \<Rightarrow> bytes" where "ser_writedata16 obj = WriteLE16 obj"
definition ser_writedata32 :: "u32 \<Rightarrow> bytes" where "ser_writedata32 obj = WriteLE32 obj"
definition ser_writedata64 :: "u64 \<Rightarrow> bytes" where "ser_writedata64 obj = WriteLE64 obj"

definition ser_readdata8 :: "u8 reader" where
  "ser_readdata8 = then_read (read_bytes 1) (\<lambda>b. return_read (b ! 0))"
definition ser_readdata16 :: "u16 reader" where
  "ser_readdata16 = then_read (read_bytes 2) (\<lambda>b. return_read (ReadLE16 b))"
definition ser_readdata32 :: "u32 reader" where
  "ser_readdata32 = then_read (read_bytes 4) (\<lambda>b. return_read (ReadLE32 b))"
definition ser_readdata64 :: "u64 reader" where
  "ser_readdata64 = then_read (read_bytes 8) (\<lambda>b. return_read (ReadLE64 b))"

text \<open>Signed integers are written through their unsigned representation.\<close>

definition ser_int32 :: "int \<Rightarrow> bytes" where "ser_int32 a = ser_writedata32 (word_of_int a)"
definition ser_int64 :: "int \<Rightarrow> bytes" where "ser_int64 a = ser_writedata64 (word_of_int a)"
definition unser_int32 :: "int reader" where
  "unser_int32 = then_read ser_readdata32 (\<lambda>w. return_read (sint w))"
definition unser_int64 :: "int reader" where
  "unser_int64 = then_read ser_readdata64 (\<lambda>w. return_read (sint w))"

section \<open>Compact sizes\<close>

abbreviation (input) MAX_SIZE :: u64 where
  "MAX_SIZE \<equiv> 0x02000000"

definition GetSizeOfCompactSize :: "u64 \<Rightarrow> nat" where
  "GetSizeOfCompactSize nSize =
     (if nSize < 253 then 1
      else if nSize \<le> 0xffff then 1 + 2
      else if nSize \<le> 0xffffffff then 1 + 4
      else 1 + 8)"

definition WriteCompactSize :: "u64 \<Rightarrow> bytes" where
  "WriteCompactSize nSize =
     (if nSize < 253 then ser_writedata8 (ucast nSize)
      else if nSize \<le> 0xffff then ser_writedata8 253 @ ser_writedata16 (ucast nSize)
      else if nSize \<le> 0xffffffff then ser_writedata8 254 @ ser_writedata32 (ucast nSize)
      else ser_writedata8 255 @ ser_writedata64 nSize)"

definition ReadCompactSize :: "u64 reader" where
  "ReadCompactSize =
     then_read ser_readdata8 (\<lambda>chSize.
       let check = (\<lambda>nSizeRet. if nSizeRet > MAX_SIZE then throw_read SizeTooLarge else return_read nSizeRet)
       in if chSize < 253 then check (ucast chSize)
          else if chSize = 253 then
            then_read ser_readdata16 (\<lambda>n. if (ucast n :: u64) < 253 then throw_read NonCanonicalSize else check (ucast n))
          else if chSize = 254 then
            then_read ser_readdata32 (\<lambda>n. if (ucast n :: u64) < 0x10000 then throw_read NonCanonicalSize else check (ucast n))
          else
            then_read ser_readdata64 (\<lambda>n. if n < 0x100000000 then throw_read NonCanonicalSize else check n))"

section \<open>Variable-length integers\<close>

lemma varint_next:
  assumes "\<not> unat (n :: 'a::len word) \<le> 0x7F"
  shows "drop_bit 7 n \<noteq> 0" and "unat (drop_bit 7 n - 1) = unat n div 128 - 1"
proof -
  have d: "unat (drop_bit 7 n) = unat n div 128" by (simp add: unat_drop_bit)
  then have "unat (drop_bit 7 n) \<noteq> 0" using assms by simp
  then show "drop_bit 7 n \<noteq> 0" by (metis unsigned_0)
  then show "unat (drop_bit 7 n - 1) = unat n div 128 - 1" using d by (simp add: unat_minus_one)
qed

text \<open>
  The buffer \<open>tmp\<close> is filled from index \<open>0\<close> upwards and written from \<open>len\<close> downwards, so it is kept with its last entry first.
\<close>

function WriteVarInt_loop :: "'a::len word \<Rightarrow> bytes \<Rightarrow> bytes" where
  "WriteVarInt_loop n tmp =
     (let tmp = (ucast (n AND 0x7F) OR (if tmp \<noteq> [] then 0x80 else 0)) # tmp
      in if unat n \<le> 0x7F then tmp else WriteVarInt_loop (drop_bit 7 n - 1) tmp)"
  by pat_completeness auto
termination
  by (relation "measure (\<lambda>(n :: 'a::len word, tmp). unat n)") (auto simp: varint_next)

declare WriteVarInt_loop.simps [simp del]

definition WriteVarInt :: "'a::len word \<Rightarrow> bytes" where
  "WriteVarInt n = WriteVarInt_loop n []"

function GetSizeOfVarInt_loop :: "'a::len word \<Rightarrow> nat \<Rightarrow> nat" where
  "GetSizeOfVarInt_loop n nRet =
     (if unat n \<le> 0x7F then nRet + 1 else GetSizeOfVarInt_loop (drop_bit 7 n - 1) (nRet + 1))"
  by pat_completeness auto
termination
  by (relation "measure (\<lambda>(n :: 'a::len word, r). unat n)") (auto simp: varint_next)

declare GetSizeOfVarInt_loop.simps [simp del]

definition GetSizeOfVarInt :: "'a::len word \<Rightarrow> nat" where
  "GetSizeOfVarInt n = GetSizeOfVarInt_loop n 0"

primrec ReadVarInt_loop :: "bytes \<Rightarrow> 'a::len word \<Rightarrow> ser_error + 'a word \<times> bytes" where
  "ReadVarInt_loop [] n = Inl EndOfData"
| "ReadVarInt_loop (chData # s) n =
     (let n = push_bit 7 n OR ucast (chData AND 0x7F)
      in if chData AND 0x80 \<noteq> 0 then ReadVarInt_loop s (n + 1) else Inr (n, s))"

definition ReadVarInt :: "'a::len word reader" where
  "ReadVarInt s = ReadVarInt_loop s 0"

section \<open>Byte strings, vectors\<close>

definition ser_blob :: "bytes \<Rightarrow> bytes" where
  "ser_blob v = WriteCompactSize (word_of_nat (length v)) @ v"

text \<open>Blobs are read in slices of at most five million bytes.\<close>

function read_slices :: "nat \<Rightarrow> nat \<Rightarrow> bytes \<Rightarrow> bytes reader" where
  "read_slices nSize i v =
     (if i < nSize
      then let blk = min (nSize - i) (1 + 4999999)
           in then_read (read_bytes blk) (\<lambda>b. read_slices nSize (i + blk) (v @ b))
      else return_read v)"
  by pat_completeness auto
termination
  by (relation "measure (\<lambda>(nSize, i, v). nSize - i)") auto

declare read_slices.simps [simp del]

definition unser_blob :: "bytes reader" where
  "unser_blob = then_read ReadCompactSize (\<lambda>nSize. read_slices (unat nSize) 0 [])"

definition ser_vector :: "('a \<Rightarrow> bytes) \<Rightarrow> 'a list \<Rightarrow> bytes" where
  "ser_vector ser v = WriteCompactSize (word_of_nat (length v)) @ concat (map ser v)"

primrec read_items :: "'a reader \<Rightarrow> nat \<Rightarrow> 'a list reader" where
  "read_items unser 0 = return_read []"
| "read_items unser (Suc n) = then_read unser (\<lambda>a. then_read (read_items unser n) (\<lambda>as. return_read (a # as)))"

definition unser_vector :: "'a reader \<Rightarrow> 'a list reader" where
  "unser_vector unser = then_read ReadCompactSize (\<lambda>nSize. read_items unser (unat nSize))"

text \<open>\<open>LimitedString\<close>, with its limit as the first argument.\<close>

definition unser_limited_string :: "nat \<Rightarrow> bytes reader" where
  "unser_limited_string Limit =
     then_read ReadCompactSize (\<lambda>size.
       if unat size > Limit then throw_read StringLimitExceeded else read_bytes (unat size))"

definition ser_pair :: "('a \<Rightarrow> bytes) \<Rightarrow> ('b \<Rightarrow> bytes) \<Rightarrow> 'a \<times> 'b \<Rightarrow> bytes" where
  "ser_pair s t item = s (fst item) @ t (snd item)"

definition unser_pair :: "'a reader \<Rightarrow> 'b reader \<Rightarrow> ('a \<times> 'b) reader" where
  "unser_pair r q = then_read r (\<lambda>a. then_read q (\<lambda>b. return_read (a, b)))"

section \<open>The stream class\<close>

record CDataStream =
  vch :: bytes
  nReadPos :: nat

text \<open>The read position is a 32-bit unsigned integer. Copying from outside the buffer is the error \<open>OutOfBounds\<close>.\<close>

definition CDataStream_read :: "CDataStream \<Rightarrow> nat \<Rightarrow> ser_error + bytes \<times> CDataStream" where
  "CDataStream_read s nSize =
     (if nSize = 0 then Inr ([], s)
      else let nReadPosNext = (nReadPos s + nSize) mod 2 ^ 32
           in if nReadPosNext > length (vch s) then Inl EndOfData
              else if nReadPos s + nSize > length (vch s) then Inl OutOfBounds
              else let pch = take nSize (drop (nReadPos s) (vch s))
                   in if nReadPosNext = length (vch s) then Inr (pch, s\<lparr>vch := [], nReadPos := 0\<rparr>)
                      else Inr (pch, s\<lparr>nReadPos := nReadPosNext\<rparr>))"

definition CDataStream_ignore :: "CDataStream \<Rightarrow> int \<Rightarrow> ser_error + CDataStream" where
  "CDataStream_ignore s nSize =
     (if nSize < 0 then Inl NegativeIgnore
      else let nReadPosNext = (nReadPos s + nat nSize) mod 2 ^ 32
           in if nReadPosNext > length (vch s) then Inl EndOfData
              else if nReadPosNext = length (vch s) then Inr (s\<lparr>vch := [], nReadPos := 0\<rparr>)
              else Inr (s\<lparr>nReadPos := nReadPosNext\<rparr>))"

definition CDataStream_write :: "CDataStream \<Rightarrow> bytes \<Rightarrow> CDataStream" where
  "CDataStream_write s pch = s\<lparr>vch := vch s @ pch\<rparr>"

definition CDataStream_size :: "CDataStream \<Rightarrow> nat" where
  "CDataStream_size s = length (vch s) - nReadPos s"

definition CDataStream_clear :: "CDataStream \<Rightarrow> CDataStream" where
  "CDataStream_clear s = s\<lparr>vch := [], nReadPos := 0\<rparr>"

definition CDataStream_Compact :: "CDataStream \<Rightarrow> CDataStream" where
  "CDataStream_Compact s = s\<lparr>vch := drop (nReadPos s) (vch s), nReadPos := 0\<rparr>"

definition CDataStream_Rewind :: "CDataStream \<Rightarrow> nat \<Rightarrow> bool \<times> CDataStream" where
  "CDataStream_Rewind s n = (if n > nReadPos s then (False, s) else (True, s\<lparr>nReadPos := nReadPos s - n\<rparr>))"

text \<open>The bytes still to be read, and the invariant.\<close>

definition unread :: "CDataStream \<Rightarrow> bytes" where
  "unread s = drop (nReadPos s) (vch s)"

definition stream_ok :: "CDataStream \<Rightarrow> bool" where
  "stream_ok s \<longleftrightarrow> nReadPos s \<le> length (vch s) \<and> length (vch s) < 2 ^ 32"

section \<open>Facts\<close>

lemmas reader_defs = then_read_def return_read_def throw_read_def read_bytes_def

lemma then_read_Inr: "then_read r f s = Inr x \<longleftrightarrow> (\<exists>a s'. r s = Inr (a, s') \<and> f a s' = Inr x)"
  by (auto simp: then_read_def split: sum.splits)

lemma then_read_step: "r s = Inr (a, s') \<Longrightarrow> then_read r f s = f a s'"
  by (simp add: then_read_def)

lemma read_bytes_Inr: "read_bytes n s = Inr (b, r) \<longleftrightarrow> length b = n \<and> s = b @ r"
  by (auto simp: read_bytes_def)

lemma read_bytes_append: "read_bytes (length b) (b @ s) = Inr (b, s)"
  by (simp add: read_bytes_def)

text \<open>
  What a pair of a writer and a reader promises: a value that can be written reads back and leaves the rest of the
  stream, and what was read is the encoding of its value.
\<close>

locale wire =
  fixes ser :: "'a \<Rightarrow> bytes" and unser :: "'a reader" and ok :: "'a \<Rightarrow> bool"
  assumes parse_print: "ok a \<Longrightarrow> unser (ser a @ s) = Inr (a, s)"
    and print_parse: "unser s = Inr (a, r) \<Longrightarrow> ok a \<and> s = ser a @ r"
begin

lemma parse_iff: "unser s = Inr (a, r) \<longleftrightarrow> ok a \<and> s = ser a @ r"
  using parse_print print_parse by blast

lemma ser_inject: "ok a \<Longrightarrow> ok b \<Longrightarrow> ser a @ s = ser b @ t \<Longrightarrow> a = b \<and> s = t"
  using parse_print [of a s] parse_print [of b t] by (metis Inr_inject prod.inject)

lemma parse_many: "list_all ok as \<Longrightarrow> read_items unser (length as) (concat (map ser as) @ s) = Inr (as, s)"
  by (induction as) (simp_all add: parse_print then_read_def return_read_def)

lemma many_parse: "read_items unser n s = Inr (as, r) \<Longrightarrow> list_all ok as \<and> length as = n \<and> s = concat (map ser as) @ r"
proof (induction n arbitrary: s as)
  case (Suc n)
  then obtain a s' as' where "unser s = Inr (a, s')" "read_items unser n s' = Inr (as', r)" "as = a # as'"
    by (auto simp: then_read_Inr return_read_def)
  with Suc.IH [of s' as'] print_parse [of s a s'] show ?case by simp
qed (simp add: return_read_def)

end

lemma wire_word:
  assumes "LENGTH('a) = 8 * n"
  shows "wire (le_bytes n :: 'a::len word \<Rightarrow> bytes) (then_read (read_bytes n) (\<lambda>b. return_read (le_word (take n b)))) (\<lambda>_. True)"
proof
  fix a :: "'a word" and s r
  have rd: "read_bytes n (le_bytes n a @ s) = Inr (le_bytes n a, s)" by (simp add: read_bytes_def)
  have w: "le_word (le_bytes n a) = a" by (rule le_word_le_bytes [OF assms])
  show "then_read (read_bytes n) (\<lambda>b. return_read (le_word (take n b))) (le_bytes n a @ s) = Inr (a, s)"
    by (simp add: then_read_def return_read_def rd w)
  assume "then_read (read_bytes n) (\<lambda>b. return_read (le_word (take n b))) s = Inr (a, r)"
  then obtain b s' where "read_bytes n s = Inr (b, s')" "return_read (le_word (take n b)) s' = Inr (a, r)"
    unfolding then_read_Inr by blast
  then have "length b = n" "s = b @ r" "a = le_word b" by (simp_all add: read_bytes_Inr return_read_def)
  moreover from this have "le_bytes n (le_word b :: 'a word) = b" using assms by (intro le_bytes_le_word) simp_all
  ultimately show "True \<and> s = le_bytes n a @ r" by simp
qed

interpretation wire8: wire ser_writedata8 ser_readdata8 "\<lambda>_. True"
proof
  fix a :: u8 and s r
  show "ser_readdata8 (ser_writedata8 a @ s) = Inr (a, s)"
    by (simp add: ser_readdata8_def ser_writedata8_def reader_defs)
  assume "ser_readdata8 s = Inr (a, r)"
  then show "True \<and> s = ser_writedata8 a @ r"
    by (cases s) (auto simp: ser_readdata8_def ser_writedata8_def reader_defs)
qed

interpretation wire16: wire ser_writedata16 ser_readdata16 "\<lambda>_. True"
  using wire_word [where ?'a = 16, of 2]
  by (simp add: ser_writedata16_def [abs_def] ser_readdata16_def WriteLE16_def [abs_def] ReadLE16_def [abs_def])

interpretation wire32: wire ser_writedata32 ser_readdata32 "\<lambda>_. True"
  using wire_word [where ?'a = 32, of 4]
  by (simp add: ser_writedata32_def [abs_def] ser_readdata32_def WriteLE32_def [abs_def] ReadLE32_def [abs_def])

interpretation wire64: wire ser_writedata64 ser_readdata64 "\<lambda>_. True"
  using wire_word [where ?'a = 64, of 8]
  by (simp add: ser_writedata64_def [abs_def] ser_readdata64_def WriteLE64_def [abs_def] ReadLE64_def [abs_def])

subsection \<open>Signed integers\<close>

interpretation wire_int32: wire ser_int32 unser_int32 "\<lambda>a. - (2 ^ 31) \<le> a \<and> a < 2 ^ 31"
proof
  fix a :: int and s r
  show "unser_int32 (ser_int32 a @ s) = Inr (a, s)" if "- (2 ^ 31) \<le> a \<and> a < 2 ^ 31"
    using that wire32.parse_print [of "word_of_int a" s]
    by (simp add: unser_int32_def ser_int32_def then_read_def return_read_def signed_of_int signed_take_bit_int_eq_self)
  assume "unser_int32 s = Inr (a, r)"
  then obtain w where w: "ser_readdata32 s = Inr (w, r)" "a = sint w" by (auto simp: unser_int32_def then_read_Inr return_read_def)
  then show "(- (2 ^ 31) \<le> a \<and> a < 2 ^ 31) \<and> s = ser_int32 a @ r"
    using wire32.print_parse [of s w r] sint_range_size [of w] by (simp add: ser_int32_def word_size)
qed

interpretation wire_int64: wire ser_int64 unser_int64 "\<lambda>a. - (2 ^ 63) \<le> a \<and> a < 2 ^ 63"
proof
  fix a :: int and s r
  show "unser_int64 (ser_int64 a @ s) = Inr (a, s)" if "- (2 ^ 63) \<le> a \<and> a < 2 ^ 63"
    using that wire64.parse_print [of "word_of_int a" s]
    by (simp add: unser_int64_def ser_int64_def then_read_def return_read_def signed_of_int signed_take_bit_int_eq_self)
  assume "unser_int64 s = Inr (a, r)"
  then obtain w where w: "ser_readdata64 s = Inr (w, r)" "a = sint w" by (auto simp: unser_int64_def then_read_Inr return_read_def)
  then show "(- (2 ^ 63) \<le> a \<and> a < 2 ^ 63) \<and> s = ser_int64 a @ r"
    using wire64.print_parse [of s w r] sint_range_size [of w] by (simp add: ser_int64_def word_size)
qed

subsection \<open>Compact sizes\<close>

lemma unat_ucast_up: "LENGTH('a) \<le> LENGTH('b) \<Longrightarrow> unat (ucast (x :: 'a::len word) :: 'b::len word) = unat x"
proof -
  assume "LENGTH('a) \<le> LENGTH('b)"
  then have "(2::nat) ^ LENGTH('a) \<le> 2 ^ LENGTH('b)" by simp
  then have "unat x < 2 ^ LENGTH('b)" using unsigned_less [of x, where ?'a = nat] by (rule less_le_trans [rotated])
  then show ?thesis by (simp add: unsigned_ucast_eq take_bit_nat_eq_self)
qed

lemma take_bit_word_self: "unat (n :: 'a::len word) < 2 ^ k \<Longrightarrow> take_bit k n = n"
  by (simp only: word_unat_eq_iff unsigned_take_bit_eq) (simp add: take_bit_nat_eq_self)

lemma ucast_up_down: "LENGTH('a) \<le> LENGTH('b) \<Longrightarrow> ucast (ucast (n :: 'a::len word) :: 'b::len word) = n"
  by (rule ucast_up_ucast_id) (simp add: is_up)

interpretation wire_compact: wire WriteCompactSize ReadCompactSize "\<lambda>n. n \<le> MAX_SIZE"
proof
  fix n :: u64 and s r
  have lt: "unat m < 65536" "unat k < 4294967296" "unat b < 256" for m :: u16 and k :: u32 and b :: u8
    using unsigned_less [of m, where ?'a = nat] unsigned_less [of k, where ?'a = nat] unsigned_less [of b, where ?'a = nat] by simp_all
  show "ReadCompactSize (WriteCompactSize n @ s) = Inr (n, s)" if "n \<le> MAX_SIZE"
  proof -
    have max: "unat n \<le> 33554432" using that by (simp add: word_le_nat_alt)
    then consider "unat n < 253" | "253 \<le> unat n" "unat n < 65536" | "65536 \<le> unat n" "unat n < 4294967296"
      by linarith
    then show ?thesis
      using max wire8.parse_print wire16.parse_print wire32.parse_print
      by cases (simp_all add: ReadCompactSize_def WriteCompactSize_def then_read_def return_read_def
          word_le_nat_alt word_less_nat_alt unat_ucast_up take_bit_word_self unsigned_ucast_eq take_bit_nat_eq_self)
  qed
  assume "ReadCompactSize s = Inr (n, r)"
  then obtain b s' where b: "ser_readdata8 s = Inr (b, s')"
    and n: "(let check = (\<lambda>nSizeRet. if nSizeRet > MAX_SIZE then throw_read SizeTooLarge else return_read nSizeRet)
       in if b < 253 then check (ucast b)
          else if b = 253 then
            then_read ser_readdata16 (\<lambda>n. if (ucast n :: u64) < 253 then throw_read NonCanonicalSize else check (ucast n))
          else if b = 254 then
            then_read ser_readdata32 (\<lambda>n. if (ucast n :: u64) < 0x10000 then throw_read NonCanonicalSize else check (ucast n))
          else
            then_read ser_readdata64 (\<lambda>n. if n < 0x100000000 then throw_read NonCanonicalSize else check n)) s' = Inr (n, r)"
    unfolding ReadCompactSize_def then_read_Inr by blast
  have s: "s = ser_writedata8 b @ s'" using wire8.print_parse [OF b] by simp
  consider "b < 253" | "b = 253" | "b = 254" | "b = 255"
  proof -
    have "unat b < 253 \<or> unat b = 253 \<or> unat b = 254 \<or> unat b = 255" using lt(3) [of b] by linarith
    then show thesis using that by (auto simp: word_less_nat_alt word_unat_eq_iff)
  qed
  then show "n \<le> MAX_SIZE \<and> s = WriteCompactSize n @ r"
  proof cases
    case 1
    then show ?thesis using n s
      by (auto simp: WriteCompactSize_def return_read_def throw_read_def word_less_nat_alt word_le_nat_alt unat_ucast_up ucast_up_down split: if_splits)
  next
    case 2
    with n obtain m where "ser_readdata16 s' = Inr (m, r)" "\<not> (ucast m :: u64) < 253" "\<not> (ucast m :: u64) > MAX_SIZE" "n = ucast m"
      by (auto simp: then_read_Inr return_read_def throw_read_def split: if_splits)
    with 2 s lt(1) [of m] wire16.print_parse [of s' m r] show ?thesis
      by (auto simp: WriteCompactSize_def word_less_nat_alt word_le_nat_alt unat_ucast_up ucast_up_down)
  next
    case 3
    with n obtain m where "ser_readdata32 s' = Inr (m, r)" "\<not> (ucast m :: u64) < 0x10000" "\<not> (ucast m :: u64) > MAX_SIZE" "n = ucast m"
      by (auto simp: then_read_Inr return_read_def throw_read_def split: if_splits)
    with 3 s lt(2) [of m] wire32.print_parse [of s' m r] show ?thesis
      by (auto simp: WriteCompactSize_def word_less_nat_alt word_le_nat_alt unat_ucast_up ucast_up_down)
  next
    case 4
    with n obtain m where "\<not> m < 0x100000000" "\<not> m > MAX_SIZE"
      by (auto simp: then_read_Inr return_read_def throw_read_def split: if_splits)
    then show ?thesis by (simp add: word_less_nat_alt)
  qed
qed

lemma length_WriteCompactSize: "length (WriteCompactSize n) = GetSizeOfCompactSize n"
  by (simp add: WriteCompactSize_def GetSizeOfCompactSize_def ser_writedata8_def ser_writedata16_def ser_writedata32_def
      ser_writedata64_def WriteLE16_def WriteLE32_def WriteLE64_def)

lemma unat_of_size: "n \<le> 33554432 \<Longrightarrow> unat (word_of_nat n :: u64) = n"
  by (simp add: unsigned_of_nat take_bit_nat_eq_self)

lemma size_le_MAX: "(word_of_nat n :: u64) \<le> MAX_SIZE \<longleftrightarrow> n mod 2 ^ 64 \<le> 33554432"
  by (simp add: word_le_nat_alt unsigned_of_nat take_bit_eq_mod)

lemma MAX_SIZE_unat: "n \<le> MAX_SIZE \<longleftrightarrow> unat n \<le> 33554432"
  by (simp add: word_le_nat_alt)

subsection \<open>Blobs and vectors\<close>

lemma read_slices_eq:
  "i \<le> nSize \<Longrightarrow> read_slices nSize i v s = then_read (read_bytes (nSize - i)) (\<lambda>b. return_read (v @ b)) s"
proof (induction nSize i v arbitrary: s rule: read_slices.induct)
  case (1 nSize i v)
  show ?case
  proof (cases "i < nSize")
    case True
    define blk where "blk = min (nSize - i) (1 + 4999999)"
    define k where "k = nSize - (i + blk)"
    have le: "i + blk \<le> nSize" "nSize - i = blk + k" using True by (auto simp: blk_def k_def)
    have "read_slices nSize i v s = then_read (read_bytes blk) (\<lambda>b. read_slices nSize (i + blk) (v @ b)) s"
      using True by (subst read_slices.simps) (simp add: Let_def blk_def)
    also have "\<dots> = then_read (read_bytes blk) (\<lambda>b. then_read (read_bytes k) (\<lambda>c. return_read ((v @ b) @ c))) s"
      using "1.IH" [OF True blk_def le(1)] by (simp only: k_def then_read_def [of "read_bytes blk"])
    also have "\<dots> = then_read (read_bytes (nSize - i)) (\<lambda>b. return_read (v @ b)) s"
      unfolding le(2) by (auto simp: then_read_def read_bytes_def return_read_def take_add add.commute)
    finally show ?thesis .
  next
    case False
    with 1 show ?thesis by (subst read_slices.simps) (simp add: then_read_def read_bytes_def return_read_def)
  qed
qed

interpretation wire_blob: wire ser_blob unser_blob "\<lambda>v. length v \<le> 33554432"
proof
  fix v s r
  show "unser_blob (ser_blob v @ s) = Inr (v, s)" if "length v \<le> 33554432"
    using that wire_compact.parse_print [of "word_of_nat (length v)" "v @ s"]
    by (simp add: unser_blob_def ser_blob_def then_read_def MAX_SIZE_unat unat_of_size read_slices_eq read_bytes_def return_read_def)
  assume "unser_blob s = Inr (v, r)"
  then obtain n s' where n: "ReadCompactSize s = Inr (n, s')" "read_slices (unat n) 0 [] s' = Inr (v, r)"
    by (auto simp: unser_blob_def then_read_Inr)
  then have "length v = unat n" "s' = v @ r" by (auto simp: read_slices_eq then_read_Inr read_bytes_Inr return_read_def)
  with wire_compact.print_parse [OF n(1)] show "length v \<le> 33554432 \<and> s = ser_blob v @ r"
    by (simp add: ser_blob_def MAX_SIZE_unat)
qed

context wire
begin

lemma parse_vector:
  "list_all ok v \<and> length v \<le> 33554432 \<Longrightarrow> unser_vector unser (ser_vector ser v @ s) = Inr (v, s)"
  using wire_compact.parse_print [of "word_of_nat (length v)" "concat (map ser v) @ s"] parse_many [of v s]
  by (simp add: unser_vector_def ser_vector_def then_read_def MAX_SIZE_unat unat_of_size)

lemma vector_parse:
  assumes "unser_vector unser s = Inr (v, r)"
  shows "(list_all ok v \<and> length v \<le> 33554432) \<and> s = ser_vector ser v @ r"
proof -
  obtain n s' where n: "ReadCompactSize s = Inr (n, s')" "read_items unser (unat n) s' = Inr (v, r)"
    using assms by (auto simp: unser_vector_def then_read_Inr)
  from many_parse [OF n(2)] wire_compact.print_parse [OF n(1)] show ?thesis
    by (auto simp: ser_vector_def MAX_SIZE_unat)
qed

end

lemma wire_vector:
  "wire ser unser ok \<Longrightarrow> wire (ser_vector ser) (unser_vector unser) (\<lambda>v. list_all ok v \<and> length v \<le> 33554432)"
  by (simp add: wire_def [of "ser_vector ser"] wire.parse_vector wire.vector_parse)

lemma wire_pair:
  assumes "wire s r ok" and "wire t q ok'"
  shows "wire (ser_pair s t) (unser_pair r q) (\<lambda>(a, b). ok a \<and> ok' b)"
proof
  fix a :: "'a \<times> 'b" and x y
  show "unser_pair r q (ser_pair s t a @ x) = Inr (a, x)" if "case a of (a, b) \<Rightarrow> ok a \<and> ok' b"
    using that wire.parse_print [OF assms(1)] wire.parse_print [OF assms(2)]
    by (cases a) (simp add: unser_pair_def ser_pair_def then_read_def return_read_def)
  assume "unser_pair r q x = Inr (a, y)"
  then obtain b c z where "r x = Inr (b, z)" "q z = Inr (c, y)" "a = (b, c)"
    by (auto simp: unser_pair_def then_read_Inr return_read_def)
  then show "(case a of (a, b) \<Rightarrow> ok a \<and> ok' b) \<and> x = ser_pair s t a @ y"
    using wire.print_parse [OF assms(1)] wire.print_parse [OF assms(2)] by (auto simp: ser_pair_def)
qed

subsection \<open>Variable-length integers\<close>

lemma varint_digit:
  assumes "f = 0 \<or> f = (0x80 :: u8)"
  shows "(ucast ((ucast (n AND 0x7F) OR f) AND 0x7F) :: 'a::len word) = n AND 0x7F"
    and "(ucast (n AND 0x7F) OR f) AND 0x80 = 0 \<longleftrightarrow> f = 0"
proof -
  have m: "(0x7F :: 'b::len word) = mask 7" by (simp add: mask_eq_exp_minus_1)
  have "bit (push_bit 7 (1 :: u8)) i \<Longrightarrow> i = 7" for i by (simp only: bit_push_bit_iff bit_1_iff) simp
  then have b: "bit (0x80 :: u8) i \<Longrightarrow> i = 7" for i by simp
  have "(ucast (n AND mask 7) OR f) AND 0x80 = f" if "f = 0 \<or> f = 0x80"
    using that by (intro bit_word_eqI) (auto simp: bit_simps simp del: mask_numeral bit_numeral_word_iff dest: b)
  then show "(ucast (n AND 0x7F) OR f) AND 0x80 = 0 \<longleftrightarrow> f = 0"
    unfolding m using assms by simp
  have "bit f i \<Longrightarrow> i = 7" for i using assms b by auto
  then show "(ucast ((ucast (n AND 0x7F) OR f) AND 0x7F) :: 'a word) = n AND 0x7F"
    unfolding m by (intro bit_word_eqI) (auto simp: bit_simps simp del: mask_numeral)
qed

lemma varint_join: "push_bit 7 (drop_bit 7 n) OR (n AND 0x7F) = (n :: 'a::len word)"
proof -
  have m: "(0x7F :: 'a word) = mask 7" by (simp add: mask_eq_exp_minus_1)
  show ?thesis unfolding m by (rule bit_word_eqI) (auto simp: bit_simps simp del: mask_numeral)
qed

lemma ReadVarInt_WriteVarInt_loop:
  "ReadVarInt_loop (WriteVarInt_loop (n :: 'a::len word) tmp @ s) 0 = (if tmp = [] then Inr (n, s) else ReadVarInt_loop (tmp @ s) (n + 1))"
proof (induction n tmp rule: WriteVarInt_loop.induct)
  case (1 n tmp)
  define b where "b = (ucast (n AND 0x7F) OR (if tmp \<noteq> [] then 0x80 else 0) :: u8)"
  have d: "(ucast (b AND 0x7F) :: 'a word) = n AND 0x7F" "b AND 0x80 = 0 \<longleftrightarrow> tmp = []"
    using varint_digit [of "if tmp \<noteq> [] then 0x80 else 0" n] by (auto simp: b_def)
  have step: "ReadVarInt_loop (b # tmp @ s) (drop_bit 7 n) = (if tmp = [] then Inr (n, s) else ReadVarInt_loop (tmp @ s) (n + 1))"
    using d by (simp add: Let_def varint_join)
  show ?case
  proof (cases "unat n \<le> 0x7F")
    case True
    then have "unat (drop_bit 7 n) = 0" by (simp add: unat_drop_bit)
    then have z: "drop_bit 7 n = 0" by (simp add: unsigned_eq_0_iff)
    have "WriteVarInt_loop n tmp = b # tmp" using True by (subst WriteVarInt_loop.simps) (simp add: b_def Let_def)
    then show ?thesis using step unfolding z by simp
  next
    case False
    have "WriteVarInt_loop n tmp = WriteVarInt_loop (drop_bit 7 n - 1) (b # tmp)"
      using False by (subst WriteVarInt_loop.simps) (simp add: b_def Let_def)
    with "1.IH" [OF b_def [THEN arg_cong, of "\<lambda>b. b # tmp"] False] step show ?thesis by simp
  qed
qed

lemma length_WriteVarInt_loop: "length (WriteVarInt_loop n tmp) = GetSizeOfVarInt_loop n (length tmp)"
proof (induction n tmp rule: WriteVarInt_loop.induct)
  case (1 n tmp)
  then show ?case
    by (subst WriteVarInt_loop.simps, subst GetSizeOfVarInt_loop.simps) (simp add: Let_def)
qed

lemma GetSizeOfVarInt_loop_bound: "unat n < 2 ^ (7 * Suc k) \<Longrightarrow> GetSizeOfVarInt_loop n r \<le> r + Suc k"
proof (induction n r arbitrary: k rule: GetSizeOfVarInt_loop.induct)
  case (1 n r)
  show ?case
  proof (cases "unat n \<le> 0x7F")
    case True
    then show ?thesis by (subst GetSizeOfVarInt_loop.simps) simp
  next
    case False
    with "1.prems" obtain j where j: "k = Suc j" by (cases k) auto
    have "unat n < 128 * 2 ^ (7 * Suc j)" using "1.prems" by (simp add: j power_add)
    then have "unat n div 128 < 2 ^ (7 * Suc j)" by (simp add: less_mult_imp_div_less mult.commute)
    then have "unat (drop_bit 7 n - 1) < 2 ^ (7 * Suc j)" using varint_next(2) [OF False] by linarith
    from "1.IH" [OF False this] False j show ?thesis by (subst GetSizeOfVarInt_loop.simps) simp
  qed
qed

section \<open>Properties\<close>

text \<open>
  The compact size reader accepts exactly the encodings that the writer produces for sizes up to \<open>MAX_SIZE\<close>: it
  returns the size and the rest of the stream, and rejects every longer form of the same number. The size computation
  agrees with the number of bytes written.
\<close>

theorem compact_size_codec:
  "(ReadCompactSize s = Inr (n, r) \<longleftrightarrow> n \<le> MAX_SIZE \<and> s = WriteCompactSize n @ r) \<and>
   length (WriteCompactSize n) = GetSizeOfCompactSize n"
  by (simp only: wire_compact.parse_iff length_WriteCompactSize simp_thms)

text \<open>
  For unsigned integers of any width, reading a variable-length integer gives back the number that was written and
  leaves the rest of the stream; the number of bytes is the one that the size computation predicts, and it never exceeds
  the length \<open>(8 * sizeof(n) + 6) / 7\<close> of the temporary buffer.
\<close>

theorem varint_roundtrip:
  "ReadVarInt (WriteVarInt (n :: 'a::len word) @ s) = Inr (n, s) \<and>
   length (WriteVarInt n) = GetSizeOfVarInt n \<and> GetSizeOfVarInt n \<le> (LENGTH('a) + 6) div 7"
proof (intro conjI)
  show "ReadVarInt (WriteVarInt n @ s) = Inr (n, s)"
    using ReadVarInt_WriteVarInt_loop [of n "[]" s] by (simp add: ReadVarInt_def WriteVarInt_def)
  show "length (WriteVarInt n) = GetSizeOfVarInt n"
    using length_WriteVarInt_loop [of n "[]"] by (simp add: WriteVarInt_def GetSizeOfVarInt_def)
  obtain k where k: "(LENGTH('a) + 6) div 7 = Suc k"
    using len_gt_0 [where ?'a = 'a] by (cases "(LENGTH('a) + 6) div 7") (auto simp: div_eq_0_iff)
  have "LENGTH('a) \<le> 7 * Suc k" unfolding k [symmetric] by linarith
  then have "(2::nat) ^ LENGTH('a) \<le> 2 ^ (7 * Suc k)" by (intro power_increasing) simp_all
  then have "unat n < 2 ^ (7 * Suc k)" using unsigned_less [of n, where ?'a = nat] by (rule less_le_trans [rotated])
  from GetSizeOfVarInt_loop_bound [OF this, of 0] show "GetSizeOfVarInt n \<le> (LENGTH('a) + 6) div 7"
    by (simp add: GetSizeOfVarInt_def k)
qed

text \<open>
  C34: \<open>CDataStream\<close> implements the abstract stream, a list of unread bytes, and keeps its invariant. As long as the read position does not pass
  the 32-bit range, reading returns and consumes the next bytes or reports the end of the data, exactly as on the list, and ignoring does the same
  without returning them; a negative count is refused. Writing appends, compaction changes nothing, clearing leaves nothing, the size is
  the number of unread bytes, and rewinding puts the last bytes read back or, when there are fewer, fails and changes nothing. When the
  position does wrap, the bounds check of a read passes and the copy reads outside the buffer.
\<close>

theorem stream_refines:
  assumes "stream_ok s"
  shows "(nReadPos s + n < 2 ^ 32 \<longrightarrow>
      (case CDataStream_read s n of
         Inl e \<Rightarrow> read_bytes n (unread s) = Inl e
       | Inr (b, s') \<Rightarrow> read_bytes n (unread s) = Inr (b, unread s') \<and> stream_ok s' \<and> CDataStream_size s' + n = CDataStream_size s) \<and>
      (case CDataStream_ignore s (int n) of
         Inl e \<Rightarrow> read_bytes n (unread s) = Inl e
       | Inr s' \<Rightarrow> (\<exists>b. read_bytes n (unread s) = Inr (b, unread s')) \<and> stream_ok s')) \<and>
    CDataStream_ignore s (- 1 - int n) = Inl NegativeIgnore \<and>
    (unread (CDataStream_write s b) = unread s @ b \<and> (length (vch s) + length b < 2 ^ 32 \<longrightarrow> stream_ok (CDataStream_write s b))) \<and>
    (unread (CDataStream_Compact s) = unread s \<and> stream_ok (CDataStream_Compact s)) \<and>
    (unread (CDataStream_clear s) = [] \<and> stream_ok (CDataStream_clear s)) \<and>
    CDataStream_size s = length (unread s) \<and>
    (case CDataStream_Rewind s k of
       (done, s') \<Rightarrow> stream_ok s' \<and> (done \<longleftrightarrow> k \<le> nReadPos s) \<and>
         (if done then unread s' = take k (drop (nReadPos s - k) (vch s)) @ unread s else s' = s)) \<and>
    (0 < nReadPos s \<longrightarrow> CDataStream_read s (2 ^ 32 - nReadPos s) = Inl OutOfBounds)"
proof (intro conjI impI)
  have ok: "nReadPos s \<le> length (vch s)" "length (vch s) < 2 ^ 32" using assms by (simp_all add: stream_ok_def)
  show "case CDataStream_read s n of
         Inl e \<Rightarrow> read_bytes n (unread s) = Inl e
       | Inr (b, s') \<Rightarrow> read_bytes n (unread s) = Inr (b, unread s') \<and> stream_ok s' \<and> CDataStream_size s' + n = CDataStream_size s"
    if "nReadPos s + n < 2 ^ 32"
    using that ok by (auto simp: CDataStream_read_def read_bytes_def unread_def stream_ok_def CDataStream_size_def Let_def add.commute)
  show "case CDataStream_ignore s (int n) of
         Inl e \<Rightarrow> read_bytes n (unread s) = Inl e
       | Inr s' \<Rightarrow> (\<exists>b. read_bytes n (unread s) = Inr (b, unread s')) \<and> stream_ok s'"
    if "nReadPos s + n < 2 ^ 32"
    using that ok by (auto simp: CDataStream_ignore_def read_bytes_def unread_def stream_ok_def Let_def add.commute)
  show "CDataStream_ignore s (- 1 - int n) = Inl NegativeIgnore" by (simp add: CDataStream_ignore_def)
  show "unread (CDataStream_write s b) = unread s @ b" using ok by (simp add: unread_def CDataStream_write_def)
  show "stream_ok (CDataStream_write s b)" if "length (vch s) + length b < 2 ^ 32"
    using that ok by (simp add: stream_ok_def CDataStream_write_def)
  show "unread (CDataStream_Compact s) = unread s" by (simp add: unread_def CDataStream_Compact_def)
  show "stream_ok (CDataStream_Compact s)" using ok by (simp add: stream_ok_def CDataStream_Compact_def)
  show "unread (CDataStream_clear s) = []" "stream_ok (CDataStream_clear s)" by (simp_all add: unread_def stream_ok_def CDataStream_clear_def)
  show "CDataStream_size s = length (unread s)" by (simp add: CDataStream_size_def unread_def)
  have "take k (drop (nReadPos s - k) (vch s)) @ drop k (drop (nReadPos s - k) (vch s)) = drop (nReadPos s - k) (vch s)"
    by (rule append_take_drop_id)
  then show "case CDataStream_Rewind s k of
       (done, s') \<Rightarrow> stream_ok s' \<and> (done \<longleftrightarrow> k \<le> nReadPos s) \<and>
         (if done then unread s' = take k (drop (nReadPos s - k) (vch s)) @ unread s else s' = s)"
    using ok by (auto simp: unread_def CDataStream_Rewind_def stream_ok_def)
  show "CDataStream_read s (2 ^ 32 - nReadPos s) = Inl OutOfBounds" if "0 < nReadPos s"
    using that ok by (simp add: CDataStream_read_def)
qed

theorem stream_refines_witness:
  "CDataStream_read \<lparr>vch = [1, 2, 3], nReadPos = 1\<rparr> 1 = Inr ([2], \<lparr>vch = [1, 2, 3], nReadPos = 2\<rparr>) \<and>
   CDataStream_ignore \<lparr>vch = [1, 2, 3], nReadPos = 1\<rparr> 2 = Inr \<lparr>vch = [], nReadPos = 0\<rparr> \<and>
   unread (snd (CDataStream_Rewind \<lparr>vch = [1, 2, 3], nReadPos = 1\<rparr> 1)) = [1, 2, 3] \<and>
   CDataStream_read \<lparr>vch = [1, 2, 3], nReadPos = 1\<rparr> (2 ^ 32 - 1) = Inl OutOfBounds"
  using stream_refines [of "\<lparr>vch = [1, 2, 3], nReadPos = 1\<rparr>" 2 "[]" 1]
  by (simp add: stream_ok_def CDataStream_read_def CDataStream_ignore_def CDataStream_Rewind_def unread_def)

end
