(* ===== verification/Transaction.thy ===== *)
theory Transaction
  imports Serialize Hash Amount
begin

text \<open>
  \<^verbatim>\<open>src/primitives/transaction.h\<close>, \<^verbatim>\<open>src/primitives/transaction.cpp\<close>, and the context-free part of transaction
  validation in \<^verbatim>\<open>src/validation.cpp\<close> with the validation state of \<^verbatim>\<open>src/consensus/validation.h\<close>: outpoints,
  inputs, outputs and transactions, their wire format with and without witnesses, and the checks that need no chain.
\<close>

section \<open>Data\<close>

record COutPoint =
  op_hash :: bytes
  op_n :: u32

record CTxIn =
  prevout :: COutPoint
  scriptSig :: bytes
  nSequence :: u32
  scriptWitness :: "bytes list"

record CTxOut =
  nValue :: CAmount
  scriptPubKey :: bytes

record CTransaction =
  tx_nVersion :: int
  vin :: "CTxIn list"
  vout :: "CTxOut list"
  nLockTime :: u32

definition uint256_null :: bytes where
  "uint256_null = replicate 32 0"

definition uint256_IsNull :: "bytes \<Rightarrow> bool" where
  "uint256_IsNull h \<longleftrightarrow> list_all (\<lambda>b. b = 0) h"

definition COutPoint_null :: COutPoint where
  "COutPoint_null = \<lparr>op_hash = uint256_null, op_n = - 1\<rparr>"

definition COutPoint_IsNull :: "COutPoint \<Rightarrow> bool" where
  "COutPoint_IsNull p \<longleftrightarrow> uint256_IsNull (op_hash p) \<and> op_n p = - 1"

text \<open>\<open>memcmp\<close> on blobs of equal length, and the order of outpoints in the sets and maps keyed by them.\<close>

fun memcmp :: "bytes \<Rightarrow> bytes \<Rightarrow> int" where
  "memcmp (x # xs) (y # ys) = (if x < y then - 1 else if y < x then 1 else memcmp xs ys)"
| "memcmp xs ys = 0"

definition COutPoint_less :: "COutPoint \<Rightarrow> COutPoint \<Rightarrow> bool" where
  "COutPoint_less a b =
     (let cmp = memcmp (op_hash a) (op_hash b)
      in cmp < 0 \<or> (cmp = 0 \<and> op_n a < op_n b))"

abbreviation (input) SEQUENCE_FINAL :: u32 where
  "SEQUENCE_FINAL \<equiv> 0xffffffff"

definition CTxOut_null :: CTxOut where
  "CTxOut_null = \<lparr>nValue = - 1, scriptPubKey = []\<rparr>"

definition CTxOut_IsNull :: "CTxOut \<Rightarrow> bool" where
  "CTxOut_IsNull t \<longleftrightarrow> nValue t = - 1"

definition CTransaction_IsNull :: "CTransaction \<Rightarrow> bool" where
  "CTransaction_IsNull tx \<longleftrightarrow> vin tx = [] \<and> vout tx = []"

definition IsCoinBase :: "CTransaction \<Rightarrow> bool" where
  "IsCoinBase tx \<longleftrightarrow> length (vin tx) = 1 \<and> COutPoint_IsNull (prevout (vin tx ! 0))"

definition HasWitness :: "CTransaction \<Rightarrow> bool" where
  "HasWitness tx \<longleftrightarrow> list_ex (\<lambda>i. scriptWitness i \<noteq> []) (vin tx)"

primrec value_out_loop :: "CTxOut list \<Rightarrow> CAmount \<Rightarrow> CAmount option" where
  "value_out_loop [] nValueOut = Some nValueOut"
| "value_out_loop (t # ts) nValueOut =
     (let nValueOut = wrap64 (nValueOut + nValue t)
      in if \<not> MoneyRange (nValue t) \<or> \<not> MoneyRange nValueOut then None else value_out_loop ts nValueOut)"

definition GetValueOut :: "CTransaction \<Rightarrow> CAmount option" where
  "GetValueOut tx = value_out_loop (vout tx) 0"

section \<open>Wire format\<close>

definition ser_uint256 :: "bytes \<Rightarrow> bytes" where
  "ser_uint256 h = h"

definition unser_uint256 :: "bytes reader" where
  "unser_uint256 = read_bytes 32"

definition ser_COutPoint :: "COutPoint \<Rightarrow> bytes" where
  "ser_COutPoint p = ser_uint256 (op_hash p) @ ser_writedata32 (op_n p)"

definition unser_COutPoint :: "COutPoint reader" where
  "unser_COutPoint =
     then_read unser_uint256 (\<lambda>h. then_read ser_readdata32 (\<lambda>n. return_read \<lparr>op_hash = h, op_n = n\<rparr>))"

definition ser_CTxIn :: "CTxIn \<Rightarrow> bytes" where
  "ser_CTxIn i = ser_COutPoint (prevout i) @ ser_blob (scriptSig i) @ ser_writedata32 (nSequence i)"

definition unser_CTxIn :: "CTxIn reader" where
  "unser_CTxIn =
     then_read unser_COutPoint (\<lambda>p. then_read unser_blob (\<lambda>sc. then_read ser_readdata32 (\<lambda>q.
       return_read \<lparr>prevout = p, scriptSig = sc, nSequence = q, scriptWitness = []\<rparr>)))"

definition ser_CTxOut :: "CTxOut \<Rightarrow> bytes" where
  "ser_CTxOut t = ser_int64 (nValue t) @ ser_blob (scriptPubKey t)"

definition unser_CTxOut :: "CTxOut reader" where
  "unser_CTxOut =
     then_read unser_int64 (\<lambda>v. then_read unser_blob (\<lambda>sc. return_read \<lparr>nValue = v, scriptPubKey = sc\<rparr>))"

abbreviation (input) SERIALIZE_TRANSACTION_NO_WITNESS :: int where
  "SERIALIZE_TRANSACTION_NO_WITNESS \<equiv> 0x40000000"

definition SerializeTransaction :: "int \<Rightarrow> CTransaction \<Rightarrow> bytes" where
  "SerializeTransaction version tx =
     (let fAllowWitness = (version AND SERIALIZE_TRANSACTION_NO_WITNESS = 0);
          flags = (if fAllowWitness \<and> HasWitness tx then 1 else 0 :: u8)
      in ser_int32 (tx_nVersion tx) @
         (if flags \<noteq> 0 then ser_vector ser_CTxIn [] @ ser_writedata8 flags else []) @
         ser_vector ser_CTxIn (vin tx) @ ser_vector ser_CTxOut (vout tx) @
         (if flags AND 1 \<noteq> 0 then concat (map (\<lambda>i. ser_vector ser_blob (scriptWitness i)) (vin tx)) else []) @
         ser_writedata32 (nLockTime tx))"

primrec read_witnesses :: "CTxIn list \<Rightarrow> CTxIn list reader" where
  "read_witnesses [] = return_read []"
| "read_witnesses (i # is) =
     then_read (unser_vector unser_blob) (\<lambda>w. then_read (read_witnesses is) (\<lambda>is. return_read (i\<lparr>scriptWitness := w\<rparr> # is)))"

definition unser_tx_tail :: "bool \<Rightarrow> int \<Rightarrow> u8 \<Rightarrow> CTxIn list \<Rightarrow> CTxOut list \<Rightarrow> CTransaction reader" where
  "unser_tx_tail fAllowWitness v flags ins outs =
     then_read (if flags AND 1 \<noteq> 0 \<and> fAllowWitness then then_read (read_witnesses ins) (\<lambda>ins. return_read (flags XOR 1, ins))
                else return_read (flags, ins)) (\<lambda>(flags, ins).
       if flags \<noteq> 0 then throw_read UnknownOptionalData
       else then_read ser_readdata32 (\<lambda>l. return_read \<lparr>tx_nVersion = v, vin = ins, vout = outs, nLockTime = l\<rparr>))"

definition UnserializeTransaction :: "int \<Rightarrow> CTransaction reader" where
  "UnserializeTransaction version =
     (let fAllowWitness = (version AND SERIALIZE_TRANSACTION_NO_WITNESS = 0)
      in then_read unser_int32 (\<lambda>v. then_read (unser_vector unser_CTxIn) (\<lambda>ins.
           if ins = [] \<and> fAllowWitness
           then then_read ser_readdata8 (\<lambda>flags.
             if flags \<noteq> 0
             then then_read (unser_vector unser_CTxIn) (\<lambda>ins. then_read (unser_vector unser_CTxOut) (\<lambda>outs.
               unser_tx_tail fAllowWitness v flags ins outs))
             else unser_tx_tail fAllowWitness v flags ins [])
           else then_read (unser_vector unser_CTxOut) (\<lambda>outs. unser_tx_tail fAllowWitness v 0 ins outs))))"

text \<open>\<open>SerializeHash\<close> of an object, given its serialisation; \<open>SER_GETHASH\<close> is \<open>4\<close>.\<close>

definition SerializeHash :: "bytes \<Rightarrow> int \<Rightarrow> int \<Rightarrow> bytes" where
  "SerializeHash ser nType version = fst (CHashWriter_GetHash (CHashWriter_write (CHashWriter_new nType version) ser))"

definition tx_GetHash :: "CTransaction \<Rightarrow> bytes" where
  "tx_GetHash tx = SerializeHash (SerializeTransaction SERIALIZE_TRANSACTION_NO_WITNESS tx) 4 SERIALIZE_TRANSACTION_NO_WITNESS"

definition GetWitnessHash :: "CTransaction \<Rightarrow> bytes" where
  "GetWitnessHash tx =
     (if \<not> HasWitness tx then tx_GetHash tx else SerializeHash (SerializeTransaction 0 tx) 4 0)"

abbreviation (input) PROTOCOL_VERSION :: int where
  "PROTOCOL_VERSION \<equiv> 70015"

abbreviation (input) WITNESS_SCALE_FACTOR :: int where
  "WITNESS_SCALE_FACTOR \<equiv> 4"

definition GetTransactionWeight :: "CTransaction \<Rightarrow> int" where
  "GetTransactionWeight tx =
     int (length (SerializeTransaction (PROTOCOL_VERSION OR SERIALIZE_TRANSACTION_NO_WITNESS) tx)) * (WITNESS_SCALE_FACTOR - 1) +
     int (length (SerializeTransaction PROTOCOL_VERSION tx))"

definition GetTotalSize :: "CTransaction \<Rightarrow> nat" where
  "GetTotalSize tx = length (SerializeTransaction PROTOCOL_VERSION tx)"

definition CalculateModifiedSize :: "CTransaction \<Rightarrow> u32 \<Rightarrow> u32" where
  "CalculateModifiedSize tx nTxSize =
     (let nTxSize = (if nTxSize = 0 then word_of_int ((GetTransactionWeight tx + WITNESS_SCALE_FACTOR - 1) sdiv WITNESS_SCALE_FACTOR)
                     else nTxSize)
      in fold (\<lambda>i nTxSize. let offset = 41 + min 110 (word_of_nat (length (scriptSig i)))
                           in if nTxSize > offset then nTxSize - offset else nTxSize) (vin tx) nTxSize)"

section \<open>Checks without context\<close>

datatype mode_state = MODE_VALID | MODE_INVALID | MODE_ERROR

record CValidationState =
  mode :: mode_state
  nDoS :: int
  strRejectReason :: string
  chRejectCode :: u32
  corruptionPossible :: bool
  strDebugMessage :: string

definition CValidationState_new :: CValidationState where
  "CValidationState_new =
     \<lparr>mode = MODE_VALID, nDoS = 0, strRejectReason = [], chRejectCode = 0, corruptionPossible = False, strDebugMessage = []\<rparr>"

definition DoS :: "CValidationState \<Rightarrow> int \<Rightarrow> u32 \<Rightarrow> string \<Rightarrow> bool \<Rightarrow> string \<Rightarrow> CValidationState" where
  "DoS st level code reason corruption msg =
     (let st = st\<lparr>chRejectCode := code, strRejectReason := reason, corruptionPossible := corruption, strDebugMessage := msg\<rparr>
      in if mode st = MODE_ERROR then st else st\<lparr>nDoS := wrap32 (nDoS st + level), mode := MODE_INVALID\<rparr>)"

definition state_Error :: "CValidationState \<Rightarrow> string \<Rightarrow> CValidationState" where
  "state_Error st reason =
     (if mode st = MODE_VALID then st\<lparr>strRejectReason := reason, mode := MODE_ERROR\<rparr> else st\<lparr>mode := MODE_ERROR\<rparr>)"

abbreviation (input) REJECT_INVALID :: u32 where
  "REJECT_INVALID \<equiv> 0x10"

abbreviation (input) MAX_BLOCK_BASE_SIZE :: nat where
  "MAX_BLOCK_BASE_SIZE \<equiv> 1000000"

definition reject :: "CValidationState \<Rightarrow> int \<Rightarrow> string \<Rightarrow> bool \<times> CValidationState" where
  "reject st level reason = (False, DoS st level REJECT_INVALID reason False [])"

text \<open>The reason for rejecting the outputs, if there is one.\<close>

primrec check_outputs :: "CTxOut list \<Rightarrow> CAmount \<Rightarrow> string option" where
  "check_outputs [] nValueOut = None"
| "check_outputs (t # ts) nValueOut =
     (if nValue t < 0 then Some ''bad-txns-vout-negative''
      else if nValue t > MAX_MONEY then Some ''bad-txns-vout-toolarge''
      else let nValueOut = wrap64 (nValueOut + nValue t)
           in if \<not> MoneyRange nValueOut then Some ''bad-txns-txouttotal-toolarge'' else check_outputs ts nValueOut)"

primrec has_duplicate :: "CTxIn list \<Rightarrow> COutPoint list \<Rightarrow> bool" where
  "has_duplicate [] vInOutPoints = False"
| "has_duplicate (i # is) vInOutPoints =
     (if prevout i \<in> set vInOutPoints then True else has_duplicate is (prevout i # vInOutPoints))"

definition CheckTransaction :: "CTransaction \<Rightarrow> CValidationState \<Rightarrow> bool \<Rightarrow> bool \<times> CValidationState" where
  "CheckTransaction tx st fCheckDuplicateInputs =
     (if vin tx = [] then reject st 10 ''bad-txns-vin-empty''
      else if vout tx = [] then reject st 10 ''bad-txns-vout-empty''
      else if length (SerializeTransaction (PROTOCOL_VERSION OR SERIALIZE_TRANSACTION_NO_WITNESS) tx) > MAX_BLOCK_BASE_SIZE
      then reject st 100 ''bad-txns-oversize''
      else case check_outputs (vout tx) 0 of
        Some reason \<Rightarrow> reject st 100 reason
      | None \<Rightarrow>
          if fCheckDuplicateInputs \<and> has_duplicate (vin tx) [] then reject st 100 ''bad-txns-inputs-duplicate''
          else if IsCoinBase tx
          then if length (scriptSig (vin tx ! 0)) < 2 \<or> length (scriptSig (vin tx ! 0)) > 100
               then reject st 100 ''bad-cb-length'' else (True, st)
          else if list_ex (\<lambda>i. COutPoint_IsNull (prevout i)) (vin tx) then reject st 10 ''bad-txns-prevout-null''
          else (True, st))"

abbreviation (input) LOCKTIME_THRESHOLD :: int where
  "LOCKTIME_THRESHOLD \<equiv> 500000000"

definition IsFinalTx :: "CTransaction \<Rightarrow> int \<Rightarrow> int \<Rightarrow> bool" where
  "IsFinalTx tx nBlockHeight nBlockTime =
     (if nLockTime tx = 0 then True
      else if uint (nLockTime tx) < (if uint (nLockTime tx) < LOCKTIME_THRESHOLD then nBlockHeight else nBlockTime) then True
      else list_all (\<lambda>i. nSequence i = SEQUENCE_FINAL) (vin tx))"

section \<open>Facts\<close>

subsection \<open>Wire format\<close>

interpretation wire_uint256: wire ser_uint256 unser_uint256 "\<lambda>h. length h = 32"
  by unfold_locales (simp_all add: ser_uint256_def unser_uint256_def read_bytes_Inr)

interpretation wire_COutPoint: wire ser_COutPoint unser_COutPoint "\<lambda>p. length (op_hash p) = 32"
proof
  fix p :: COutPoint and s r
  show "unser_COutPoint (ser_COutPoint p @ s) = Inr (p, s)" if "length (op_hash p) = 32"
    using that by (simp add: unser_COutPoint_def ser_COutPoint_def then_read_def wire_uint256.parse_print wire32.parse_print return_read_def)
  show "length (op_hash p) = 32 \<and> s = ser_COutPoint p @ r" if "unser_COutPoint s = Inr (p, r)"
    using that by (auto simp: unser_COutPoint_def ser_COutPoint_def then_read_Inr wire_uint256.parse_iff wire32.parse_iff return_read_def)
qed

definition ok_CTxIn :: "CTxIn \<Rightarrow> bool" where
  "ok_CTxIn i \<longleftrightarrow> length (op_hash (prevout i)) = 32 \<and> length (scriptSig i) \<le> 33554432 \<and> scriptWitness i = []"

interpretation wire_CTxIn: wire ser_CTxIn unser_CTxIn ok_CTxIn
proof
  fix i :: CTxIn and s r
  show "unser_CTxIn (ser_CTxIn i @ s) = Inr (i, s)" if "ok_CTxIn i"
    using that by (simp add: ok_CTxIn_def unser_CTxIn_def ser_CTxIn_def then_read_def wire_COutPoint.parse_print wire32.parse_print
        wire_blob.parse_print return_read_def)
  show "ok_CTxIn i \<and> s = ser_CTxIn i @ r" if "unser_CTxIn s = Inr (i, r)"
    using that by (auto simp: ok_CTxIn_def unser_CTxIn_def ser_CTxIn_def then_read_Inr wire_COutPoint.parse_iff wire32.parse_iff
        wire_blob.parse_iff return_read_def)
qed

definition ok_CTxOut :: "CTxOut \<Rightarrow> bool" where
  "ok_CTxOut t \<longleftrightarrow> - (2 ^ 63) \<le> nValue t \<and> nValue t < 2 ^ 63 \<and> length (scriptPubKey t) \<le> 33554432"

interpretation wire_CTxOut: wire ser_CTxOut unser_CTxOut ok_CTxOut
proof
  fix t :: CTxOut and s r
  show "unser_CTxOut (ser_CTxOut t @ s) = Inr (t, s)" if "ok_CTxOut t"
    using that by (simp add: ok_CTxOut_def unser_CTxOut_def ser_CTxOut_def then_read_def wire_int64.parse_print wire_blob.parse_print return_read_def)
  show "ok_CTxOut t \<and> s = ser_CTxOut t @ r" if "unser_CTxOut s = Inr (t, r)"
    using that by (auto simp: ok_CTxOut_def unser_CTxOut_def ser_CTxOut_def then_read_Inr wire_int64.parse_iff wire_blob.parse_iff return_read_def)
qed

interpretation wire_vin: wire "ser_vector ser_CTxIn" "unser_vector unser_CTxIn" "\<lambda>v. list_all ok_CTxIn v \<and> length v \<le> 33554432"
  by (rule wire_vector [OF wire_CTxIn.wire_axioms])

interpretation wire_vout: wire "ser_vector ser_CTxOut" "unser_vector unser_CTxOut" "\<lambda>v. list_all ok_CTxOut v \<and> length v \<le> 33554432"
  by (rule wire_vector [OF wire_CTxOut.wire_axioms])

interpretation wire_stack: wire "ser_vector ser_blob" "unser_vector unser_blob"
  "\<lambda>w. list_all (\<lambda>v. length v \<le> 33554432) w \<and> length w \<le> 33554432"
  by (rule wire_vector [OF wire_blob.wire_axioms])

text \<open>A transaction whose fields fit the wire format, and its inputs without witnesses.\<close>

definition strip :: "CTxIn \<Rightarrow> CTxIn" where
  "strip i = i\<lparr>scriptWitness := []\<rparr>"

definition ok_tx :: "CTransaction \<Rightarrow> bool" where
  "ok_tx tx \<longleftrightarrow>
     - (2 ^ 31) \<le> tx_nVersion tx \<and> tx_nVersion tx < 2 ^ 31 \<and>
     list_all (\<lambda>i. ok_CTxIn (strip i) \<and> list_all (\<lambda>v. length v \<le> 33554432) (scriptWitness i) \<and> length (scriptWitness i) \<le> 33554432) (vin tx) \<and>
     length (vin tx) \<le> 33554432 \<and> list_all ok_CTxOut (vout tx) \<and> length (vout tx) \<le> 33554432"

lemma ser_CTxIn_strip: "ser_CTxIn (strip i) = ser_CTxIn i"
  by (simp add: ser_CTxIn_def strip_def)

lemma ser_vin_strip: "ser_vector ser_CTxIn (map strip is) = ser_vector ser_CTxIn is"
  by (simp add: ser_vector_def o_def ser_CTxIn_strip)

lemma parse_vin:
  "ok_tx tx \<Longrightarrow> unser_vector unser_CTxIn (ser_vector ser_CTxIn (vin tx) @ s) = Inr (map strip (vin tx), s)"
  using wire_vin.parse_print [of "map strip (vin tx)" s] by (simp add: ser_vin_strip ok_tx_def list_all_iff)

lemma parse_vout: "ok_tx tx \<Longrightarrow> unser_vector unser_CTxOut (ser_vector ser_CTxOut (vout tx) @ s) = Inr (vout tx, s)"
  by (rule wire_vout.parse_print) (simp add: ok_tx_def)

lemma parse_witnesses:
  "list_all (\<lambda>i. list_all (\<lambda>v. length v \<le> 33554432) (scriptWitness i) \<and> length (scriptWitness i) \<le> 33554432) is \<Longrightarrow>
   read_witnesses (map strip is) (concat (map (\<lambda>i. ser_vector ser_blob (scriptWitness i)) is) @ s) = Inr (is, s)"
  by (induction "is") (simp_all add: then_read_def wire_stack.parse_print return_read_def strip_def)

lemma parse_empty_vin: "unser_vector unser_CTxIn (ser_vector ser_CTxIn [] @ s) = Inr ([], s)"
  by (rule wire_vin.parse_print) simp

lemma strip_no_witness: "\<not> HasWitness tx \<Longrightarrow> map strip (vin tx) = vin tx"
  by (auto simp: HasWitness_def list_ex_iff strip_def intro!: map_idI)

lemma parse_tail_plain:
  "unser_tx_tail w v 0 is os (ser_writedata32 l @ s) = Inr (\<lparr>tx_nVersion = v, vin = is, vout = os, nLockTime = l\<rparr>, s)"
  by (simp add: unser_tx_tail_def then_read_def return_read_def wire32.parse_print)

lemma parse_tail_witness:
  "list_all (\<lambda>i. list_all (\<lambda>v. length v \<le> 33554432) (scriptWitness i) \<and> length (scriptWitness i) \<le> 33554432) is \<Longrightarrow>
   unser_tx_tail True v 1 (map strip is) os (concat (map (\<lambda>i. ser_vector ser_blob (scriptWitness i)) is) @ ser_writedata32 l @ s) =
   Inr (\<lparr>tx_nVersion = v, vin = is, vout = os, nLockTime = l\<rparr>, s)"
  by (simp add: unser_tx_tail_def then_read_def return_read_def wire32.parse_print parse_witnesses)

lemma parse_nVersion: "ok_tx tx \<Longrightarrow> unser_int32 (ser_int32 (tx_nVersion tx) @ s) = Inr (tx_nVersion tx, s)"
  by (rule wire_int32.parse_print) (simp add: ok_tx_def)

lemma parse_no_witness:
  assumes "ok_tx tx" and "version AND SERIALIZE_TRANSACTION_NO_WITNESS \<noteq> 0"
  shows "UnserializeTransaction version (SerializeTransaction version tx @ s) = Inr (tx\<lparr>vin := map strip (vin tx)\<rparr>, s)"
  using assms
  by (simp add: UnserializeTransaction_def SerializeTransaction_def then_read_def Let_def parse_nVersion parse_vin
      parse_vout parse_tail_plain)

lemma parse_with_witness:
  assumes ok: "ok_tx tx" and v: "version AND SERIALIZE_TRANSACTION_NO_WITNESS = 0" and ne: "vin tx \<noteq> [] \<or> vout tx = []"
  shows "UnserializeTransaction version (SerializeTransaction version tx @ s) = Inr (tx, s)"
proof (cases "HasWitness tx")
  case True
  have "list_all (\<lambda>i. list_all (\<lambda>v. length v \<le> 33554432) (scriptWitness i) \<and> length (scriptWitness i) \<le> 33554432) (vin tx)"
    using ok by (simp add: ok_tx_def list_all_iff)
  with True ok v show ?thesis
    by (simp add: UnserializeTransaction_def SerializeTransaction_def then_read_def Let_def parse_nVersion parse_vin
        parse_vout parse_empty_vin wire8.parse_print parse_tail_witness)
next
  case False
  show ?thesis
  proof (cases "vin tx = []")
    case True
    then have "ser_vector ser_CTxOut (vout tx) = ser_writedata8 0"
      using ne by (simp add: ser_vector_def WriteCompactSize_def)
    with True False ok v ne show ?thesis
      by (simp add: UnserializeTransaction_def SerializeTransaction_def then_read_def Let_def parse_nVersion
          parse_empty_vin wire8.parse_print parse_tail_plain)
  next
    case ne: False
    with False ok v strip_no_witness [OF False] show ?thesis
      by (simp add: UnserializeTransaction_def SerializeTransaction_def then_read_def Let_def parse_nVersion parse_vin
          parse_vout parse_tail_plain)
  qed
qed

text \<open>Without inputs, the number of outputs is read as the flags of the extended format, and the transaction is not read back.\<close>

lemma ser_outs_first:
  assumes "xs \<noteq> []" "length xs \<le> 33554432"
  obtains x r where "ser_vector ser_CTxOut xs = x # r" "x \<noteq> 0"
proof -
  have n: "0 < length xs" "length xs < 2 ^ 64" using assms by simp_all
  have "\<exists>x r. WriteCompactSize (word_of_nat (length xs)) = x # r \<and> x \<noteq> 0"
  proof (cases "length xs < 253")
    case True
    then have "unat (ucast (word_of_nat (length xs) :: u64) :: u8) = length xs"
      by (simp add: unsigned_ucast_eq unsigned_of_nat take_bit_nat_eq_self)
    then have "(ucast (word_of_nat (length xs) :: u64) :: u8) \<noteq> 0" using n(1) by (metis unsigned_0 less_numeral_extra(3))
    then show ?thesis using True n by (simp add: WriteCompactSize_def ser_writedata8_def word_less_nat_alt unsigned_of_nat take_bit_nat_eq_self)
  next
    case False
    then show ?thesis using n(2) by (simp add: WriteCompactSize_def ser_writedata8_def word_less_nat_alt unsigned_of_nat take_bit_nat_eq_self)
  qed
  then show thesis using that by (auto simp: ser_vector_def)
qed

lemma tail_no_inputs:
  assumes "unser_tx_tail w v flags ins outs bs = Inr (tx, s)" "vin tx = []"
  shows "ins = [] \<and> outs = vout tx \<and> length bs = length s + 4"
proof -
  have w: "read_witnesses ins bs = Inr (ins', r) \<Longrightarrow> length ins' = length ins \<and> (ins = [] \<longrightarrow> r = bs)" for ins bs ins' r
    by (induction ins arbitrary: bs ins' r) (auto simp: then_read_Inr return_read_def)
  obtain fl ins' r where t: "(if flags AND 1 \<noteq> 0 \<and> w then then_read (read_witnesses ins) (\<lambda>ins. return_read (flags XOR 1, ins))
      else return_read (flags, ins)) bs = Inr ((fl, ins'), r)" "vin tx = ins'" "vout tx = outs" "length r = length s + 4"
    using assms(1) by (auto simp: unser_tx_tail_def then_read_Inr return_read_def throw_read_def ser_writedata32_def WriteLE32_def
        dest!: wire32.print_parse split: if_splits)
  have "length ins' = length ins \<and> (ins = [] \<longrightarrow> r = bs)"
    using t(1) by (auto simp: then_read_Inr return_read_def split: if_splits dest: w)
  then show ?thesis using t assms(2) by simp
qed

lemma parse_no_inputs:
  assumes ok: "ok_tx tx" and v: "version AND SERIALIZE_TRANSACTION_NO_WITNESS = 0" and n: "vin tx = []" "vout tx \<noteq> []"
  shows "UnserializeTransaction version (SerializeTransaction version tx @ s) \<noteq> Inr (tx, s)"
proof
  assume r: "UnserializeTransaction version (SerializeTransaction version tx @ s) = Inr (tx, s)"
  obtain x o' where o': "ser_vector ser_CTxOut (vout tx) = x # o'" "x \<noteq> 0"
    using ser_outs_first [of "vout tx"] ok n(2) by (auto simp: ok_tx_def)
  have "SerializeTransaction version tx @ s =
    ser_int32 (tx_nVersion tx) @ ser_vector ser_CTxIn [] @ ser_writedata8 x @ o' @ ser_writedata32 (nLockTime tx) @ s"
    using n(1) o'(1) by (simp add: SerializeTransaction_def HasWitness_def Let_def ser_writedata8_def)
  then obtain ins outs r1 r2 where i: "unser_vector unser_CTxIn (o' @ ser_writedata32 (nLockTime tx) @ s) = Inr (ins, r1)"
    and o: "unser_vector unser_CTxOut r1 = Inr (outs, r2)" and t: "unser_tx_tail True (tx_nVersion tx) x ins outs r2 = Inr (tx, s)"
    using r v ok o'(2) by (simp add: UnserializeTransaction_def parse_nVersion parse_empty_vin wire8.parse_print then_read_step then_read_Inr Let_def) blast
  from tail_no_inputs [OF t n(1)] have e: "ins = []" "outs = vout tx" "length r2 = length s + 4" by simp_all
  have "length (o' @ ser_writedata32 (nLockTime tx) @ s) = length (ser_vector ser_CTxIn []) + length (ser_vector ser_CTxOut (vout tx)) + length s + 4"
    using wire_vin.print_parse [OF i] wire_vout.print_parse [OF o] e by simp
  then show False using o'(1) by (simp add: ser_writedata32_def WriteLE32_def)
qed

subsection \<open>Amounts and inputs\<close>

lemma value_out_loop_eq:
  "0 \<le> acc \<Longrightarrow> acc \<le> MAX_MONEY \<Longrightarrow>
   value_out_loop ts acc =
   (if (\<forall>t\<in>set ts. MoneyRange (nValue t)) \<and> acc + sum_list (map nValue ts) \<le> MAX_MONEY
    then Some (acc + sum_list (map nValue ts)) else None)"
proof (induction ts arbitrary: acc)
  case (Cons t ts)
  show ?case
  proof (cases "MoneyRange (nValue t)")
    case True
    then have w: "wrap64 (acc + nValue t) = acc + nValue t"
      using Cons.prems by (intro wrap64_id) (auto simp: MoneyRange_def MAX_MONEY_def COIN_def)
    have "0 \<le> sum_list (map nValue ts)" if "\<forall>t\<in>set ts. MoneyRange (nValue t)"
      using that by (intro sum_list_nonneg) (auto simp: MoneyRange_def)
    with Cons.IH [of "acc + nValue t"] Cons.prems True w show ?thesis
      by (auto simp: Let_def MoneyRange_def)
  qed (simp add: Let_def)
qed simp

lemma check_outputs_None: "check_outputs ts acc = None \<longleftrightarrow> value_out_loop ts acc \<noteq> None"
  by (induction ts arbitrary: acc) (auto simp: Let_def MoneyRange_def)

lemma has_duplicate_iff: "has_duplicate is ps \<longleftrightarrow> \<not> (distinct (map prevout is) \<and> set (map prevout is) \<inter> set ps = {})"
  by (induction "is" arbitrary: ps) auto

definition rejected :: "bool \<times> CValidationState \<Rightarrow> bool" where
  "rejected r \<longleftrightarrow> \<not> fst r \<and> mode (snd r) \<noteq> MODE_VALID \<and> chRejectCode (snd r) = REJECT_INVALID"

lemma rejected_reject [simp]: "rejected (reject st l m)"
  by (simp add: rejected_def reject_def DoS_def Let_def)

lemma checks_in_sequence:
  assumes "X = (if a then r1 else if b then r2 else if c then r3
    else case e of Some m \<Rightarrow> r4 m | None \<Rightarrow>
      if d then r5 else if cb then (if f then r6 else (True, st)) else if g then r7 else (True, st))"
    and "rejected r1" "rejected r2" "rejected r3" "\<And>m. rejected (r4 m)" "rejected r5" "rejected r6" "rejected r7"
  shows "(fst X \<longleftrightarrow> \<not> a \<and> \<not> b \<and> \<not> c \<and> e = None \<and> \<not> d \<and> (if cb then \<not> f else \<not> g)) \<and>
    (if fst X then snd X = st else rejected X)"
  using assms by (simp add: rejected_def split: option.split)

lemma SerializeHash_eq: "SerializeHash b t v = sha256 (sha256 b)"
  using hash_writer [of t v "[b]"] by (simp add: SerializeHash_def)

lemma Serialize_strip:
  "v AND SERIALIZE_TRANSACTION_NO_WITNESS \<noteq> 0 \<or> \<not> HasWitness tx \<Longrightarrow>
   SerializeTransaction v (tx\<lparr>vin := map strip (vin tx)\<rparr>) = SerializeTransaction v tx"
  by (auto simp: SerializeTransaction_def ser_vin_strip HasWitness_def strip_def list_ex_iff)

lemma not_HasWitness_strip: "\<not> HasWitness (tx\<lparr>vin := map strip (vin tx)\<rparr>)"
  by (simp add: HasWitness_def strip_def list_ex_iff)

section \<open>Properties\<close>

text \<open>
  C32: a transaction whose fields fit the wire format reads back from its serialisation, and what follows in the stream is left unread. With
  witnesses disabled the inputs come back without them. With witnesses enabled the transaction comes back as it was exactly if it has an
  input or no output: an empty list of inputs announces the extended format, and the number of outputs is then taken for its flags.
\<close>

theorem transaction_roundtrip:
  assumes "ok_tx tx"
  shows "if version AND SERIALIZE_TRANSACTION_NO_WITNESS \<noteq> 0
    then UnserializeTransaction version (SerializeTransaction version tx @ s) = Inr (tx\<lparr>vin := map strip (vin tx)\<rparr>, s)
    else UnserializeTransaction version (SerializeTransaction version tx @ s) = Inr (tx, s) \<longleftrightarrow> vin tx \<noteq> [] \<or> vout tx = []"
  using parse_no_witness [OF assms, of version s] parse_with_witness [OF assms, of version s] parse_no_inputs [OF assms, of version s] by auto

theorem transaction_roundtrip_witness:
  "\<exists>tx. HasWitness tx \<and> UnserializeTransaction 0 (SerializeTransaction 0 tx @ [7]) = Inr (tx, [7])"
proof -
  define tx where "tx = \<lparr>tx_nVersion = 1, vin = [\<lparr>prevout = COutPoint_null, scriptSig = [1, 2], nSequence = SEQUENCE_FINAL,
      scriptWitness = [[3]]\<rparr>], vout = [\<lparr>nValue = 5, scriptPubKey = []\<rparr>], nLockTime = 0\<rparr>"
  have "ok_tx tx"
    by (simp add: tx_def ok_tx_def ok_CTxIn_def ok_CTxOut_def strip_def COutPoint_null_def uint256_null_def)
  from transaction_roundtrip [OF this, of 0 "[7]"] have "UnserializeTransaction 0 (SerializeTransaction 0 tx @ [7]) = Inr (tx, [7])"
    by (simp add: tx_def)
  moreover have "HasWitness tx" by (simp add: tx_def HasWitness_def)
  ultimately show ?thesis by blast
qed

text \<open>
  \<open>GetValueOut\<close> returns the sum of the output values when every value and the sum are in the money range and throws
  otherwise; no partial sum leaves the 64-bit range.
\<close>

theorem value_out_exact:
  "GetValueOut tx =
   (if (\<forall>t\<in>set (vout tx). MoneyRange (nValue t)) \<and> sum_list (map nValue (vout tx)) \<le> MAX_MONEY
    then Some (sum_list (map nValue (vout tx))) else None)"
  using value_out_loop_eq [of 0 "vout tx"] by (simp add: GetValueOut_def MAX_MONEY_def COIN_def)

theorem value_out_exact_witness:
  "GetValueOut \<lparr>tx_nVersion = 1, vin = [], vout = [\<lparr>nValue = 3, scriptPubKey = []\<rparr>, \<lparr>nValue = 4, scriptPubKey = []\<rparr>], nLockTime = 0\<rparr> = Some 7"
  unfolding value_out_exact by (simp add: MoneyRange_def MAX_MONEY_def COIN_def)

text \<open>
  C33: \<open>CheckTransaction\<close> accepts exactly the transactions that have inputs and outputs, fit in a block, have outputs whose
  values and total are in the money range, spend no outpoint twice, and either are a coinbase with a script of 2 to 100
  bytes or have no null outpoint. It leaves the validation state alone when it accepts, and records the invalidity otherwise.
\<close>

theorem check_transaction_accepts:
  "(fst (CheckTransaction tx st True) \<longleftrightarrow>
     vin tx \<noteq> [] \<and> vout tx \<noteq> [] \<and>
     length (SerializeTransaction (PROTOCOL_VERSION OR SERIALIZE_TRANSACTION_NO_WITNESS) tx) \<le> MAX_BLOCK_BASE_SIZE \<and>
     GetValueOut tx \<noteq> None \<and> distinct (map prevout (vin tx)) \<and>
     (if IsCoinBase tx then length (scriptSig (vin tx ! 0)) \<in> {2..100}
      else list_all (\<lambda>i. \<not> COutPoint_IsNull (prevout i)) (vin tx))) \<and>
   (if fst (CheckTransaction tx st True) then snd (CheckTransaction tx st True) = st
    else mode (snd (CheckTransaction tx st True)) \<noteq> MODE_VALID \<and> chRejectCode (snd (CheckTransaction tx st True)) = REJECT_INVALID)"
proof -
  have dup: "has_duplicate (vin tx) [] \<longleftrightarrow> \<not> distinct (map prevout (vin tx))"
    by (simp add: has_duplicate_iff)
  have val: "check_outputs (vout tx) 0 = None \<longleftrightarrow> GetValueOut tx \<noteq> None"
    by (simp only: check_outputs_None GetValueOut_def)
  have cb: "\<not> (length xs < 2 \<or> 100 < length xs) \<longleftrightarrow> length xs \<in> {2..100}" for xs :: bytes by auto
  have null: "\<not> list_ex (\<lambda>i. COutPoint_IsNull (prevout i)) is \<longleftrightarrow> list_all (\<lambda>i. \<not> COutPoint_IsNull (prevout i)) is" for "is"
    by (simp add: list_ex_iff list_all_iff)
  have "rejected X \<Longrightarrow> mode (snd X) \<noteq> MODE_VALID \<and> chRejectCode (snd X) = REJECT_INVALID" for X by (simp add: rejected_def)
  with checks_in_sequence [OF CheckTransaction_def [of tx st True], OF rejected_reject rejected_reject rejected_reject
      rejected_reject rejected_reject rejected_reject rejected_reject] show ?thesis
    by (simp only: dup val cb null simp_thms not_less if_True) presburger
qed

text \<open>
  The transaction hash is the double SHA-256 of the serialisation without witnesses, so it does not depend on them;
  without witnesses the witness hash is the transaction hash and the weight is four times the size.
\<close>

theorem witness_separation:
  "tx_GetHash tx = sha256 (sha256 (SerializeTransaction SERIALIZE_TRANSACTION_NO_WITNESS tx)) \<and>
   tx_GetHash (tx\<lparr>vin := map strip (vin tx)\<rparr>) = tx_GetHash tx \<and>
   GetWitnessHash (tx\<lparr>vin := map strip (vin tx)\<rparr>) = tx_GetHash tx \<and>
   GetTransactionWeight (tx\<lparr>vin := map strip (vin tx)\<rparr>) =
     4 * int (length (SerializeTransaction (PROTOCOL_VERSION OR SERIALIZE_TRANSACTION_NO_WITNESS) tx))"
proof -
  let ?n = "PROTOCOL_VERSION OR SERIALIZE_TRANSACTION_NO_WITNESS" and ?tx = "tx\<lparr>vin := map strip (vin tx)\<rparr>"
  have n: "?n AND SERIALIZE_TRANSACTION_NO_WITNESS \<noteq> 0" "SERIALIZE_TRANSACTION_NO_WITNESS AND SERIALIZE_TRANSACTION_NO_WITNESS \<noteq> 0"
    by simp_all
  have "SerializeTransaction PROTOCOL_VERSION ?tx = SerializeTransaction ?n ?tx"
    using not_HasWitness_strip [of tx] by (simp add: SerializeTransaction_def)
  then show ?thesis
    using not_HasWitness_strip [of tx] n
    by (simp add: tx_GetHash_def GetWitnessHash_def GetTransactionWeight_def SerializeHash_eq Serialize_strip)
qed

end
