(* ===== verification/Fees.thy ===== *)
theory Fees
  imports Transaction
begin

text \<open>
  \<^verbatim>\<open>src/dogecoin-fees.h\<close>, \<^verbatim>\<open>src/dogecoin-fees.cpp\<close>, with the dust rule of \<^verbatim>\<open>src/primitives/transaction.h\<close>
  and the prioritisation table of \<^verbatim>\<open>src/txmempool.cpp\<close>: fee presets of the wallet, and the minimum fee for relaying a transaction.
\<close>

section \<open>Fee policy\<close>

datatype FeeRatePreset = MINIMUM | MORE | WOW | AMAZE | MANY_GENEROUS | SUCH_EXPENSIVE

text \<open>\<open>minTxFee\<close> is the wallet's configured minimum; None stands for a value outside the enumeration.\<close>

definition GetDogecoinFeeRate :: "CFeeRate \<Rightarrow> FeeRatePreset option \<Rightarrow> CFeeRate option" where
  "GetDogecoinFeeRate minTxFee priority =
     (let scaled = (\<lambda>k. map_option (\<lambda>f. \<lparr>nSatoshisPerK = wrap64 (f * k)\<rparr>) (GetFeePerK minTxFee))
      in case priority of
           Some SUCH_EXPENSIVE \<Rightarrow> Some \<lparr>nSatoshisPerK = COIN div 100 * 521\<rparr>
         | Some MANY_GENEROUS \<Rightarrow> scaled 100
         | Some AMAZE \<Rightarrow> scaled 10
         | Some WOW \<Rightarrow> scaled 5
         | Some MORE \<Rightarrow> scaled 2
         | _ \<Rightarrow> Some minTxFee)"

definition GetDogecoinPriorityLabel :: "FeeRatePreset option \<Rightarrow> string" where
  "GetDogecoinPriorityLabel priority =
     (case priority of
        Some SUCH_EXPENSIVE \<Rightarrow> ''Such expensive''
      | Some MANY_GENEROUS \<Rightarrow> ''Many generous''
      | Some AMAZE \<Rightarrow> ''Amaze''
      | Some WOW \<Rightarrow> ''Wow''
      | Some MORE \<Rightarrow> ''More''
      | Some MINIMUM \<Rightarrow> ''Minimum''
      | None \<Rightarrow> ''Default'')"

abbreviation (input) OP_RETURN :: u8 where
  "OP_RETURN \<equiv> 0x6a"

abbreviation (input) MAX_SCRIPT_SIZE :: nat where
  "MAX_SCRIPT_SIZE \<equiv> 10000"

definition IsUnspendable :: "bytes \<Rightarrow> bool" where
  "IsUnspendable script \<longleftrightarrow> (length script > 0 \<and> script ! 0 = OP_RETURN) \<or> length script > MAX_SCRIPT_SIZE"

definition IsDust :: "CTxOut \<Rightarrow> CAmount \<Rightarrow> bool" where
  "IsDust txout dustLimit = (if IsUnspendable (scriptPubKey txout) then False else nValue txout < dustLimit)"

primrec dust_loop :: "CTxOut list \<Rightarrow> CAmount \<Rightarrow> CAmount \<Rightarrow> CAmount" where
  "dust_loop [] dustLimit nFee = nFee"
| "dust_loop (txout # txouts) dustLimit nFee =
     dust_loop txouts dustLimit (if IsDust txout dustLimit then wrap64 (nFee + dustLimit) else nFee)"

definition GetDogecoinDustFee :: "CTxOut list \<Rightarrow> CAmount \<Rightarrow> CAmount" where
  "GetDogecoinDustFee txouts dustLimit = dust_loop txouts dustLimit 0"

abbreviation (input) DEFAULT_BLOCK_PRIORITY_SIZE :: nat where
  "DEFAULT_BLOCK_PRIORITY_SIZE \<equiv> 27000"

text \<open>The prioritisation table of the memory pool.\<close>

definition ApplyDeltas :: "(bytes \<rightharpoonup> rat \<times> CAmount) \<Rightarrow> bytes \<Rightarrow> rat \<Rightarrow> CAmount \<Rightarrow> rat \<times> CAmount" where
  "ApplyDeltas mapDeltas hash dPriorityDelta nFeeDelta =
     (case mapDeltas hash of
        None \<Rightarrow> (dPriorityDelta, nFeeDelta)
      | Some (p, f) \<Rightarrow> (dPriorityDelta + p, wrap64 (nFeeDelta + f)))"

definition GetDogecoinMinRelayFee ::
    "(bytes \<rightharpoonup> rat \<times> CAmount) \<Rightarrow> CFeeRate \<Rightarrow> CAmount \<Rightarrow> CTransaction \<Rightarrow> nat \<Rightarrow> bool \<Rightarrow> CAmount option" where
  "GetDogecoinMinRelayFee mapDeltas minRelayTxFeeRate nDustLimit tx nBytes fAllowFree =
     (let hash = tx_GetHash tx;
          (dPriorityDelta, nFeeDelta) = ApplyDeltas mapDeltas hash 0 0
      in if dPriorityDelta > 0 \<or> nFeeDelta > 0 then Some 0
         else case GetFee minRelayTxFeeRate nBytes of
                None \<Rightarrow> None
              | Some nMinFee \<Rightarrow>
                  let nMinFee = wrap64 (nMinFee + GetDogecoinDustFee (vout tx) nDustLimit);
                      nMinFee = (if fAllowFree \<and> nBytes < DEFAULT_BLOCK_PRIORITY_SIZE - 1000 then 0 else nMinFee)
                  in Some (if \<not> MoneyRange nMinFee then MAX_MONEY else nMinFee))"

section \<open>Facts\<close>

lemma dust_loop_sum:
  assumes "0 \<le> dustLimit" and "0 \<le> nFee" and "nFee + dustLimit * int (length txouts) < 2 ^ 63"
  shows "dust_loop txouts dustLimit nFee = nFee + dustLimit * int (length (filter (\<lambda>txout. IsDust txout dustLimit) txouts))"
  using assms(2,3)
proof (induction txouts arbitrary: nFee)
  case (Cons txout txouts)
  have "0 \<le> dustLimit * int (length txouts)" using assms(1) by simp
  then have "nFee + dustLimit < 2 ^ 63" using Cons.prems by (simp add: algebra_simps)
  then have "wrap64 (nFee + dustLimit) = nFee + dustLimit"
    using Cons.prems assms(1) by (intro wrap64_id) simp_all
  then show ?case
    using Cons.IH [of nFee] Cons.IH [of "nFee + dustLimit"] Cons.prems assms(1) by (simp add: algebra_simps)
qed simp

section \<open>Properties\<close>

text \<open>
  The minimum relay fee is always a valid amount, whatever the configuration, the outputs and the wrap-around of the
  sums, and it is zero for a prioritised transaction. When the transaction is not prioritised, the free area does not
  apply and nothing overflows, it is the fee for the size plus the dust limit for each dust output.
\<close>

theorem min_relay_fee:
  assumes "nBytes < 2 ^ 32"
  shows "\<exists>f fee. GetFee rate nBytes = Some f \<and>
    GetDogecoinMinRelayFee mapDeltas rate nDustLimit tx nBytes fAllowFree = Some fee \<and> MoneyRange fee \<and>
    (let prioritised = fst (ApplyDeltas mapDeltas (tx_GetHash tx) 0 0) > 0 \<or> snd (ApplyDeltas mapDeltas (tx_GetHash tx) 0 0) > 0
     in (prioritised \<longrightarrow> fee = 0) \<and>
        (\<not> prioritised \<and> \<not> (fAllowFree \<and> nBytes < 26000) \<and> 0 \<le> nDustLimit \<and> 0 \<le> f \<and>
         f + nDustLimit * int (length (vout tx)) \<le> MAX_MONEY \<longrightarrow>
         fee = f + nDustLimit * int (length (filter (\<lambda>txout. IsDust txout nDustLimit) (vout tx)))))"
proof -
  obtain f where f: "GetFee rate nBytes = Some f" using assms by (simp add: GetFee_def Let_def)
  define n where "n = length (filter (\<lambda>txout. IsDust txout nDustLimit) (vout tx))"
  have sum: "MoneyRange (f + nDustLimit * int n) \<and> wrap64 (f + GetDogecoinDustFee (vout tx) nDustLimit) = f + nDustLimit * int n"
    if "0 \<le> nDustLimit" "0 \<le> f" "f + nDustLimit * int (length (vout tx)) \<le> MAX_MONEY"
  proof -
    have n: "nDustLimit * int n \<le> nDustLimit * int (length (vout tx))" "0 \<le> nDustLimit * int n"
      using that(1) unfolding n_def by (auto intro: mult_left_mono)
    have max: "MAX_MONEY < 2 ^ 63" by (simp add: MAX_MONEY_def COIN_def)
    have "dust_loop (vout tx) nDustLimit 0 = 0 + nDustLimit * int n"
      unfolding n_def using that max by (intro dust_loop_sum) linarith+
    moreover have "0 \<le> f + nDustLimit * int n" "f + nDustLimit * int n \<le> MAX_MONEY" using that n by linarith+
    ultimately show ?thesis
      using max wrap64_id [of "f + nDustLimit * int n"] by (simp add: GetDogecoinDustFee_def MoneyRange_def)
  qed
  show ?thesis
    unfolding f n_def [symmetric]
    using sum by (auto simp: GetDogecoinMinRelayFee_def MoneyRange_max split_beta Let_def f)
qed

theorem min_relay_fee_witness:
  "GetDogecoinMinRelayFee (\<lambda>h. None) \<lparr>nSatoshisPerK = 100000\<rparr> 1000000
     \<lparr>tx_nVersion = 1, vin = [], vout = [\<lparr>nValue = 5, scriptPubKey = []\<rparr>, \<lparr>nValue = 2000000, scriptPubKey = []\<rparr>], nLockTime = 0\<rparr>
     250 False = Some 1025000"
proof -
  let ?tx = "\<lparr>tx_nVersion = 1, vin = [], vout = [\<lparr>nValue = 5, scriptPubKey = []\<rparr>, \<lparr>nValue = 2000000, scriptPubKey = []\<rparr>], nLockTime = 0\<rparr>"
  have "GetFee \<lparr>nSatoshisPerK = 100000\<rparr> 250 = Some 25000" by (simp add: GetFee_def sdiv_nonneg)
  with min_relay_fee [of 250 "\<lparr>nSatoshisPerK = 100000\<rparr>" "\<lambda>h. None" 1000000 ?tx False] show ?thesis
    by (simp add: ApplyDeltas_def IsDust_def IsUnspendable_def MAX_MONEY_def COIN_def)
qed

end
