(* ===== verification/Script.thy ===== *)
theory Script
  imports Fees
begin

text \<open>
  \<^verbatim>\<open>src/script/script.h\<close> and \<^verbatim>\<open>src/script/script.cpp\<close>: scripts as byte strings, reading and appending
  instructions, the numbers scripts compute with, and the tests on the form of a script. An iterator into a script is the rest of
  the script behind it; an opcode is the natural number of its byte. An instruction that cannot be read still moves the iterator,
  as in the code.
\<close>

section \<open>Opcodes\<close>

abbreviation OP_0 :: nat where "OP_0 \<equiv> 0x00"
abbreviation OP_PUSHDATA1 :: nat where "OP_PUSHDATA1 \<equiv> 0x4c"
abbreviation OP_PUSHDATA2 :: nat where "OP_PUSHDATA2 \<equiv> 0x4d"
abbreviation OP_PUSHDATA4 :: nat where "OP_PUSHDATA4 \<equiv> 0x4e"
abbreviation OP_1NEGATE :: nat where "OP_1NEGATE \<equiv> 0x4f"
abbreviation OP_1 :: nat where "OP_1 \<equiv> 0x51"
abbreviation OP_16 :: nat where "OP_16 \<equiv> 0x60"
abbreviation OP_NOP :: nat where "OP_NOP \<equiv> 0x61"
abbreviation OP_IF :: nat where "OP_IF \<equiv> 0x63"
abbreviation OP_NOTIF :: nat where "OP_NOTIF \<equiv> 0x64"
abbreviation OP_ELSE :: nat where "OP_ELSE \<equiv> 0x67"
abbreviation OP_ENDIF :: nat where "OP_ENDIF \<equiv> 0x68"
abbreviation OP_VERIFY :: nat where "OP_VERIFY \<equiv> 0x69"
abbreviation OP_TOALTSTACK :: nat where "OP_TOALTSTACK \<equiv> 0x6b"
abbreviation OP_FROMALTSTACK :: nat where "OP_FROMALTSTACK \<equiv> 0x6c"
abbreviation OP_2DROP :: nat where "OP_2DROP \<equiv> 0x6d"
abbreviation OP_2DUP :: nat where "OP_2DUP \<equiv> 0x6e"
abbreviation OP_3DUP :: nat where "OP_3DUP \<equiv> 0x6f"
abbreviation OP_2OVER :: nat where "OP_2OVER \<equiv> 0x70"
abbreviation OP_2ROT :: nat where "OP_2ROT \<equiv> 0x71"
abbreviation OP_2SWAP :: nat where "OP_2SWAP \<equiv> 0x72"
abbreviation OP_IFDUP :: nat where "OP_IFDUP \<equiv> 0x73"
abbreviation OP_DEPTH :: nat where "OP_DEPTH \<equiv> 0x74"
abbreviation OP_DROP :: nat where "OP_DROP \<equiv> 0x75"
abbreviation OP_DUP :: nat where "OP_DUP \<equiv> 0x76"
abbreviation OP_NIP :: nat where "OP_NIP \<equiv> 0x77"
abbreviation OP_OVER :: nat where "OP_OVER \<equiv> 0x78"
abbreviation OP_PICK :: nat where "OP_PICK \<equiv> 0x79"
abbreviation OP_ROLL :: nat where "OP_ROLL \<equiv> 0x7a"
abbreviation OP_ROT :: nat where "OP_ROT \<equiv> 0x7b"
abbreviation OP_SWAP :: nat where "OP_SWAP \<equiv> 0x7c"
abbreviation OP_TUCK :: nat where "OP_TUCK \<equiv> 0x7d"
abbreviation OP_SIZE :: nat where "OP_SIZE \<equiv> 0x82"
abbreviation OP_EQUAL :: nat where "OP_EQUAL \<equiv> 0x87"
abbreviation OP_EQUALVERIFY :: nat where "OP_EQUALVERIFY \<equiv> 0x88"
abbreviation OP_1ADD :: nat where "OP_1ADD \<equiv> 0x8b"
abbreviation OP_1SUB :: nat where "OP_1SUB \<equiv> 0x8c"
abbreviation OP_NEGATE :: nat where "OP_NEGATE \<equiv> 0x8f"
abbreviation OP_ABS :: nat where "OP_ABS \<equiv> 0x90"
abbreviation OP_NOT :: nat where "OP_NOT \<equiv> 0x91"
abbreviation OP_0NOTEQUAL :: nat where "OP_0NOTEQUAL \<equiv> 0x92"
abbreviation OP_ADD :: nat where "OP_ADD \<equiv> 0x93"
abbreviation OP_SUB :: nat where "OP_SUB \<equiv> 0x94"
abbreviation OP_BOOLAND :: nat where "OP_BOOLAND \<equiv> 0x9a"
abbreviation OP_BOOLOR :: nat where "OP_BOOLOR \<equiv> 0x9b"
abbreviation OP_NUMEQUAL :: nat where "OP_NUMEQUAL \<equiv> 0x9c"
abbreviation OP_NUMEQUALVERIFY :: nat where "OP_NUMEQUALVERIFY \<equiv> 0x9d"
abbreviation OP_NUMNOTEQUAL :: nat where "OP_NUMNOTEQUAL \<equiv> 0x9e"
abbreviation OP_LESSTHAN :: nat where "OP_LESSTHAN \<equiv> 0x9f"
abbreviation OP_GREATERTHAN :: nat where "OP_GREATERTHAN \<equiv> 0xa0"
abbreviation OP_LESSTHANOREQUAL :: nat where "OP_LESSTHANOREQUAL \<equiv> 0xa1"
abbreviation OP_GREATERTHANOREQUAL :: nat where "OP_GREATERTHANOREQUAL \<equiv> 0xa2"
abbreviation OP_MIN :: nat where "OP_MIN \<equiv> 0xa3"
abbreviation OP_MAX :: nat where "OP_MAX \<equiv> 0xa4"
abbreviation OP_WITHIN :: nat where "OP_WITHIN \<equiv> 0xa5"
abbreviation OP_RIPEMD160 :: nat where "OP_RIPEMD160 \<equiv> 0xa6"
abbreviation OP_SHA1 :: nat where "OP_SHA1 \<equiv> 0xa7"
abbreviation OP_SHA256 :: nat where "OP_SHA256 \<equiv> 0xa8"
abbreviation OP_HASH160 :: nat where "OP_HASH160 \<equiv> 0xa9"
abbreviation OP_HASH256 :: nat where "OP_HASH256 \<equiv> 0xaa"
abbreviation OP_CODESEPARATOR :: nat where "OP_CODESEPARATOR \<equiv> 0xab"
abbreviation OP_CHECKSIG :: nat where "OP_CHECKSIG \<equiv> 0xac"
abbreviation OP_CHECKSIGVERIFY :: nat where "OP_CHECKSIGVERIFY \<equiv> 0xad"
abbreviation OP_CHECKMULTISIG :: nat where "OP_CHECKMULTISIG \<equiv> 0xae"
abbreviation OP_CHECKMULTISIGVERIFY :: nat where "OP_CHECKMULTISIGVERIFY \<equiv> 0xaf"
abbreviation OP_NOP1 :: nat where "OP_NOP1 \<equiv> 0xb0"
abbreviation OP_CHECKLOCKTIMEVERIFY :: nat where "OP_CHECKLOCKTIMEVERIFY \<equiv> 0xb1"
abbreviation OP_CHECKSEQUENCEVERIFY :: nat where "OP_CHECKSEQUENCEVERIFY \<equiv> 0xb2"
abbreviation OP_NOP4 :: nat where "OP_NOP4 \<equiv> 0xb3"
abbreviation OP_NOP10 :: nat where "OP_NOP10 \<equiv> 0xb9"
abbreviation OP_INVALIDOPCODE :: nat where "OP_INVALIDOPCODE \<equiv> 0xff"

abbreviation (input) MAX_SCRIPT_ELEMENT_SIZE :: nat where
  "MAX_SCRIPT_ELEMENT_SIZE \<equiv> 520"

abbreviation (input) MAX_OPS_PER_SCRIPT :: nat where
  "MAX_OPS_PER_SCRIPT \<equiv> 201"

abbreviation (input) MAX_PUBKEYS_PER_MULTISIG :: nat where
  "MAX_PUBKEYS_PER_MULTISIG \<equiv> 20"

text \<open>The opcodes that fail wherever they occur in a script.\<close>

definition disabled_opcode :: "nat \<Rightarrow> bool" where
  "disabled_opcode opcode \<longleftrightarrow>
     opcode \<in> set [0x7e, 0x7f, 0x80, 0x81, 0x83, 0x84, 0x85, 0x86, 0x8d, 0x8e, 0x95, 0x96, 0x97, 0x98, 0x99]"

section \<open>Numbers\<close>

text \<open>
  A script number is a 64-bit integer, here an int in that range. The bytes are combined in 64 bits; the shift by 64 bits or more that a longer
  string would take, which is undefined, yields zero. At most five bytes are ever read as a number.
\<close>

primrec or_bytes :: "bytes \<Rightarrow> nat \<Rightarrow> u64" where
  "or_bytes [] i = 0"
| "or_bytes (b # dat) i = push_bit (8 * i) (ucast b) OR or_bytes dat (Suc i)"

definition set_vch :: "bytes \<Rightarrow> int" where
  "set_vch dat =
     (if dat = [] then 0
      else let result = or_bytes dat 0
           in if last dat AND 0x80 \<noteq> 0 then - sint (result AND NOT (push_bit (8 * (length dat - 1)) 0x80)) else sint result)"

text \<open>The constructor from a byte string; None stands for \<open>scriptnum_error\<close>.\<close>

definition CScriptNum :: "bytes \<Rightarrow> bool \<Rightarrow> nat \<Rightarrow> int option" where
  "CScriptNum dat fRequireMinimal nMaxNumSize =
     (if length dat > nMaxNumSize then None
      else if fRequireMinimal \<and> length dat > 0 \<and> last dat AND 0x7f = 0 \<and>
              (length dat \<le> 1 \<or> dat ! (length dat - 2) AND 0x80 = 0) then None
      else Some (set_vch dat))"

definition getint :: "int \<Rightarrow> int" where
  "getint m_value =
     (if m_value > 2 ^ 31 - 1 then 2 ^ 31 - 1 else if m_value < - (2 ^ 31) then - (2 ^ 31) else m_value)"

function abs_bytes :: "u64 \<Rightarrow> bytes" where
  "abs_bytes absvalue = (if absvalue = 0 then [] else ucast (absvalue AND 0xff) # abs_bytes (drop_bit 8 absvalue))"
  by pat_completeness simp_all

termination
proof (relation "measure unat")
  fix absvalue :: u64
  assume "absvalue \<noteq> 0"
  then show "(drop_bit 8 absvalue, absvalue) \<in> measure unat"
    by (simp add: drop_bit_eq_div unat_div_distrib unat_gt_0)
qed simp

declare abs_bytes.simps [simp del]

definition scriptnum_serialize :: "int \<Rightarrow> bytes" where
  "scriptnum_serialize v =
     (let v = wrap64 v
      in if v = 0 then []
         else let neg = v < 0; result = abs_bytes (word_of_int \<bar>v\<bar>)
              in if last result AND 0x80 \<noteq> 0 then result @ [if neg then 0x80 else 0]
                 else if neg then result[length result - 1 := last result OR 0x80]
                 else result)"

section \<open>Appending instructions\<close>

text \<open>None stands for the exception.\<close>

definition push_opcode :: "bytes \<Rightarrow> nat \<Rightarrow> bytes option" where
  "push_opcode script opcode = (if opcode > 0xff then None else Some (script @ [word_of_nat opcode]))"

text \<open>Appending data to a script, with the shortest of the four push opcodes.\<close>

definition push_data :: "bytes \<Rightarrow> bytes \<Rightarrow> bytes" where
  "push_data script b =
     script @
     (if length b < 0x4c then [word_of_nat (length b)]
      else if length b \<le> 0xff then [0x4c, word_of_nat (length b)]
      else if length b \<le> 0xffff then 0x4d # WriteLE16 (word_of_nat (length b))
      else 0x4e # WriteLE32 (word_of_nat (length b))) @ b"

definition push_int64 :: "bytes \<Rightarrow> int \<Rightarrow> bytes" where
  "push_int64 script n =
     (if n = - 1 \<or> (n \<ge> 1 \<and> n \<le> 16) then script @ [word_of_int (n + (int OP_1 - 1))]
      else if n = 0 then script @ [word_of_nat OP_0]
      else push_data script (scriptnum_serialize n))"

section \<open>Reading instructions\<close>

text \<open>The size of the data that follows the opcode; None when the script ends before it.\<close>

definition push_size :: "nat \<Rightarrow> bytes \<Rightarrow> (nat \<times> bytes) option" where
  "push_size opcode pc =
     (if opcode < OP_PUSHDATA1 then Some (opcode, pc)
      else if opcode = OP_PUSHDATA1 then (if length pc < 1 then None else Some (unat (pc ! 0), drop 1 pc))
      else if opcode = OP_PUSHDATA2 then (if length pc < 2 then None else Some (unat (ReadLE16 pc), drop 2 pc))
      else if length pc < 4 then None else Some (unat (ReadLE32 pc), drop 4 pc))"

definition GetOp2 :: "bytes \<Rightarrow> bool \<times> nat \<times> bytes \<times> bytes" where
  "GetOp2 pc =
     (case pc of
        [] \<Rightarrow> (False, OP_INVALIDOPCODE, [], pc)
      | b # pc \<Rightarrow>
          let opcode = unat b
          in if opcode \<le> OP_PUSHDATA4
             then case push_size opcode pc of
                    None \<Rightarrow> (False, OP_INVALIDOPCODE, [], pc)
                  | Some (nSize, pc) \<Rightarrow>
                      if length pc < nSize then (False, OP_INVALIDOPCODE, [], pc)
                      else (True, opcode, take nSize pc, drop nSize pc)
             else (True, opcode, [], pc))"

lemma GetOp2_shrinks: "GetOp2 pc = (True, opcode, dat, pc') \<Longrightarrow> length pc' < length pc"
  by (auto simp: GetOp2_def push_size_def Let_def split: list.splits if_splits option.splits)

lemma GetOp2_rest_shorter: "fst (GetOp2 pc) \<Longrightarrow> length (snd (snd (snd (GetOp2 pc)))) < length pc"
  by (rule GetOp2_shrinks [of _ "fst (snd (GetOp2 pc))" "fst (snd (snd (GetOp2 pc)))"]) (simp add: prod_eq_iff)

definition DecodeOP_N :: "nat \<Rightarrow> int option" where
  "DecodeOP_N opcode =
     (if opcode = OP_0 then Some 0 else if opcode \<ge> OP_1 \<and> opcode \<le> OP_16 then Some (int opcode - (int OP_1 - 1)) else None)"

definition EncodeOP_N :: "int \<Rightarrow> nat option" where
  "EncodeOP_N n = (if n \<ge> 0 \<and> n \<le> 16 then Some (if n = 0 then OP_0 else nat (int OP_1 + n - 1)) else None)"

function delete_all :: "bytes \<Rightarrow> bytes \<Rightarrow> nat \<Rightarrow> bytes \<times> nat" where
  "delete_all b pc nFound =
     (if b \<noteq> [] \<and> length pc \<ge> length b \<and> take (length b) pc = b then delete_all b (drop (length b) pc) (nFound + 1)
      else (pc, nFound))"
  by pat_completeness auto
termination by (relation "measure (\<lambda>(b, pc, n). length pc)") (auto intro: diff_less)

declare delete_all.simps [simp del]

lemma delete_all_length: "length (fst (delete_all b pc n)) \<le> length pc"
proof (induction b pc n rule: delete_all.induct)
  case (1 b pc n)
  then show ?case by (subst delete_all.simps) (auto intro: order_trans)
qed

text \<open>The bytes from one iterator to a later one.\<close>

definition between :: "bytes \<Rightarrow> bytes \<Rightarrow> bytes" where
  "between p q = take (length p - length q) p"

function find_delete_loop :: "bytes \<Rightarrow> bytes \<Rightarrow> bytes \<Rightarrow> bytes \<Rightarrow> nat \<Rightarrow> bytes \<times> bytes \<times> nat" where
  "find_delete_loop b pc2 pc result nFound =
     (let result = result @ between pc2 pc; d = delete_all b pc nFound; g = GetOp2 (fst d)
      in if fst g then find_delete_loop b (fst d) (snd (snd (snd g))) result (snd d) else (result, fst d, snd d))"
  by pat_completeness auto
termination
proof (relation "measure (\<lambda>(b, pc2, pc, result, n). length pc)")
  fix b pc2 pc result r :: bytes and nFound :: nat and d g
  assume d: "d = delete_all b pc nFound" and g: "g = GetOp2 (fst d)" and ok: "fst g"
  have "length (snd (snd (snd g))) < length (fst d)"
    using g ok by (simp add: GetOp2_rest_shorter)
  also have "\<dots> \<le> length pc" by (simp add: d delete_all_length)
  finally show "((b, fst d, snd (snd (snd g)), r, snd d), b, pc2, pc, result, nFound) \<in> measure (\<lambda>(b, pc2, pc, result, n). length pc)"
    by simp
qed simp

declare find_delete_loop.simps [simp del]

definition FindAndDelete :: "bytes \<Rightarrow> bytes \<Rightarrow> bytes \<times> nat" where
  "FindAndDelete script b =
     (if b = [] then (script, 0)
      else let (result, pc2, nFound) = find_delete_loop b script script [] 0
           in (if nFound > 0 then result @ pc2 else script, nFound))"

function Find_loop :: "nat \<Rightarrow> bytes \<Rightarrow> nat \<Rightarrow> nat" where
  "Find_loop op pc nFound =
     (let g = GetOp2 pc
      in if pc \<noteq> [] \<and> fst g then Find_loop op (snd (snd (snd g))) (if fst (snd g) = op then nFound + 1 else nFound) else nFound)"
  by pat_completeness auto
termination by (relation "measure (\<lambda>(op, pc, n). length pc)") (auto simp: GetOp2_rest_shorter)

definition Find :: "bytes \<Rightarrow> nat \<Rightarrow> nat" where
  "Find script op = Find_loop op script 0"

section \<open>Forms of scripts\<close>

function sigop_loop :: "bool \<Rightarrow> bytes \<Rightarrow> nat \<Rightarrow> nat \<Rightarrow> nat" where
  "sigop_loop fAccurate pc lastOpcode n =
     (let (ok, opcode, dat, pc') = GetOp2 pc
      in if pc = [] \<or> \<not> ok then n
         else sigop_loop fAccurate pc' opcode
                (if opcode = OP_CHECKSIG \<or> opcode = OP_CHECKSIGVERIFY then n + 1
                 else if opcode = OP_CHECKMULTISIG \<or> opcode = OP_CHECKMULTISIGVERIFY
                 then n + (case DecodeOP_N lastOpcode of
                             Some k \<Rightarrow> if fAccurate \<and> lastOpcode \<ge> OP_1 \<and> lastOpcode \<le> OP_16 then nat k else MAX_PUBKEYS_PER_MULTISIG
                           | None \<Rightarrow> MAX_PUBKEYS_PER_MULTISIG)
                 else n))"
  by pat_completeness auto
termination by (relation "measure (\<lambda>(f, pc, l, n). length pc)") (auto dest: GetOp2_shrinks [OF sym])

declare sigop_loop.simps [simp del]

definition GetSigOpCount :: "bytes \<Rightarrow> bool \<Rightarrow> nat" where
  "GetSigOpCount script fAccurate = sigop_loop fAccurate script OP_INVALIDOPCODE 0"

definition IsPayToScriptHash :: "bytes \<Rightarrow> bool" where
  "IsPayToScriptHash script \<longleftrightarrow>
     length script = 23 \<and> unat (script ! 0) = OP_HASH160 \<and> script ! 1 = 0x14 \<and> unat (script ! 22) = OP_EQUAL"

text \<open>The last data a script of pushes only pushes; None when it is not one.\<close>

function last_push :: "bytes \<Rightarrow> bytes \<Rightarrow> bytes option" where
  "last_push pc dat =
     (if pc = [] then Some dat
      else let (ok, opcode, dat, pc') = GetOp2 pc
           in if \<not> ok then None else if opcode > OP_16 then None else last_push pc' dat)"
  by pat_completeness auto
termination by (relation "measure (\<lambda>(pc, v). length pc)") (auto dest: GetOp2_shrinks [OF sym])

declare last_push.simps [simp del]

definition GetP2SHSigOpCount :: "bytes \<Rightarrow> bytes \<Rightarrow> nat" where
  "GetP2SHSigOpCount script sig =
     (if \<not> IsPayToScriptHash script then GetSigOpCount script True
      else case last_push sig [] of None \<Rightarrow> 0 | Some dat \<Rightarrow> GetSigOpCount dat True)"

definition IsPayToWitnessScriptHash :: "bytes \<Rightarrow> bool" where
  "IsPayToWitnessScriptHash script \<longleftrightarrow> length script = 34 \<and> unat (script ! 0) = OP_0 \<and> script ! 1 = 0x20"

text \<open>The version and the program.\<close>

definition IsWitnessProgram :: "bytes \<Rightarrow> (int \<times> bytes) option" where
  "IsWitnessProgram script =
     (if length script < 4 \<or> length script > 42 then None
      else let v = unat (script ! 0)
           in if v \<noteq> OP_0 \<and> (v < OP_1 \<or> v > OP_16) then None
              else if unat (script ! 1) + 2 = length script then map_option (\<lambda>n. (n, drop 2 script)) (DecodeOP_N v)
              else None)"

function IsPushOnly :: "bytes \<Rightarrow> bool" where
  "IsPushOnly pc =
     (if pc = [] then True
      else let (ok, opcode, dat, pc') = GetOp2 pc in if \<not> ok then False else if opcode > OP_16 then False else IsPushOnly pc')"
  by pat_completeness auto
termination by (relation "measure length") (auto dest: GetOp2_shrinks [OF sym])

declare IsPushOnly.simps [simp del]

section \<open>Instructions are read as they were appended\<close>

lemma unat_of_small: "n < 256 \<Longrightarrow> unat (word_of_nat n :: u8) = n"
  by (simp add: unsigned_of_nat take_bit_nat_eq_self)

lemma ReadLE16_WriteLE16: "n < 65536 \<Longrightarrow> unat (ReadLE16 (WriteLE16 (word_of_nat n) @ rest)) = n"
  by (simp add: ReadLE16_def WriteLE16_def le_word_le_bytes unsigned_of_nat take_bit_nat_eq_self)

lemma ReadLE32_WriteLE32: "n < 4294967296 \<Longrightarrow> unat (ReadLE32 (WriteLE32 (word_of_nat n) @ rest)) = n"
  by (simp add: ReadLE32_def WriteLE32_def le_word_le_bytes unsigned_of_nat take_bit_nat_eq_self)

lemma length_WriteLE [simp]: "length (WriteLE16 x) = 2" "length (WriteLE32 y) = 4"
  by (simp_all add: WriteLE16_def WriteLE32_def)

definition push_opcode_of :: "nat \<Rightarrow> nat" where
  "push_opcode_of n = (if n < OP_PUSHDATA1 then n else if n \<le> 0xff then OP_PUSHDATA1 else if n \<le> 0xffff then OP_PUSHDATA2 else OP_PUSHDATA4)"

lemma GetOp2_push:
  "length b < 2 ^ 32 \<Longrightarrow> GetOp2 (push_data [] b @ rest) = (True, push_opcode_of (length b), b, rest)"
  by (simp add: push_data_def GetOp2_def push_size_def push_opcode_of_def Let_def unat_of_small ReadLE16_WriteLE16 ReadLE32_WriteLE32)

lemma GetOp2_opcode:
  "OP_PUSHDATA4 < opcode \<Longrightarrow> opcode < 256 \<Longrightarrow> GetOp2 (word_of_nat opcode # rest) = (True, opcode, [], rest)"
  by (simp add: GetOp2_def unat_of_small)

section \<open>Numbers are read as they were written\<close>

text \<open>The format without a bound on the size: sign and magnitude, least significant byte first.\<close>

primrec or_ints :: "bytes \<Rightarrow> nat \<Rightarrow> int" where
  "or_ints [] i = 0"
| "or_ints (b # dat) i = push_bit (8 * i) (uint b) OR or_ints dat (Suc i)"

definition number_of_bytes :: "bytes \<Rightarrow> int" where
  "number_of_bytes dat =
     (if dat = [] then 0
      else let result = or_ints dat 0
           in if last dat AND 0x80 \<noteq> 0 then - (result AND NOT (push_bit (8 * (length dat - 1)) 0x80)) else result)"

fun nat_bytes :: "nat \<Rightarrow> bytes" where
  "nat_bytes n = (if n = 0 then [] else word_of_nat (n mod 256) # nat_bytes (n div 256))"

declare nat_bytes.simps [simp del]

definition bytes_of_number :: "int \<Rightarrow> bytes" where
  "bytes_of_number v =
     (if v = 0 then []
      else let neg = v < 0; result = nat_bytes (nat \<bar>v\<bar>)
           in if last result AND 0x80 \<noteq> 0 then result @ [if neg then 0x80 else 0]
              else if neg then result[length result - 1 := last result OR 0x80]
              else result)"

lemma u8_unat_less: "unat (b :: u8) < 256"
  using unsigned_less [of b, where 'a = nat] by simp

lemma u8_uint_less: "uint (b :: u8) < 256"
  using unsigned_less [of b, where 'a = int] by simp

lemma or_ints_value: "or_ints dat i = 256 ^ i * int (bval dat)"
proof (induction dat arbitrary: i)
  case (Cons b dat)
  have p: "(2::int) ^ (8 * i) = 256 ^ i" by (simp only: power_mult) simp
  have "256 ^ Suc i * int (bval dat) = push_bit (8 * i) (push_bit 8 (int (bval dat)))"
    by (simp add: push_bit_eq_mult p)
  then have "or_ints (b # dat) i = push_bit (8 * i) (uint b OR push_bit 8 (int (bval dat)))"
    by (simp only: or_ints.simps Cons.IH push_bit_or)
  also have "uint b OR push_bit 8 (int (bval dat)) = uint b + push_bit 8 (int (bval dat))"
    using concat_bit_eq [of 8 "uint b" "int (bval dat)"] by (simp add: concat_bit_def take_bit_int_eq_self u8_uint_less)
  finally show ?case by (simp only: push_bit_eq_mult p) (simp add: algebra_simps)
qed simp

lemma and_not_top_bit:
  fixes x :: int
  assumes "0 \<le> x" "x < 2 ^ j"
  shows "(x + 2 ^ j) AND NOT (2 ^ j) = x"
proof -
  have "bit (x + 2 ^ j) j" using assms by (simp add: bit_iff_odd)
  then show ?thesis
    using unset_bit_eq [of j "x + 2 ^ j"] by (simp add: unset_bit_eq_and_not push_bit_eq_mult)
qed

lemma byte_sign: "m AND 0x80 \<noteq> 0 \<longleftrightarrow> 128 \<le> unat (m :: u8)"
proof -
  have "m AND 0x80 \<noteq> 0 \<longleftrightarrow> bit m 7"
    using bit_iff_and_push_bit_not_eq_0 [of m 7] by (simp add: push_bit_eq_mult)
  also have "\<dots> \<longleftrightarrow> odd (unat m div 128)"
    by (simp add: bit_unsigned_iff flip: bit_iff_odd [of "unat m" 7, simplified])
  also have "\<dots> \<longleftrightarrow> 128 \<le> unat m"
  proof -
    have "unat m div 128 < 2" using u8_unat_less [of m] by simp
    then consider "unat m div 128 = 0" | "unat m div 128 = 1" by linarith
    then show ?thesis by cases (simp_all add: div_eq_0_iff div_nat_eqI)
  qed
  finally show ?thesis .
qed

text \<open>A byte string is a number in sign and magnitude.\<close>

lemma number_append:
  "number_of_bytes (q @ [m]) =
     (if unat m < 128 then int (bval q + 256 ^ length q * unat m) else - int (bval q + 256 ^ length q * (unat m - 128)))"
proof -
  define x where "x = int (bval q + 256 ^ length q * (unat m - 128))"
  have 8: "(2::int) ^ (8 * length q + 7) = 256 ^ length q * 128" by (simp add: power_add power_mult)

  have p: "push_bit (8 * length q) 0x80 = (2::int) ^ (8 * length q + 7)" by (simp add: push_bit_eq_mult power_add)
  have "bval q + 256 ^ length q * (unat m - 128) < 256 ^ length q * (1 + (unat m - 128))" using bval_less [of q] by simp
  also have "\<dots> \<le> 256 ^ length q * 128" using u8_unat_less [of m] by (intro mult_le_mono2) simp
  finally have x: "0 \<le> x" "x < 2 ^ (8 * length q + 7)"
    unfolding x_def 8 by (simp_all flip: of_nat_less_iff [where 'a = int])
  show ?thesis
  proof (cases "unat m < 128")
    case True
    then have "\<not> last (q @ [m]) AND 0x80 \<noteq> 0" using byte_sign [of m] by simp
    then show ?thesis using True by (simp add: number_of_bytes_def or_ints_value bval_append)
  next
    case False
    then obtain k where k: "unat m = k + 128" by (metis add.commute le_Suc_ex not_less)
    have "last (q @ [m]) AND 0x80 \<noteq> 0" using False byte_sign [of m] by simp
    moreover have "or_ints (q @ [m]) 0 = x + 2 ^ (8 * length q + 7)"
      unfolding 8 x_def or_ints_value bval_append bval.simps k by (simp add: algebra_simps)
    ultimately have "number_of_bytes (q @ [m]) = - x"
      using and_not_top_bit [OF x] by (simp add: number_of_bytes_def Let_def p)
    then show ?thesis using False by (simp add: x_def)
  qed
qed

lemma bval_nat_bytes: "bval (nat_bytes n) = n"
proof (induction n rule: nat_bytes.induct)
  case (1 n)
  then show ?case by (subst nat_bytes.simps) (simp add: unat_of_small)
qed

lemma nat_bytes_length: "n < 256 ^ k \<Longrightarrow> length (nat_bytes n) \<le> k"
proof (induction n arbitrary: k rule: nat_bytes.induct)
  case (1 n)
  then show ?case
    by (cases k) (auto simp: nat_bytes.simps [of n] nat_bytes.simps [of 0] less_mult_imp_div_less mult.commute)
qed

lemma nat_bytes_snoc:
  assumes "0 < n"
  obtains q m where "nat_bytes n = q @ [m]" "m \<noteq> 0" "n = bval q + 256 ^ length q * unat m"
proof -
  have "nat_bytes n \<noteq> [] \<and> last (nat_bytes n) \<noteq> 0" using assms
  proof (induction n rule: nat_bytes.induct)
    case (1 n)
    show ?case
    proof (cases "n div 256 = 0")
      case True
      then have "unat (word_of_nat (n mod 256) :: u8) = n" by (simp add: unat_of_small div_eq_0_iff)
      then show ?thesis using True 1(2) by (subst (1 2) nat_bytes.simps) (auto simp: nat_bytes.simps [of 0])
    next
      case False
      then show ?thesis using 1 by (subst (1 2) nat_bytes.simps) simp
    qed
  qed
  then obtain q m where "nat_bytes n = q @ [m]" "m \<noteq> 0" by (metis append_butlast_last_id)
  moreover from this(1) have "n = bval q + 256 ^ length q * unat m"
    using bval_nat_bytes [of n] by (simp add: bval_append)
  ultimately show thesis by (rule that)
qed

lemma number_zero [simp]: "number_of_bytes [] = 0"
  by (simp add: number_of_bytes_def)

lemma unat_or_sign: "\<not> 128 \<le> unat (m :: u8) \<Longrightarrow> unat (m OR 0x80) = unat m + 128"
  using unat_or_disjoint [of m 7 "0x80" 1] by simp

text \<open>The two shapes of a serialised number: the magnitude with a sign byte behind it, or with the sign in its last byte.\<close>

lemma bytes_of_number_cases:
  assumes "v \<noteq> 0"
  obtains (extra) q m where "bytes_of_number v = q @ [m, if v < 0 then 0x80 else 0]" "nat_bytes (nat \<bar>v\<bar>) = q @ [m]"
      "128 \<le> unat m" "\<bar>v\<bar> = int (bval q + 256 ^ length q * unat m)"
    | (inside) q m where "bytes_of_number v = q @ [if v < 0 then m OR 0x80 else m]" "nat_bytes (nat \<bar>v\<bar>) = q @ [m]"
      "\<not> 128 \<le> unat m" "m \<noteq> 0" "\<bar>v\<bar> = int (bval q + 256 ^ length q * unat m)"
proof -
  have "0 < nat \<bar>v\<bar>" using assms by simp
  then obtain q m where s: "nat_bytes (nat \<bar>v\<bar>) = q @ [m]" "m \<noteq> 0" and n: "nat \<bar>v\<bar> = bval q + 256 ^ length q * unat m"
    by (rule nat_bytes_snoc)
  have a: "\<bar>v\<bar> = int (bval q + 256 ^ length q * unat m)" using n by linarith
  show thesis
  proof (cases "128 \<le> unat m")
    case True
    then show thesis using extra [of q m] s a assms byte_sign [of m] by (simp add: bytes_of_number_def)
  next
    case False
    then show thesis using inside [of q m] s a assms byte_sign [of m]
      by (simp add: bytes_of_number_def list_update_append)
  qed
qed

lemma number_bytes_of: "number_of_bytes (bytes_of_number v) = v"
proof (cases "v = 0")
  case False
  then show ?thesis
  proof (cases rule: bytes_of_number_cases)
    case (extra q m)
    then show ?thesis
      using number_append [of "q @ [m]" "if v < 0 then 0x80 else 0"] by (auto simp: bval_append abs_if split: if_splits)
  next
    case (inside q m)
    show ?thesis
    proof (cases "v < 0")
      case True
      have "number_of_bytes (q @ [m OR 0x80]) = - int (bval q + 256 ^ length q * unat m)"
        using number_append [of q "m OR 0x80"] unfolding unat_or_sign [OF inside(3)] by simp
      then show ?thesis using True inside(1,5) by simp
    qed (use inside number_append [of q m] in simp)
  qed
qed (simp add: bytes_of_number_def)

definition minimal_number :: "bytes \<Rightarrow> bool" where
  "minimal_number dat \<longleftrightarrow> \<not> (length dat > 0 \<and> last dat AND 0x7f = 0 \<and> (length dat \<le> 1 \<or> dat ! (length dat - 2) AND 0x80 = 0))"

lemma and_7f: "m AND 0x7f = 0 \<longleftrightarrow> unat (m :: u8) mod 128 = 0"
proof -
  have "m AND 0x7f = 0 \<longleftrightarrow> unat (m AND mask 7) = 0" by (simp add: mask_eq_exp_minus_1 unsigned_eq_0_iff)
  then show ?thesis unfolding unat_and_mask by simp
qed

lemma bytes_of_number_minimal: "minimal_number (bytes_of_number v)"
proof (cases "v = 0")
  case False
  then show ?thesis
  proof (cases rule: bytes_of_number_cases)
    case (extra q m)
    then show ?thesis using byte_sign [of m] by (simp add: minimal_number_def nth_append)
  next
    case (inside q m)
    then have "0 < unat m" by (simp add: unat_gt_0)
    then show ?thesis using inside by (simp add: minimal_number_def and_7f unat_or_sign)
  qed
qed (simp add: bytes_of_number_def minimal_number_def)

lemma nat_bytes_bval: "dat \<noteq> [] \<Longrightarrow> last dat \<noteq> 0 \<Longrightarrow> nat_bytes (bval dat) = dat"
proof (induction dat)
  case (Cons b dat)
  have "unat b + 256 * bval dat \<noteq> 0"
  proof (cases "dat = []")
    case False
    then have "nat_bytes (bval dat) = dat" using Cons by simp
    then have "bval dat \<noteq> 0" using False nat_bytes.simps [of 0] by metis
    then show ?thesis by simp
  qed (use Cons.prems in \<open>simp add: unsigned_eq_0_iff\<close>)
  moreover have "(unat b + 256 * bval dat) mod 256 = unat b" "(unat b + 256 * bval dat) div 256 = bval dat"
    using u8_unat_less [of b] by simp_all
  moreover have "nat_bytes (bval dat) = dat" using Cons by (cases "dat = []") (simp_all add: nat_bytes.simps [of 0])
  ultimately show ?case by (subst nat_bytes.simps) simp
qed simp

lemma byte_mod_128: "n < 256 \<Longrightarrow> n mod 128 = (if n < 128 then n else n - 128)" for n :: nat
  using mod_less [of "n - 128" 128] by (simp add: le_mod_geq)

lemma bytes_of_number_of:
  assumes "minimal_number dat"
  shows "bytes_of_number (number_of_bytes dat) = dat"
proof (cases dat rule: rev_cases)
  case (snoc q m)
  show ?thesis
  proof (cases "unat m mod 128 = 0")
    case True
    with assms snoc obtain q' k where q: "q = q' @ [k]" "128 \<le> unat k"
      by (cases q rule: rev_cases) (auto simp: minimal_number_def and_7f nth_append simp flip: byte_sign)
    have "k \<noteq> 0" using q(2) by auto
    then have b: "nat_bytes (bval q) = q" and p: "0 < bval q"
      using nat_bytes_bval [of q] q by (auto simp: bval_append unat_gt_0)
    have m: "unat m = 0 \<or> unat m = 128" using True byte_mod_128 [OF u8_unat_less [of m]] by (simp split: if_splits)
    then have "m = 0 \<or> m = 0x80" by (auto simp: unsigned_eq_0_iff intro: word_unat_eq_iff [THEN iffD2])
    then show ?thesis
      using number_append [of q m] b p q byte_sign [of k] by (auto simp: snoc bytes_of_number_def)
  next
    case False
    define m' where "m' = (word_of_nat (unat m mod 128) :: u8)"
    have "unat m mod 128 < 256" using mod_less_divisor [of 128 "unat m"] by simp
    then have m': "unat m' = unat m mod 128" "m' \<noteq> 0"
      using False unat_of_small [of "unat m mod 128"] by (auto simp: m'_def)
    have "unat m' < 128" unfolding m'(1) by (rule mod_less_divisor) simp
    then have s: "m' AND 0x80 = 0" and l: "\<not> 128 \<le> unat m'" using byte_sign [of m'] by simp_all
    define a where "a = bval q + 256 ^ length q * unat m'"
    have b: "nat_bytes a = q @ [m']" using nat_bytes_bval [of "q @ [m']"] m'(2) by (simp add: a_def bval_append)
    have p: "0 < a" using m'(2) by (simp add: a_def unat_gt_0)
    show ?thesis
    proof (cases "unat m < 128")
      case True
      then have "m' = m" using m'(1) by (simp add: word_unat_eq_iff)
      moreover from this have "number_of_bytes dat = int a" using number_append [of q m] True by (simp add: snoc a_def)
      ultimately show ?thesis using b p s by (simp add: snoc bytes_of_number_def)
    next
      case False
      then have d: "unat m - 128 = unat m'" unfolding m'(1) byte_mod_128 [OF u8_unat_less] by simp
      then have "number_of_bytes dat = - int a"
        using number_append [of q m] False unfolding d by (simp add: snoc a_def)
      moreover have "m' OR 0x80 = m" using d False unat_or_sign [OF l] by (simp add: word_unat_eq_iff)
      ultimately show ?thesis using b p s by (simp add: snoc bytes_of_number_def list_update_append)
    qed
  qed
qed (simp add: bytes_of_number_def)

lemma bytes_of_number_length: "length (bytes_of_number v) \<le> Suc k \<longleftrightarrow> \<bar>v\<bar> < 2 ^ (8 * k + 7)"
proof (cases "v = 0")
  case False
  have 8: "(2::nat) ^ (8 * j + 7) = 256 ^ j * 128" for j by (simp add: power_add power_mult)
  have e: "\<bar>v\<bar> < 2 ^ (8 * k + 7) \<longleftrightarrow> nat \<bar>v\<bar> < 256 ^ k * 128"
    unfolding 8 [symmetric] by (simp add: nat_less_iff)
  have m: "(256::nat) ^ i \<le> 256 ^ j" if "i \<le> j" for i j using that by (rule power_increasing) simp
  from False show ?thesis
  proof (cases rule: bytes_of_number_cases)
    case (extra q m)
    have v: "nat \<bar>v\<bar> = bval q + 256 ^ length q * unat m" using extra(4) by linarith
    show ?thesis
    proof (cases "length q < k")
      case True
      have "nat \<bar>v\<bar> < 256 ^ Suc (length q)" using bval_less [of "q @ [m]"] by (simp add: v bval_append)
      also have "\<dots> \<le> 256 ^ k" using True by (intro m) simp
      finally have "nat \<bar>v\<bar> < 256 ^ k * 128" by linarith
      then show ?thesis unfolding e using True extra(1) by simp
    next
      case False
      have "256 ^ k * 128 \<le> 256 ^ length q * unat m" using m [of k "length q"] False extra(3) by (intro mult_le_mono) simp_all
      then show ?thesis unfolding e using False extra(1) v by simp
    qed
  next
    case (inside q m)
    have v: "nat \<bar>v\<bar> = bval q + 256 ^ length q * unat m" using inside(5) by linarith
    show ?thesis
    proof (cases "length q \<le> k")
      case True
      have "nat \<bar>v\<bar> < 256 ^ length q * (1 + unat m)" using bval_less [of q] by (simp add: v)
      also have "\<dots> \<le> 256 ^ k * 128" using inside(3) True by (intro mult_le_mono m) simp_all
      finally show ?thesis unfolding e using True inside(1) by simp
    next
      case False
      have "256 ^ Suc k * 1 \<le> 256 ^ length q * unat m" using m [of "Suc k" "length q"] False inside(4)
        by (intro mult_le_mono) (simp_all add: Suc_le_eq unat_gt_0)
      then show ?thesis unfolding e using False inside(1) v by simp
    qed
  qed
qed (simp add: bytes_of_number_def)

lemma number_bound: "length dat \<le> Suc k \<Longrightarrow> \<bar>number_of_bytes dat\<bar> < 2 ^ (8 * k + 7)"
proof (cases dat rule: rev_cases)
  case (snoc q m)
  assume "length dat \<le> Suc k"
  then have "(256::nat) ^ length q \<le> 256 ^ k" using snoc by (intro power_increasing) simp_all
  define a where "a = bval q + 256 ^ length q * (if unat m < 128 then unat m else unat m - 128)"
  have "a < 256 ^ length q * (1 + (if unat m < 128 then unat m else unat m - 128))" using bval_less [of q] by (simp add: a_def)
  also have "\<dots> \<le> 256 ^ k * 128"
    using \<open>256 ^ length q \<le> 256 ^ k\<close> u8_unat_less [of m] by (intro mult_le_mono) auto
  finally have "int a < int (256 ^ k * 128)" by (simp only: of_nat_less_iff)
  also have "\<dots> = 2 ^ (8 * k + 7)" by (simp add: power_add power_mult)
  finally have "int a < 2 ^ (8 * k + 7)" .
  moreover have "\<bar>number_of_bytes dat\<bar> = int a" unfolding snoc number_append a_def by (simp only: if_distrib [of abs] abs_minus abs_of_nat) simp
  ultimately show ?thesis by simp
qed simp

text \<open>Within 64 bits the code computes the same.\<close>

lemma uint_or_bytes: "i + length dat \<le> 8 \<Longrightarrow> uint (or_bytes dat i) = or_ints dat i"
proof (induction dat arbitrary: i)
  case (Cons b dat)
  have "push_bit (8 * i) (uint b) < 2 ^ (8 * i) * 2 ^ 8" unfolding push_bit_eq_mult using u8_uint_less [of b] by simp
  also have "\<dots> = 2 ^ (8 * i + 8)" by (simp add: power_add)
  also have "\<dots> \<le> 2 ^ 64" using Cons.prems by (intro power_increasing) simp_all
  finally have lt: "push_bit (8 * i) (uint b) < 2 ^ 64" .
  have "uint (ucast b :: u64) = uint b" using u8_uint_less [of b] by (simp add: unsigned_ucast_eq take_bit_int_eq_self)
  then have "uint (push_bit (8 * i) (ucast b :: u64)) = push_bit (8 * i) (uint b)"
    unfolding unsigned_push_bit_eq using lt by (simp only: take_bit_int_eq_self_iff push_bit_nonnegative_int_iff unsigned_greater_eq) simp
  then show ?case using Cons by (simp add: unsigned_or_eq)
qed simp

lemma sint_small: "uint (w :: u64) < 2 ^ 63 \<Longrightarrow> sint w = uint w"
proof -
  have "- (2 ^ 63) \<le> uint w" by (rule order_trans [OF _ unsigned_greater_eq]) simp
  moreover assume "uint w < 2 ^ 63"
  ultimately have "signed_take_bit 63 (uint w) = uint w" by (rule signed_take_bit_int_eq_self)
  then show ?thesis by (simp add: sint_uint)
qed

lemma uint_and_not: "uint (w AND NOT p) = uint (w :: u64) AND NOT (uint p)"
  by (rule bit_eqI) (auto simp: bit_simps dest: bit_imp_le_length)

lemma set_vch_eq:
  assumes "length dat \<le> 8"
  shows "set_vch dat = number_of_bytes dat"
proof (cases "dat = []")
  case False
  let ?w = "or_bytes dat 0" and ?p = "push_bit (8 * (length dat - 1)) (0x80 :: u64)"
  have w: "uint ?w = or_ints dat 0" using uint_or_bytes [of 0 dat] assms by simp
  have "(2::int) ^ (8 * (length dat - 1) + 7) < 2 ^ 64" using assms False by (intro power_strict_increasing) auto
  then have "uint ?p = push_bit (8 * (length dat - 1)) 0x80"
    unfolding unsigned_push_bit_eq by (simp add: take_bit_int_eq_self push_bit_eq_mult power_add)
  moreover have "uint (?w AND NOT ?p) = uint ?w AND NOT (uint ?p)" by (rule uint_and_not)
  ultimately have p: "uint (?w AND NOT ?p) = or_ints dat 0 AND NOT (push_bit (8 * (length dat - 1)) 0x80)" using w by simp
  have b: "\<bar>number_of_bytes dat\<bar> < 2 ^ 63" using number_bound [of dat 7] assms by simp
  show ?thesis
  proof (cases "last dat AND 0x80 = 0")
    case True
    then show ?thesis using False b w sint_small [of ?w] by (simp add: set_vch_def number_of_bytes_def)
  next
    case neg: False
    then have "number_of_bytes dat = - uint (?w AND NOT ?p)" using False p by (simp add: number_of_bytes_def Let_def)
    moreover from this have "uint (?w AND NOT ?p) < 2 ^ 63" using b by simp
    ultimately show ?thesis using False neg sint_small [of "?w AND NOT ?p"] by (simp add: set_vch_def Let_def)
  qed
qed (simp add: set_vch_def)

lemma abs_bytes_eq: "abs_bytes w = nat_bytes (unat w)"
proof (induction w rule: abs_bytes.induct)
  case (1 w)
  show ?case
  proof (cases "w = 0")
    case False
    have "ucast (w AND 0xff) = (word_of_nat (unat w mod 256) :: u8)"
    proof -
      have "w AND 0xff = take_bit 8 w" by (simp add: take_bit_eq_mask mask_eq_exp_minus_1)
      moreover have "unat w mod 256 = take_bit 8 (unat w)" by (simp add: take_bit_eq_mod)
      ultimately show ?thesis by (simp only:) (rule bit_eqI, auto simp: bit_simps)
    qed
    moreover have "unat (drop_bit 8 w) = unat w div 256" by (simp add: drop_bit_eq_div unat_div_distrib)
    ultimately show ?thesis using 1 False by (subst abs_bytes.simps, subst nat_bytes.simps) (simp add: unat_eq_0)
  qed (simp add: abs_bytes.simps [of 0] nat_bytes.simps [of 0])
qed

lemma serialize_eq:
  assumes "\<bar>v\<bar> < 2 ^ 63"
  shows "scriptnum_serialize v = bytes_of_number v"
proof -
  have "wrap64 v = v" using assms by (intro wrap64_id) auto
  moreover have "unat (word_of_int \<bar>v\<bar> :: u64) = nat \<bar>v\<bar>" using assms by (simp add: unsigned_of_int take_bit_int_eq_self)
  ultimately show ?thesis by (simp add: scriptnum_serialize_def bytes_of_number_def abs_bytes_eq Let_def)
qed

lemma serialize_length: "\<bar>v\<bar> < 2 ^ 63 \<Longrightarrow> length (scriptnum_serialize v) \<le> Suc k \<longleftrightarrow> \<bar>v\<bar> < 2 ^ (8 * k + 7)"
  by (simp only: serialize_eq bytes_of_number_length)

lemma serialize_minimal: "\<bar>v\<bar> < 2 ^ 63 \<Longrightarrow> minimal_number (scriptnum_serialize v)"
  by (simp only: serialize_eq bytes_of_number_minimal)

lemma set_vch_serialize: "\<bar>v\<bar> < 2 ^ 63 \<Longrightarrow> set_vch (scriptnum_serialize v) = v"
  using serialize_length [of v 7] by (simp add: serialize_eq set_vch_eq number_bytes_of)

lemma set_vch_bound: "length dat \<le> Suc k \<Longrightarrow> k \<le> 7 \<Longrightarrow> \<bar>set_vch dat\<bar> < 2 ^ (8 * k + 7)"
  using number_bound [of dat k] set_vch_eq [of dat] by simp

lemma serialize_set_vch: "length dat \<le> 8 \<Longrightarrow> minimal_number dat \<Longrightarrow> scriptnum_serialize (set_vch dat) = dat"
  using set_vch_bound [of dat 7] by (simp add: serialize_eq set_vch_eq bytes_of_number_of)

text \<open>C13: Under the minimal-encoding rule a byte string is accepted as a number of at most \<open>k + 1\<close> bytes, which are at most the eight of a
  64-bit integer, exactly if it is the serialisation of that number and the magnitude of the number fits in \<open>8 k + 7\<close> bits, so
  that every such number has one encoding.\<close>

theorem scriptnum_codec:
  assumes "k \<le> 7"
  shows "CScriptNum dat True (Suc k) = Some v \<longleftrightarrow> dat = scriptnum_serialize v \<and> \<bar>v\<bar> < 2 ^ (8 * k + 7)"
proof -
  have "(2::int) ^ (8 * k + 7) \<le> 2 ^ 63" using assms by (intro power_increasing) simp_all
  then have v: "\<bar>v\<bar> < 2 ^ 63" if "\<bar>v\<bar> < 2 ^ (8 * k + 7)" using that by simp
  have "CScriptNum dat True (Suc k) = Some v \<longleftrightarrow> length dat \<le> Suc k \<and> minimal_number dat \<and> set_vch dat = v"
    by (auto simp: CScriptNum_def minimal_number_def)
  also have "\<dots> \<longleftrightarrow> dat = scriptnum_serialize v \<and> \<bar>v\<bar> < 2 ^ (8 * k + 7)"
  proof
    assume *: "length dat \<le> Suc k \<and> minimal_number dat \<and> set_vch dat = v"
    then show "dat = scriptnum_serialize v \<and> \<bar>v\<bar> < 2 ^ (8 * k + 7)" using serialize_set_vch [of dat] set_vch_bound [of dat k] assms by simp
  next
    assume *: "dat = scriptnum_serialize v \<and> \<bar>v\<bar> < 2 ^ (8 * k + 7)"
    then show "length dat \<le> Suc k \<and> minimal_number dat \<and> set_vch dat = v"
      using v serialize_length [of v k] serialize_minimal [of v] set_vch_serialize [of v] by simp
  qed
  finally show ?thesis .
qed

theorem scriptnum_codec_witness:
  "CScriptNum [0, 0x80, 0, 0x81] True (Suc 7) = Some (- 16809984) \<and> [0, 0x80, 0, 0x81] = scriptnum_serialize (- 16809984)"
proof -
  have "CScriptNum [0, 0x80, 0, 0x81] True (Suc 7) = Some (- 16809984)" by code_simp
  with scriptnum_codec [of 7 "[0, 0x80, 0, 0x81]" "- 16809984"] show ?thesis by simp
qed

end
