(* ===== verification/Interpreter.thy ===== *)
theory Interpreter
  imports Script "HOL-Library.Sublist"
begin

text \<open>
  \<^verbatim>\<open>src/script/interpreter.h\<close> and \<^verbatim>\<open>src/script/interpreter.cpp\<close>: the stack machine that decides whether an
  output may be spent. Stacks are lists with the top first. An operation returns the error it sets or the new state; the errors of
  \<^verbatim>\<open>src/script/script_error.h\<close> are a datatype. Checking signatures and lock times is an argument, as in the code, where it is the
  virtual class \<open>BaseSignatureChecker\<close>; so is the test of the elliptic-curve library whether a signature has a low S.
\<close>

section \<open>Errors and flags\<close>

datatype ScriptError =
  SCRIPT_ERR_OK | SCRIPT_ERR_UNKNOWN_ERROR | SCRIPT_ERR_EVAL_FALSE | SCRIPT_ERR_OP_RETURN
| SCRIPT_ERR_SCRIPT_SIZE | SCRIPT_ERR_PUSH_SIZE | SCRIPT_ERR_OP_COUNT | SCRIPT_ERR_STACK_SIZE | SCRIPT_ERR_SIG_COUNT
| SCRIPT_ERR_PUBKEY_COUNT | SCRIPT_ERR_VERIFY | SCRIPT_ERR_EQUALVERIFY | SCRIPT_ERR_CHECKMULTISIGVERIFY
| SCRIPT_ERR_CHECKSIGVERIFY | SCRIPT_ERR_NUMEQUALVERIFY | SCRIPT_ERR_BAD_OPCODE | SCRIPT_ERR_DISABLED_OPCODE
| SCRIPT_ERR_INVALID_STACK_OPERATION | SCRIPT_ERR_INVALID_ALTSTACK_OPERATION | SCRIPT_ERR_UNBALANCED_CONDITIONAL
| SCRIPT_ERR_NEGATIVE_LOCKTIME | SCRIPT_ERR_UNSATISFIED_LOCKTIME | SCRIPT_ERR_SIG_HASHTYPE | SCRIPT_ERR_SIG_DER
| SCRIPT_ERR_MINIMALDATA | SCRIPT_ERR_SIG_PUSHONLY | SCRIPT_ERR_SIG_HIGH_S | SCRIPT_ERR_SIG_NULLDUMMY | SCRIPT_ERR_PUBKEYTYPE
| SCRIPT_ERR_CLEANSTACK | SCRIPT_ERR_MINIMALIF | SCRIPT_ERR_SIG_NULLFAIL | SCRIPT_ERR_DISCOURAGE_UPGRADABLE_NOPS
| SCRIPT_ERR_DISCOURAGE_UPGRADABLE_WITNESS_PROGRAM | SCRIPT_ERR_WITNESS_PROGRAM_WRONG_LENGTH
| SCRIPT_ERR_WITNESS_PROGRAM_WITNESS_EMPTY | SCRIPT_ERR_WITNESS_PROGRAM_MISMATCH | SCRIPT_ERR_WITNESS_MALLEATED
| SCRIPT_ERR_WITNESS_MALLEATED_P2SH | SCRIPT_ERR_WITNESS_UNEXPECTED | SCRIPT_ERR_WITNESS_PUBKEYTYPE

text \<open>The verification flags are bits of a word.\<close>

abbreviation SCRIPT_VERIFY_P2SH :: "u32 \<Rightarrow> bool" where "SCRIPT_VERIFY_P2SH flags \<equiv> bit flags 0"
abbreviation SCRIPT_VERIFY_STRICTENC :: "u32 \<Rightarrow> bool" where "SCRIPT_VERIFY_STRICTENC flags \<equiv> bit flags 1"
abbreviation SCRIPT_VERIFY_DERSIG :: "u32 \<Rightarrow> bool" where "SCRIPT_VERIFY_DERSIG flags \<equiv> bit flags 2"
abbreviation SCRIPT_VERIFY_LOW_S :: "u32 \<Rightarrow> bool" where "SCRIPT_VERIFY_LOW_S flags \<equiv> bit flags 3"
abbreviation SCRIPT_VERIFY_NULLDUMMY :: "u32 \<Rightarrow> bool" where "SCRIPT_VERIFY_NULLDUMMY flags \<equiv> bit flags 4"
abbreviation SCRIPT_VERIFY_SIGPUSHONLY :: "u32 \<Rightarrow> bool" where "SCRIPT_VERIFY_SIGPUSHONLY flags \<equiv> bit flags 5"
abbreviation SCRIPT_VERIFY_MINIMALDATA :: "u32 \<Rightarrow> bool" where "SCRIPT_VERIFY_MINIMALDATA flags \<equiv> bit flags 6"
abbreviation SCRIPT_VERIFY_DISCOURAGE_UPGRADABLE_NOPS :: "u32 \<Rightarrow> bool" where
  "SCRIPT_VERIFY_DISCOURAGE_UPGRADABLE_NOPS flags \<equiv> bit flags 7"
abbreviation SCRIPT_VERIFY_CLEANSTACK :: "u32 \<Rightarrow> bool" where "SCRIPT_VERIFY_CLEANSTACK flags \<equiv> bit flags 8"
abbreviation SCRIPT_VERIFY_CHECKLOCKTIMEVERIFY :: "u32 \<Rightarrow> bool" where "SCRIPT_VERIFY_CHECKLOCKTIMEVERIFY flags \<equiv> bit flags 9"
abbreviation SCRIPT_VERIFY_CHECKSEQUENCEVERIFY :: "u32 \<Rightarrow> bool" where "SCRIPT_VERIFY_CHECKSEQUENCEVERIFY flags \<equiv> bit flags 10"
abbreviation SCRIPT_VERIFY_WITNESS :: "u32 \<Rightarrow> bool" where "SCRIPT_VERIFY_WITNESS flags \<equiv> bit flags 11"
abbreviation SCRIPT_VERIFY_DISCOURAGE_UPGRADABLE_WITNESS_PROGRAM :: "u32 \<Rightarrow> bool" where
  "SCRIPT_VERIFY_DISCOURAGE_UPGRADABLE_WITNESS_PROGRAM flags \<equiv> bit flags 12"
abbreviation SCRIPT_VERIFY_MINIMALIF :: "u32 \<Rightarrow> bool" where "SCRIPT_VERIFY_MINIMALIF flags \<equiv> bit flags 13"
abbreviation SCRIPT_VERIFY_NULLFAIL :: "u32 \<Rightarrow> bool" where "SCRIPT_VERIFY_NULLFAIL flags \<equiv> bit flags 14"
abbreviation SCRIPT_VERIFY_WITNESS_PUBKEYTYPE :: "u32 \<Rightarrow> bool" where "SCRIPT_VERIFY_WITNESS_PUBKEYTYPE flags \<equiv> bit flags 15"

datatype SigVersion = SIGVERSION_BASE | SIGVERSION_WITNESS_V0

record BaseSignatureChecker =
  CheckSig :: "bytes \<Rightarrow> bytes \<Rightarrow> bytes \<Rightarrow> SigVersion \<Rightarrow> bool"
  CheckLockTime :: "int \<Rightarrow> bool"
  CheckSequence :: "int \<Rightarrow> bool"
  CheckLowS :: "bytes \<Rightarrow> bool"

text \<open>The class itself accepts nothing.\<close>

definition base_checker :: "(bytes \<Rightarrow> bool) \<Rightarrow> BaseSignatureChecker" where
  "base_checker lowS =
     \<lparr>CheckSig = (\<lambda>sig key scriptCode sigversion. False), CheckLockTime = (\<lambda>n. False), CheckSequence = (\<lambda>n. False), CheckLowS = lowS\<rparr>"

section \<open>Encodings\<close>

fun CastToBool :: "bytes \<Rightarrow> bool" where
  "CastToBool [] = False"
| "CastToBool (b # dat) = (if b \<noteq> 0 then \<not> (dat = [] \<and> b = 0x80) else CastToBool dat)"

definition IsCompressedOrUncompressedPubKey :: "bytes \<Rightarrow> bool" where
  "IsCompressedOrUncompressedPubKey key =
     (if length key < 33 then False
      else if key ! 0 = 4 then length key = 65
      else if key ! 0 = 2 \<or> key ! 0 = 3 then length key = 33
      else False)"

definition IsCompressedPubKey :: "bytes \<Rightarrow> bool" where
  "IsCompressedPubKey key \<longleftrightarrow> length key = 33 \<and> (key ! 0 = 2 \<or> key ! 0 = 3)"

definition IsValidSignatureEncoding :: "bytes \<Rightarrow> bool" where
  "IsValidSignatureEncoding sig =
     (if length sig < 9 then False
      else if length sig > 73 then False
      else if sig ! 0 \<noteq> 0x30 then False
      else if unat (sig ! 1) \<noteq> length sig - 3 then False
      else let lenR = unat (sig ! 3) in
        if 5 + lenR \<ge> length sig then False
        else let lenS = unat (sig ! (5 + lenR)) in
          if lenR + lenS + 7 \<noteq> length sig then False
          else if sig ! 2 \<noteq> 2 then False
          else if lenR = 0 then False
          else if sig ! 4 AND 0x80 \<noteq> 0 then False
          else if lenR > 1 \<and> sig ! 4 = 0 \<and> \<not> sig ! 5 AND 0x80 \<noteq> 0 then False
          else if sig ! (lenR + 4) \<noteq> 2 then False
          else if lenS = 0 then False
          else if sig ! (lenR + 6) AND 0x80 \<noteq> 0 then False
          else if lenS > 1 \<and> sig ! (lenR + 6) = 0 \<and> \<not> sig ! (lenR + 7) AND 0x80 \<noteq> 0 then False
          else True)"

text \<open>The checks return the error they set, or None.\<close>

definition IsLowDERSignature :: "BaseSignatureChecker \<Rightarrow> bytes \<Rightarrow> ScriptError option" where
  "IsLowDERSignature checker sig =
     (if \<not> IsValidSignatureEncoding sig then Some SCRIPT_ERR_SIG_DER
      else if \<not> CheckLowS checker (butlast sig) then Some SCRIPT_ERR_SIG_HIGH_S
      else None)"

definition IsDefinedHashtypeSignature :: "bytes \<Rightarrow> bool" where
  "IsDefinedHashtypeSignature sig =
     (if length sig = 0 then False
      else let nHashType = last sig AND NOT 0x80 in \<not> (nHashType < 1 \<or> nHashType > 3))"

definition CheckSignatureEncoding :: "BaseSignatureChecker \<Rightarrow> bytes \<Rightarrow> u32 \<Rightarrow> ScriptError option" where
  "CheckSignatureEncoding checker sig flags =
     (if length sig = 0 then None
      else if (SCRIPT_VERIFY_DERSIG flags \<or> SCRIPT_VERIFY_LOW_S flags \<or> SCRIPT_VERIFY_STRICTENC flags) \<and> \<not> IsValidSignatureEncoding sig
      then Some SCRIPT_ERR_SIG_DER
      else if SCRIPT_VERIFY_LOW_S flags \<and> IsLowDERSignature checker sig \<noteq> None then IsLowDERSignature checker sig
      else if SCRIPT_VERIFY_STRICTENC flags \<and> \<not> IsDefinedHashtypeSignature sig then Some SCRIPT_ERR_SIG_HASHTYPE
      else None)"

definition CheckPubKeyEncoding :: "bytes \<Rightarrow> u32 \<Rightarrow> SigVersion \<Rightarrow> ScriptError option" where
  "CheckPubKeyEncoding key flags sigversion =
     (if SCRIPT_VERIFY_STRICTENC flags \<and> \<not> IsCompressedOrUncompressedPubKey key then Some SCRIPT_ERR_PUBKEYTYPE
      else if SCRIPT_VERIFY_WITNESS_PUBKEYTYPE flags \<and> sigversion = SIGVERSION_WITNESS_V0 \<and> \<not> IsCompressedPubKey key
      then Some SCRIPT_ERR_WITNESS_PUBKEYTYPE
      else None)"

definition CheckMinimalPush :: "bytes \<Rightarrow> nat \<Rightarrow> bool" where
  "CheckMinimalPush dat opcode =
     (if length dat = 0 then opcode = OP_0
      else if length dat = 1 \<and> dat ! 0 \<ge> 1 \<and> dat ! 0 \<le> 16 then opcode = OP_1 + (unat (dat ! 0) - 1)
      else if length dat = 1 \<and> dat ! 0 = 0x81 then opcode = OP_1NEGATE
      else if length dat \<le> 75 then opcode = length dat
      else if length dat \<le> 255 then opcode = OP_PUSHDATA1
      else if length dat \<le> 65535 then opcode = OP_PUSHDATA2
      else True)"

section \<open>Operations\<close>

text \<open>Operations on the stacks; an operand that is no number raises an exception, which becomes \<open>SCRIPT_ERR_UNKNOWN_ERROR\<close>.\<close>

type_synonym stack = "bytes list"

abbreviation (input) vchFalse :: bytes where
  "vchFalse \<equiv> []"

abbreviation (input) vchTrue :: bytes where
  "vchTrue \<equiv> [1]"

definition num_operand :: "bool \<Rightarrow> nat \<Rightarrow> bytes \<Rightarrow> (int \<Rightarrow> ScriptError + 'a) \<Rightarrow> ScriptError + 'a" where
  "num_operand fRequireMinimal nMaxNumSize dat f =
     (case CScriptNum dat fRequireMinimal nMaxNumSize of None \<Rightarrow> Inl SCRIPT_ERR_UNKNOWN_ERROR | Some n \<Rightarrow> f n)"

definition op_checklocktime :: "u32 \<Rightarrow> BaseSignatureChecker \<Rightarrow> stack \<Rightarrow> ScriptError + stack" where
  "op_checklocktime flags checker st =
     (if \<not> SCRIPT_VERIFY_CHECKLOCKTIMEVERIFY flags
      then if SCRIPT_VERIFY_DISCOURAGE_UPGRADABLE_NOPS flags then Inl SCRIPT_ERR_DISCOURAGE_UPGRADABLE_NOPS else Inr st
      else case st of
        [] \<Rightarrow> Inl SCRIPT_ERR_INVALID_STACK_OPERATION
      | x # _ \<Rightarrow> num_operand (SCRIPT_VERIFY_MINIMALDATA flags) 5 x (\<lambda>n.
          if n < 0 then Inl SCRIPT_ERR_NEGATIVE_LOCKTIME
          else if \<not> CheckLockTime checker n then Inl SCRIPT_ERR_UNSATISFIED_LOCKTIME
          else Inr st))"

definition op_checksequence :: "u32 \<Rightarrow> BaseSignatureChecker \<Rightarrow> stack \<Rightarrow> ScriptError + stack" where
  "op_checksequence flags checker st =
     (if \<not> SCRIPT_VERIFY_CHECKSEQUENCEVERIFY flags
      then if SCRIPT_VERIFY_DISCOURAGE_UPGRADABLE_NOPS flags then Inl SCRIPT_ERR_DISCOURAGE_UPGRADABLE_NOPS else Inr st
      else case st of
        [] \<Rightarrow> Inl SCRIPT_ERR_INVALID_STACK_OPERATION
      | x # _ \<Rightarrow> num_operand (SCRIPT_VERIFY_MINIMALDATA flags) 5 x (\<lambda>n.
          if n < 0 then Inl SCRIPT_ERR_NEGATIVE_LOCKTIME
          else if n AND 2 ^ 31 \<noteq> 0 then Inr st
          else if \<not> CheckSequence checker n then Inl SCRIPT_ERR_UNSATISFIED_LOCKTIME
          else Inr st))"

definition op_if :: "nat \<Rightarrow> u32 \<Rightarrow> SigVersion \<Rightarrow> stack \<Rightarrow> ScriptError + (bool \<times> stack)" where
  "op_if opcode flags sigversion st =
     (case st of
        [] \<Rightarrow> Inl SCRIPT_ERR_UNBALANCED_CONDITIONAL
      | dat # st \<Rightarrow>
          if sigversion = SIGVERSION_WITNESS_V0 \<and> SCRIPT_VERIFY_MINIMALIF flags \<and>
             (length dat > 1 \<or> (length dat = 1 \<and> dat ! 0 \<noteq> 1)) then Inl SCRIPT_ERR_MINIMALIF
          else Inr (if opcode = OP_NOTIF then \<not> CastToBool dat else CastToBool dat, st))"

definition op_pick_roll :: "nat \<Rightarrow> bool \<Rightarrow> stack \<Rightarrow> ScriptError + stack" where
  "op_pick_roll opcode fRequireMinimal st =
     (case st of
        x # st \<Rightarrow>
          if st = [] then Inl SCRIPT_ERR_INVALID_STACK_OPERATION
          else num_operand fRequireMinimal 4 x (\<lambda>bn.
            let n = getint bn
            in if n < 0 \<or> n \<ge> int (length st) then Inl SCRIPT_ERR_INVALID_STACK_OPERATION
               else let dat = st ! nat n
                    in Inr (dat # (if opcode = OP_ROLL then take (nat n) st @ drop (nat n + 1) st else st)))
      | [] \<Rightarrow> Inl SCRIPT_ERR_INVALID_STACK_OPERATION)"

text \<open>The rearrangements of the stack and the alternative stack.\<close>

definition stack_op :: "nat \<Rightarrow> bool \<Rightarrow> stack \<Rightarrow> stack \<Rightarrow> ScriptError + (stack \<times> stack)" where
  "stack_op opcode fRequireMinimal st alt =
     (let invalid = Inl SCRIPT_ERR_INVALID_STACK_OPERATION
      in if opcode = OP_TOALTSTACK then (case st of x # st \<Rightarrow> Inr (st, x # alt) | _ \<Rightarrow> invalid)
      else if opcode = OP_FROMALTSTACK
      then (case alt of x # alt \<Rightarrow> Inr (x # st, alt) | _ \<Rightarrow> Inl SCRIPT_ERR_INVALID_ALTSTACK_OPERATION)
      else if opcode = OP_2DROP then (case st of x2 # x1 # st \<Rightarrow> Inr (st, alt) | _ \<Rightarrow> invalid)
      else if opcode = OP_2DUP then (case st of x2 # x1 # st \<Rightarrow> Inr (x2 # x1 # x2 # x1 # st, alt) | _ \<Rightarrow> invalid)
      else if opcode = OP_3DUP
      then (case st of x3 # x2 # x1 # st \<Rightarrow> Inr (x3 # x2 # x1 # x3 # x2 # x1 # st, alt) | _ \<Rightarrow> invalid)
      else if opcode = OP_2OVER
      then (case st of x4 # x3 # x2 # x1 # st \<Rightarrow> Inr (x2 # x1 # x4 # x3 # x2 # x1 # st, alt) | _ \<Rightarrow> invalid)
      else if opcode = OP_2ROT
      then (case st of x6 # x5 # x4 # x3 # x2 # x1 # st \<Rightarrow> Inr (x2 # x1 # x6 # x5 # x4 # x3 # st, alt) | _ \<Rightarrow> invalid)
      else if opcode = OP_2SWAP
      then (case st of x4 # x3 # x2 # x1 # st \<Rightarrow> Inr (x2 # x1 # x4 # x3 # st, alt) | _ \<Rightarrow> invalid)
      else if opcode = OP_IFDUP
      then (case st of x # st \<Rightarrow> Inr (if CastToBool x then x # x # st else x # st, alt) | _ \<Rightarrow> invalid)
      else if opcode = OP_DEPTH then Inr (scriptnum_serialize (int (length st)) # st, alt)
      else if opcode = OP_DROP then (case st of x # st \<Rightarrow> Inr (st, alt) | _ \<Rightarrow> invalid)
      else if opcode = OP_DUP then (case st of x # st \<Rightarrow> Inr (x # x # st, alt) | _ \<Rightarrow> invalid)
      else if opcode = OP_NIP then (case st of x2 # x1 # st \<Rightarrow> Inr (x2 # st, alt) | _ \<Rightarrow> invalid)
      else if opcode = OP_OVER then (case st of x2 # x1 # st \<Rightarrow> Inr (x1 # x2 # x1 # st, alt) | _ \<Rightarrow> invalid)
      else if opcode = OP_PICK \<or> opcode = OP_ROLL then map_sum id (\<lambda>st. (st, alt)) (op_pick_roll opcode fRequireMinimal st)
      else if opcode = OP_ROT then (case st of x3 # x2 # x1 # st \<Rightarrow> Inr (x1 # x3 # x2 # st, alt) | _ \<Rightarrow> invalid)
      else if opcode = OP_SWAP then (case st of x2 # x1 # st \<Rightarrow> Inr (x1 # x2 # st, alt) | _ \<Rightarrow> invalid)
      else if opcode = OP_TUCK then (case st of x2 # x1 # st \<Rightarrow> Inr (x2 # x1 # x2 # st, alt) | _ \<Rightarrow> invalid)
      else (case st of x # st \<Rightarrow> Inr (scriptnum_serialize (int (length x)) # x # st, alt) | _ \<Rightarrow> invalid))"

definition op_equal :: "nat \<Rightarrow> stack \<Rightarrow> ScriptError + stack" where
  "op_equal opcode st =
     (case st of
        x2 # x1 # st \<Rightarrow>
          let fEqual = (x1 = x2)
          in if opcode = OP_EQUALVERIFY then if fEqual then Inr st else Inl SCRIPT_ERR_EQUALVERIFY
             else Inr ((if fEqual then vchTrue else vchFalse) # st)
      | _ \<Rightarrow> Inl SCRIPT_ERR_INVALID_STACK_OPERATION)"

text \<open>The numeric operations; the last alternative of each list is the default, so that no assertion on the opcode can fail.\<close>

definition unary_opcode :: "nat \<Rightarrow> bool" where
  "unary_opcode opcode \<longleftrightarrow> opcode \<in> set [OP_1ADD, OP_1SUB, OP_NEGATE, OP_ABS, OP_NOT, OP_0NOTEQUAL]"

definition unary_result :: "nat \<Rightarrow> int \<Rightarrow> int" where
  "unary_result opcode bn =
     (if opcode = OP_1ADD then bn + 1
      else if opcode = OP_1SUB then bn - 1
      else if opcode = OP_NEGATE then - bn
      else if opcode = OP_ABS then if bn < 0 then - bn else bn
      else if opcode = OP_NOT then of_bool (bn = 0)
      else of_bool (bn \<noteq> 0))"

definition op_unary :: "nat \<Rightarrow> bool \<Rightarrow> stack \<Rightarrow> ScriptError + stack" where
  "op_unary opcode fRequireMinimal st =
     (case st of
        [] \<Rightarrow> Inl SCRIPT_ERR_INVALID_STACK_OPERATION
      | x # st \<Rightarrow> num_operand fRequireMinimal 4 x (\<lambda>bn. Inr (scriptnum_serialize (unary_result opcode bn) # st)))"

definition binary_opcode :: "nat \<Rightarrow> bool" where
  "binary_opcode opcode \<longleftrightarrow>
     opcode \<in> set [OP_ADD, OP_SUB, OP_BOOLAND, OP_BOOLOR, OP_NUMEQUAL, OP_NUMEQUALVERIFY, OP_NUMNOTEQUAL, OP_LESSTHAN,
       OP_GREATERTHAN, OP_LESSTHANOREQUAL, OP_GREATERTHANOREQUAL, OP_MIN, OP_MAX]"

definition binary_result :: "nat \<Rightarrow> int \<Rightarrow> int \<Rightarrow> int" where
  "binary_result opcode bn1 bn2 =
     (if opcode = OP_ADD then bn1 + bn2
      else if opcode = OP_SUB then bn1 - bn2
      else if opcode = OP_BOOLAND then of_bool (bn1 \<noteq> 0 \<and> bn2 \<noteq> 0)
      else if opcode = OP_BOOLOR then of_bool (bn1 \<noteq> 0 \<or> bn2 \<noteq> 0)
      else if opcode = OP_NUMEQUAL then of_bool (bn1 = bn2)
      else if opcode = OP_NUMEQUALVERIFY then of_bool (bn1 = bn2)
      else if opcode = OP_NUMNOTEQUAL then of_bool (bn1 \<noteq> bn2)
      else if opcode = OP_LESSTHAN then of_bool (bn1 < bn2)
      else if opcode = OP_GREATERTHAN then of_bool (bn1 > bn2)
      else if opcode = OP_LESSTHANOREQUAL then of_bool (bn1 \<le> bn2)
      else if opcode = OP_GREATERTHANOREQUAL then of_bool (bn1 \<ge> bn2)
      else if opcode = OP_MIN then if bn1 < bn2 then bn1 else bn2
      else if bn1 > bn2 then bn1 else bn2)"

definition op_binary :: "nat \<Rightarrow> bool \<Rightarrow> stack \<Rightarrow> ScriptError + stack" where
  "op_binary opcode fRequireMinimal st =
     (case st of
        x2 # x1 # st \<Rightarrow>
          num_operand fRequireMinimal 4 x1 (\<lambda>bn1. num_operand fRequireMinimal 4 x2 (\<lambda>bn2.
            let r = scriptnum_serialize (binary_result opcode bn1 bn2)
            in if opcode = OP_NUMEQUALVERIFY then if CastToBool r then Inr st else Inl SCRIPT_ERR_NUMEQUALVERIFY
               else Inr (r # st)))
      | _ \<Rightarrow> Inl SCRIPT_ERR_INVALID_STACK_OPERATION)"

definition op_within :: "bool \<Rightarrow> stack \<Rightarrow> ScriptError + stack" where
  "op_within fRequireMinimal st =
     (case st of
        x3 # x2 # x1 # st \<Rightarrow>
          num_operand fRequireMinimal 4 x1 (\<lambda>bn1. num_operand fRequireMinimal 4 x2 (\<lambda>bn2. num_operand fRequireMinimal 4 x3 (\<lambda>bn3.
            Inr ((if bn2 \<le> bn1 \<and> bn1 < bn3 then vchTrue else vchFalse) # st))))
      | _ \<Rightarrow> Inl SCRIPT_ERR_INVALID_STACK_OPERATION)"

definition op_hash :: "nat \<Rightarrow> stack \<Rightarrow> ScriptError + stack" where
  "op_hash opcode st =
     (case st of
        [] \<Rightarrow> Inl SCRIPT_ERR_INVALID_STACK_OPERATION
      | x # st \<Rightarrow>
          Inr ((if opcode = OP_RIPEMD160 then fst (CRIPEMD160_Finalize (CRIPEMD160_Write (CRIPEMD160_new (replicate 64 0)) x))
                else if opcode = OP_SHA1 then fst (CSHA1_Finalize (CSHA1_Write (CSHA1_new (replicate 64 0)) x))
                else if opcode = OP_SHA256 then fst (CSHA256_Finalize (CSHA256_Write (CSHA256_new (replicate 64 0)) x))
                else if opcode = OP_HASH160 then fst (CHash160_Finalize (CHash160_Write CHash160_new x))
                else fst (CHash256_Finalize (CHash256_Write CHash256_new x))) # st))"

definition check_encodings ::
  "BaseSignatureChecker \<Rightarrow> bytes \<Rightarrow> bytes \<Rightarrow> u32 \<Rightarrow> SigVersion \<Rightarrow> ScriptError option" where
  "check_encodings checker sig key flags sigversion =
     (case CheckSignatureEncoding checker sig flags of
        Some e \<Rightarrow> Some e
      | None \<Rightarrow> CheckPubKeyEncoding key flags sigversion)"

text \<open>\<open>code\<close> is the script from the last code separator on.\<close>

definition op_checksig ::
  "nat \<Rightarrow> u32 \<Rightarrow> BaseSignatureChecker \<Rightarrow> SigVersion \<Rightarrow> bytes \<Rightarrow> stack \<Rightarrow> ScriptError + stack" where
  "op_checksig opcode flags checker sigversion code st =
     (case st of
        key # sig # st \<Rightarrow>
          let scriptCode = (if sigversion = SIGVERSION_BASE then fst (FindAndDelete code (push_data [] sig)) else code)
          in case check_encodings checker sig key flags sigversion of
               Some e \<Rightarrow> Inl e
             | None \<Rightarrow>
                 let fSuccess = CheckSig checker sig key scriptCode sigversion
                 in if \<not> fSuccess \<and> SCRIPT_VERIFY_NULLFAIL flags \<and> length sig \<noteq> 0 then Inl SCRIPT_ERR_SIG_NULLFAIL
                    else if opcode = OP_CHECKSIGVERIFY then if fSuccess then Inr st else Inl SCRIPT_ERR_CHECKSIGVERIFY
                    else Inr ((if fSuccess then vchTrue else vchFalse) # st)
      | _ \<Rightarrow> Inl SCRIPT_ERR_INVALID_STACK_OPERATION)"

text \<open>The signatures from position \<open>isig\<close> of the stack are tried in order against the keys from position \<open>ikey\<close>; the top is
  position 1.\<close>

function multisig_loop ::
  "u32 \<Rightarrow> BaseSignatureChecker \<Rightarrow> SigVersion \<Rightarrow> bytes \<Rightarrow> stack \<Rightarrow> nat \<Rightarrow> nat \<Rightarrow> nat \<Rightarrow> nat \<Rightarrow> ScriptError + bool" where
  "multisig_loop flags checker sigversion scriptCode st isig nSigsCount ikey nKeysCount =
     (if nSigsCount = 0 then Inr True
      else let sig = st ! (isig - 1); key = st ! (ikey - 1)
           in case check_encodings checker sig key flags sigversion of
                Some e \<Rightarrow> Inl e
              | None \<Rightarrow>
                  let fOk = CheckSig checker sig key scriptCode sigversion;
                      isig = (if fOk then isig + 1 else isig);
                      nSigsCount = (if fOk then nSigsCount - 1 else nSigsCount)
                  in if nSigsCount > nKeysCount - 1 then Inr False
                     else multisig_loop flags checker sigversion scriptCode st isig nSigsCount (ikey + 1) (nKeysCount - 1))"
  by pat_completeness auto
termination by (relation "measure (\<lambda>(f, c, v, sc, st, isig, nSigs, ikey, nKeys). nSigs + nKeys)") (auto split: if_splits)

declare multisig_loop.simps [simp del]

text \<open>Removing the \<open>i - 1\<close> arguments from the stack; after a failure the signatures among them must be empty.\<close>

fun multisig_cleanup :: "bool \<Rightarrow> u32 \<Rightarrow> nat \<Rightarrow> nat \<Rightarrow> stack \<Rightarrow> ScriptError + stack" where
  "multisig_cleanup fSuccess flags i ikey2 st =
     (if i \<le> 1 then Inr st
      else if \<not> fSuccess \<and> SCRIPT_VERIFY_NULLFAIL flags \<and> ikey2 = 0 \<and> length (st ! 0) \<noteq> 0 then Inl SCRIPT_ERR_SIG_NULLFAIL
      else multisig_cleanup fSuccess flags (i - 1) (if ikey2 > 0 then ikey2 - 1 else ikey2) (drop 1 st))"

declare multisig_cleanup.simps [simp del]

text \<open>The rest of the operation, behind the loop, with \<open>i\<close> the position of the extra argument.\<close>

definition multisig_finish :: "nat \<Rightarrow> u32 \<Rightarrow> bool \<Rightarrow> nat \<Rightarrow> nat \<Rightarrow> stack \<Rightarrow> ScriptError + stack" where
  "multisig_finish opcode flags fSuccess i ikey2 st =
     (case multisig_cleanup fSuccess flags i ikey2 st of
        Inl e \<Rightarrow> Inl e
      | Inr st \<Rightarrow>
          (case st of
             [] \<Rightarrow> Inl SCRIPT_ERR_INVALID_STACK_OPERATION
           | dummy # st \<Rightarrow>
               if SCRIPT_VERIFY_NULLDUMMY flags \<and> length dummy \<noteq> 0 then Inl SCRIPT_ERR_SIG_NULLDUMMY
               else if opcode = OP_CHECKMULTISIGVERIFY then if fSuccess then Inr st else Inl SCRIPT_ERR_CHECKMULTISIGVERIFY
               else Inr ((if fSuccess then vchTrue else vchFalse) # st)))"

text \<open>Also returns the number of operations, to which the keys are added.\<close>

definition op_checkmultisig ::
  "nat \<Rightarrow> u32 \<Rightarrow> BaseSignatureChecker \<Rightarrow> SigVersion \<Rightarrow> bytes \<Rightarrow> nat \<Rightarrow> stack \<Rightarrow> ScriptError + (nat \<times> stack)" where
  "op_checkmultisig opcode flags checker sigversion code nOpCount st =
     (let invalid = Inl SCRIPT_ERR_INVALID_STACK_OPERATION; minimal = SCRIPT_VERIFY_MINIMALDATA flags
      in if length st < 1 then invalid
      else num_operand minimal 4 (st ! 0) (\<lambda>bn.
        let keys = getint bn
        in if keys < 0 \<or> keys > int MAX_PUBKEYS_PER_MULTISIG then Inl SCRIPT_ERR_PUBKEY_COUNT
        else let nKeysCount = nat keys; nOpCount = nOpCount + nKeysCount
        in if nOpCount > MAX_OPS_PER_SCRIPT then Inl SCRIPT_ERR_OP_COUNT
        else let i = 2 + nKeysCount
        in if length st < i then invalid
        else num_operand minimal 4 (st ! (i - 1)) (\<lambda>bn.
          let sigs = getint bn
          in if sigs < 0 \<or> sigs > int nKeysCount then Inl SCRIPT_ERR_SIG_COUNT
          else let nSigsCount = nat sigs; isig = i + 1; i = isig + nSigsCount
          in if length st < i then invalid
          else let scriptCode = foldl (\<lambda>sc k. if sigversion = SIGVERSION_BASE
                                                then fst (FindAndDelete sc (push_data [] (st ! (isig + k - 1)))) else sc)
                                 code [0..<nSigsCount]
          in case multisig_loop flags checker sigversion scriptCode st isig nSigsCount 2 nKeysCount of
               Inl e \<Rightarrow> Inl e
             | Inr fSuccess \<Rightarrow> map_sum id (\<lambda>st. (nOpCount, st)) (multisig_finish opcode flags fSuccess i (nKeysCount + 2) st))))"

section \<open>Evaluation\<close>

text \<open>The local variables of \<open>EvalScript\<close>: iterators are the rest of the script, and the innermost condition comes first.\<close>

record eval_state =
  es_pc :: bytes
  es_codehash :: bytes
  es_vfExec :: "bool list"
  es_stack :: stack
  es_altstack :: stack
  es_nOpCount :: nat

definition on_stack :: "eval_state \<Rightarrow> ScriptError + stack \<Rightarrow> ScriptError + eval_state" where
  "on_stack s r = map_sum id (\<lambda>st. s\<lparr>es_stack := st\<rparr>) r"

definition exec_opcode ::
  "u32 \<Rightarrow> BaseSignatureChecker \<Rightarrow> SigVersion \<Rightarrow> nat \<Rightarrow> bool \<Rightarrow> eval_state \<Rightarrow> ScriptError + eval_state" where
  "exec_opcode flags checker sigversion opcode fExec s =
     (let st = es_stack s; minimal = SCRIPT_VERIFY_MINIMALDATA flags
      in if opcode = OP_1NEGATE \<or> (OP_1 \<le> opcode \<and> opcode \<le> OP_16)
      then Inr (s\<lparr>es_stack := scriptnum_serialize (int opcode - (int OP_1 - 1)) # st\<rparr>)
      else if opcode = OP_NOP then Inr s
      else if opcode = OP_CHECKLOCKTIMEVERIFY then on_stack s (op_checklocktime flags checker st)
      else if opcode = OP_CHECKSEQUENCEVERIFY then on_stack s (op_checksequence flags checker st)
      else if opcode = OP_NOP1 \<or> (OP_NOP4 \<le> opcode \<and> opcode \<le> OP_NOP10)
      then if SCRIPT_VERIFY_DISCOURAGE_UPGRADABLE_NOPS flags then Inl SCRIPT_ERR_DISCOURAGE_UPGRADABLE_NOPS else Inr s
      else if opcode = OP_IF \<or> opcode = OP_NOTIF
      then if fExec
           then case op_if opcode flags sigversion st of
                  Inl e \<Rightarrow> Inl e
                | Inr (fValue, st) \<Rightarrow> Inr (s\<lparr>es_stack := st, es_vfExec := fValue # es_vfExec s\<rparr>)
           else Inr (s\<lparr>es_vfExec := False # es_vfExec s\<rparr>)
      else if opcode = OP_ELSE
      then case es_vfExec s of
             [] \<Rightarrow> Inl SCRIPT_ERR_UNBALANCED_CONDITIONAL
           | v # vs \<Rightarrow> Inr (s\<lparr>es_vfExec := (\<not> v) # vs\<rparr>)
      else if opcode = OP_ENDIF
      then case es_vfExec s of
             [] \<Rightarrow> Inl SCRIPT_ERR_UNBALANCED_CONDITIONAL
           | v # vs \<Rightarrow> Inr (s\<lparr>es_vfExec := vs\<rparr>)
      else if opcode = OP_VERIFY
      then case st of
             [] \<Rightarrow> Inl SCRIPT_ERR_INVALID_STACK_OPERATION
           | x # st \<Rightarrow> if CastToBool x then Inr (s\<lparr>es_stack := st\<rparr>) else Inl SCRIPT_ERR_VERIFY
      else if opcode = unat OP_RETURN then Inl SCRIPT_ERR_OP_RETURN
      else if (OP_TOALTSTACK \<le> opcode \<and> opcode \<le> OP_TUCK) \<or> opcode = OP_SIZE
      then map_sum id (\<lambda>(st, alt). s\<lparr>es_stack := st, es_altstack := alt\<rparr>) (stack_op opcode minimal st (es_altstack s))
      else if opcode = OP_EQUAL \<or> opcode = OP_EQUALVERIFY then on_stack s (op_equal opcode st)
      else if unary_opcode opcode then on_stack s (op_unary opcode minimal st)
      else if binary_opcode opcode then on_stack s (op_binary opcode minimal st)
      else if opcode = OP_WITHIN then on_stack s (op_within minimal st)
      else if OP_RIPEMD160 \<le> opcode \<and> opcode \<le> OP_HASH256 then on_stack s (op_hash opcode st)
      else if opcode = OP_CODESEPARATOR then Inr (s\<lparr>es_codehash := es_pc s\<rparr>)
      else if opcode = OP_CHECKSIG \<or> opcode = OP_CHECKSIGVERIFY
      then on_stack s (op_checksig opcode flags checker sigversion (es_codehash s) st)
      else if opcode = OP_CHECKMULTISIG \<or> opcode = OP_CHECKMULTISIGVERIFY
      then map_sum id (\<lambda>(n, st). s\<lparr>es_nOpCount := n, es_stack := st\<rparr>)
             (op_checkmultisig opcode flags checker sigversion (es_codehash s) (es_nOpCount s) st)
      else Inl SCRIPT_ERR_BAD_OPCODE)"

text \<open>An instruction is executed when every enclosing condition holds, and the conditionals always are.\<close>

definition exec_instruction ::
  "u32 \<Rightarrow> BaseSignatureChecker \<Rightarrow> SigVersion \<Rightarrow> nat \<Rightarrow> bytes \<Rightarrow> eval_state \<Rightarrow> ScriptError + eval_state" where
  "exec_instruction flags checker sigversion opcode vchPushValue s =
     (let fExec = list_all id (es_vfExec s)
      in if fExec \<and> opcode \<le> OP_PUSHDATA4
         then if SCRIPT_VERIFY_MINIMALDATA flags \<and> \<not> CheckMinimalPush vchPushValue opcode then Inl SCRIPT_ERR_MINIMALDATA
              else Inr (s\<lparr>es_stack := vchPushValue # es_stack s\<rparr>)
         else if fExec \<or> (OP_IF \<le> opcode \<and> opcode \<le> OP_ENDIF) then exec_opcode flags checker sigversion opcode fExec s
         else Inr s)"

text \<open>One turn of the loop.\<close>

definition eval_step :: "u32 \<Rightarrow> BaseSignatureChecker \<Rightarrow> SigVersion \<Rightarrow> eval_state \<Rightarrow> ScriptError + eval_state" where
  "eval_step flags checker sigversion s =
     (let (ok, opcode, vchPushValue, pc) = GetOp2 (es_pc s)
      in if \<not> ok then Inl SCRIPT_ERR_BAD_OPCODE
         else if length vchPushValue > MAX_SCRIPT_ELEMENT_SIZE then Inl SCRIPT_ERR_PUSH_SIZE
         else let nOpCount = (if opcode > OP_16 then es_nOpCount s + 1 else es_nOpCount s)
         in if opcode > OP_16 \<and> nOpCount > MAX_OPS_PER_SCRIPT then Inl SCRIPT_ERR_OP_COUNT
         else if disabled_opcode opcode then Inl SCRIPT_ERR_DISABLED_OPCODE
         else case exec_instruction flags checker sigversion opcode vchPushValue (s\<lparr>es_pc := pc, es_nOpCount := nOpCount\<rparr>) of
                Inl e \<Rightarrow> Inl e
              | Inr s \<Rightarrow> if length (es_stack s) + length (es_altstack s) > 1000 then Inl SCRIPT_ERR_STACK_SIZE else Inr s)"

text \<open>A property of every successful result, and its rules for the shapes of the operations.\<close>

definition when_ok :: "('a \<Rightarrow> bool) \<Rightarrow> 'e + 'a \<Rightarrow> bool" where
  "when_ok Q r \<longleftrightarrow> (\<forall>x. r = Inr x \<longrightarrow> Q x)"

named_theorems when_ok_intros

lemma when_ok_Inl [when_ok_intros]: "when_ok Q (Inl e)"
  by (simp add: when_ok_def)

lemma when_ok_Inr [when_ok_intros]: "Q x \<Longrightarrow> when_ok Q (Inr x)"
  by (simp add: when_ok_def)

lemma when_ok_if [when_ok_intros]: "when_ok Q a \<Longrightarrow> when_ok Q b \<Longrightarrow> when_ok Q (if c then a else b)"
  by simp

lemma when_ok_map_sum [when_ok_intros]: "when_ok (\<lambda>x. Q (f x)) r \<Longrightarrow> when_ok Q (map_sum id f r)"
  by (cases r) (simp_all add: when_ok_def)

lemma when_ok_on_stack [when_ok_intros]: "when_ok (\<lambda>st. Q (s\<lparr>es_stack := st\<rparr>)) r \<Longrightarrow> when_ok Q (on_stack s r)"
  unfolding on_stack_def by (rule when_ok_map_sum)

lemma when_ok_case_sum [when_ok_intros]:
  "when_ok (\<lambda>x. when_ok Q (f x)) r \<Longrightarrow> when_ok Q (case r of Inl e \<Rightarrow> Inl e | Inr x \<Rightarrow> f x)"
  by (cases r) (simp_all add: when_ok_def)

lemma when_ok_list [when_ok_intros]:
  "(l = [] \<Longrightarrow> when_ok Q a) \<Longrightarrow> (\<And>x xs. l = x # xs \<Longrightarrow> when_ok Q (f x xs)) \<Longrightarrow> when_ok Q (case l of [] \<Rightarrow> a | x # xs \<Rightarrow> f x xs)"
  by (cases l) simp_all

lemma when_ok_option [when_ok_intros]:
  "(l = None \<Longrightarrow> when_ok Q a) \<Longrightarrow> (\<And>x. when_ok Q (f x)) \<Longrightarrow> when_ok Q (case l of None \<Rightarrow> a | Some x \<Rightarrow> f x)"
  by (cases l) simp_all

lemma when_ok_pair [when_ok_intros]:
  "when_ok Q (f (fst p) (snd p)) \<Longrightarrow> when_ok Q (case p of (x, y) \<Rightarrow> f x y)"
  by (cases p) simp

lemma when_ok_num_operand [when_ok_intros]: "(\<And>n. when_ok Q (f n)) \<Longrightarrow> when_ok Q (num_operand minimal k dat f)"
  by (simp add: num_operand_def when_ok_def split: option.splits)

lemma when_ok_True [when_ok_intros]: "when_ok (\<lambda>x. True) r"
  by (simp add: when_ok_def)

lemma when_ok_D: "when_ok Q r \<Longrightarrow> r = Inr x \<Longrightarrow> Q x"
  by (simp add: when_ok_def)

lemma when_ok_cond: "(c \<Longrightarrow> when_ok Q a) \<Longrightarrow> (\<not> c \<Longrightarrow> when_ok Q b) \<Longrightarrow> when_ok Q (if c then a else b)"
  by simp

lemma when_ok_case_sum_any: "(\<And>x. when_ok Q (f x)) \<Longrightarrow> when_ok Q (case r of Inl e \<Rightarrow> Inl e | Inr x \<Rightarrow> f x)"
  by (cases r) (simp_all add: when_ok_def)

lemma when_ok_imp: "when_ok P r \<Longrightarrow> (\<And>x. P x \<Longrightarrow> Q x) \<Longrightarrow> when_ok Q r"
  by (simp add: when_ok_def)

lemma exec_opcode_pc: "when_ok (\<lambda>s'. es_pc s' = es_pc s) (exec_opcode flags checker sigversion opcode fExec s)"
  unfolding exec_opcode_def Let_def
  by (intro when_ok_intros) (auto simp: case_prod_beta when_ok_def)

lemma exec_instruction_pc: "exec_instruction flags checker sigversion opcode dat s = Inr s' \<Longrightarrow> es_pc s' = es_pc s"
  by (auto simp: exec_instruction_def Let_def dest: when_ok_D [OF exec_opcode_pc] split: if_splits)

text \<open>What a successful turn of the loop has checked.\<close>

lemma eval_stepE:
  assumes "eval_step flags checker sigversion s = Inr s'"
  obtains opcode dat pc n where "GetOp2 (es_pc s) = (True, opcode, dat, pc)" "length dat \<le> MAX_SCRIPT_ELEMENT_SIZE"
    "n = (if opcode > OP_16 then es_nOpCount s + 1 else es_nOpCount s)" "opcode > OP_16 \<longrightarrow> n \<le> MAX_OPS_PER_SCRIPT"
    "\<not> disabled_opcode opcode"
    "exec_instruction flags checker sigversion opcode dat (s\<lparr>es_pc := pc, es_nOpCount := n\<rparr>) = Inr s'"
    "length (es_stack s') + length (es_altstack s') \<le> 1000"
proof -
  obtain ok opcode dat pc where g: "GetOp2 (es_pc s) = (ok, opcode, dat, pc)" by (cases "GetOp2 (es_pc s)")
  have ok: ok using assms by (simp add: eval_step_def g split: if_splits)
  show thesis
    using assms g ok
    by (intro that [of opcode dat pc "if opcode > OP_16 then es_nOpCount s + 1 else es_nOpCount s"]) (auto simp: eval_step_def Let_def not_less split: if_splits sum.splits)
qed

lemma eval_step_shrinks:
  assumes "eval_step flags checker sigversion s = Inr s'"
  shows "length (es_pc s') < length (es_pc s)"
  using assms by (rule eval_stepE) (simp add: exec_instruction_pc GetOp2_shrinks)

function eval_loop :: "u32 \<Rightarrow> BaseSignatureChecker \<Rightarrow> SigVersion \<Rightarrow> eval_state \<Rightarrow> ScriptError + eval_state" where
  "eval_loop flags checker sigversion s =
     (if es_pc s = [] then Inr s
      else case eval_step flags checker sigversion s of
             Inl e \<Rightarrow> Inl e
           | Inr s \<Rightarrow> eval_loop flags checker sigversion s)"
  by pat_completeness auto
termination by (relation "measure (\<lambda>(f, c, v, s). length (es_pc s))") (auto simp: eval_step_shrinks)

declare eval_loop.simps [simp del]

definition eval_start :: "stack \<Rightarrow> bytes \<Rightarrow> eval_state" where
  "eval_start st script =
     \<lparr>es_pc = script, es_codehash = script, es_vfExec = [], es_stack = st, es_altstack = [], es_nOpCount = 0\<rparr>"

definition EvalScript :: "stack \<Rightarrow> bytes \<Rightarrow> u32 \<Rightarrow> BaseSignatureChecker \<Rightarrow> SigVersion \<Rightarrow> ScriptError + stack" where
  "EvalScript st script flags checker sigversion =
     (if length script > MAX_SCRIPT_SIZE then Inl SCRIPT_ERR_SCRIPT_SIZE
      else case eval_loop flags checker sigversion (eval_start st script) of
             Inl e \<Rightarrow> Inl e
           | Inr s \<Rightarrow> if es_vfExec s \<noteq> [] then Inl SCRIPT_ERR_UNBALANCED_CONDITIONAL else Inr (es_stack s))"


section \<open>Signatures are strict DER\<close>

text \<open>An integer in DER: not empty, not negative, without a needless zero byte.\<close>

definition der_integer :: "bytes \<Rightarrow> bool" where
  "der_integer r \<longleftrightarrow> r \<noteq> [] \<and> unat (r ! 0) < 128 \<and> (length r > 1 \<and> r ! 0 = 0 \<longrightarrow> 128 \<le> unat (r ! 1))"

definition der_signature :: "bytes \<Rightarrow> bytes \<Rightarrow> u8 \<Rightarrow> bytes" where
  "der_signature R S hashtype =
     [0x30, word_of_nat (length R + length S + 4), 2, word_of_nat (length R)] @ R @ [2, word_of_nat (length S)] @ S @ [hashtype]"

lemma der_signature_nth:
  fixes h :: u8
  assumes "length R + length S \<le> 66"
  defines "sig \<equiv> der_signature R S h"
  shows "length sig = length R + length S + 7" "sig ! 0 = 0x30" "unat (sig ! 1) = length R + length S + 4" "sig ! 2 = 2"
    "unat (sig ! 3) = length R" "sig ! (length R + 4) = 2" "unat (sig ! (5 + length R)) = length S"
    "i < length R \<Longrightarrow> sig ! (4 + i) = R ! i" "i < length S \<Longrightarrow> sig ! (length R + 6 + i) = S ! i"
    "sig ! (length R + length S + 6) = h"
  using assms by (simp_all add: der_signature_def nth_append nth_Cons' unat_of_small del: of_nat_add)

lemma der_signature_valid:
  assumes "length R + length S \<le> 66" "der_integer R" "der_integer S"
  shows "IsValidSignatureEncoding (der_signature R S h)"
proof -
  note n = der_signature_nth [OF assms(1), where h = h]
  have p: "0 < length R" "0 < length S" using assms(2,3) by (simp_all add: der_integer_def)
  then have two: "\<not> length R + length S < 2" by linarith
  have "length R > 1 \<Longrightarrow> der_signature R S h ! 5 = R ! 1" using n(8) [of 1] by simp
  moreover have "length S > 1 \<Longrightarrow> der_signature R S h ! (length R + 7) = S ! 1" using n(9) [of 1] by (simp add: add.commute)
  ultimately show ?thesis
    using p two assms n(1-7) n(8) [of 0] n(9) [of 0]
    unfolding IsValidSignatureEncoding_def Let_def by (simp add: der_integer_def byte_sign) 
qed

text \<open>C11: A byte string passes as the encoding of a signature exactly if it is the strict DER form of two positive integers R and S
  with a hash type byte behind it, in at most 73 bytes.\<close>

theorem signature_encoding_is_der:
  "IsValidSignatureEncoding sig \<longleftrightarrow>
     (\<exists>R S hashtype. der_integer R \<and> der_integer S \<and> length R + length S + 7 \<le> 73 \<and> sig = der_signature R S hashtype)"
  (is "_ \<longleftrightarrow> ?rhs")
proof
  assume v: "IsValidSignatureEncoding sig"
  define R where "R = take (unat (sig ! 3)) (drop 4 sig)"
  define S where "S = take (unat (sig ! (5 + unat (sig ! 3)))) (drop (6 + unat (sig ! 3)) sig)"
  define lR lS where l: "lR = unat (sig ! 3)" "lS = unat (sig ! (5 + lR))"
  have c: "9 \<le> length sig" "length sig \<le> 73" "sig ! 0 = 0x30" "unat (sig ! 1) = length sig - 3" "5 + lR < length sig"
    "lR + lS + 7 = length sig" "sig ! 2 = 2" "lR \<noteq> 0" "unat (sig ! 4) < 128" "lR > 1 \<and> sig ! 4 = 0 \<longrightarrow> 128 \<le> unat (sig ! 5)"
    "sig ! (lR + 4) = 2" "lS \<noteq> 0" "unat (sig ! (lR + 6)) < 128" "lS > 1 \<and> sig ! (lR + 6) = 0 \<longrightarrow> 128 \<le> unat (sig ! (lR + 7))"
    using v unfolding IsValidSignatureEncoding_def Let_def l byte_sign by (auto split: if_splits)
  have len: "length R = lR" "length S = lS" using c by (simp_all add: R_def S_def l)
  have nth: "\<And>i. i < lR \<Longrightarrow> R ! i = sig ! (4 + i)" "\<And>i. i < lS \<Longrightarrow> S ! i = sig ! (lR + 6 + i)"
    using c by (simp_all add: R_def S_def l add.commute add.left_commute)
  have "length R + length S \<le> 66" using c len by simp
  note d = der_signature_nth [OF this, where h = "sig ! (lR + lS + 6)"]
  have "sig = der_signature R S (sig ! (lR + lS + 6))"
  proof (rule nth_equalityI)
    show "length sig = length (der_signature R S (sig ! (lR + lS + 6)))" using c d(1) len by simp
  next
    fix i assume "i < length sig"
    then consider "i = 0 \<or> i = 1 \<or> i = 2 \<or> i = 3" | "4 \<le> i \<and> i < lR + 4" | "i = lR + 4 \<or> i = 5 + lR"
      | "lR + 6 \<le> i \<and> i < lR + 6 + lS" | "i = lR + lS + 6"
      using c(6) by linarith
    then show "sig ! i = der_signature R S (sig ! (lR + lS + 6)) ! i"
    proof cases
      case 2
      then have "i - 4 < lR" by linarith
      with 2 show ?thesis using d(8) [of "i - 4"] nth(1) [of "i - 4"] len by simp
    next
      case 4
      then have "i - (lR + 6) < lS" by linarith
      with 4 show ?thesis using d(9) [of "i - (lR + 6)"] nth(2) [of "i - (lR + 6)"] len by simp
    qed (use d(1-7,10) c len in \<open>auto simp: l word_unat_eq_iff\<close>)
  qed
  moreover have "der_integer R" "der_integer S"
    using c len nth(1) [of 0] nth(1) [of 1] nth(2) [of 0] nth(2) [of 1] by (auto simp: der_integer_def add.commute)
  moreover have "length R + length S + 7 \<le> 73" using c len by simp
  ultimately show ?rhs by blast
next
  assume ?rhs
  then show "IsValidSignatureEncoding sig" using der_signature_valid by auto
qed


section \<open>Limits\<close>

lemma when_ok_num_operand4:
  "(\<And>n. \<bar>n\<bar> < 2 ^ 31 \<Longrightarrow> when_ok Q (f n)) \<Longrightarrow> when_ok Q (num_operand minimal 4 dat f)"
  using set_vch_bound [of dat 3] by (simp add: num_operand_def CScriptNum_def when_ok_Inl)

definition small :: "bytes \<Rightarrow> bool" where
  "small dat \<longleftrightarrow> length dat \<le> MAX_SCRIPT_ELEMENT_SIZE"

lemma small_number: "\<bar>v\<bar> < 2 ^ 39 \<Longrightarrow> small (scriptnum_serialize v)"
  using serialize_length [of v 4] by (simp add: small_def)

lemma small_bool [simp]: "small vchTrue" "small vchFalse"
  by (simp_all add: small_def)

lemma small_size: "small dat \<Longrightarrow> small (scriptnum_serialize (int (length dat)))"
  by (rule small_number) (simp add: small_def)

lemma abs_if_less: "\<bar>a\<bar> < m \<Longrightarrow> \<bar>b\<bar> < m \<Longrightarrow> \<bar>if c then a else b\<bar> < (m :: int)"
  by simp

lemma small_unary: "\<bar>bn\<bar> < 2 ^ 31 \<Longrightarrow> small (scriptnum_serialize (unary_result opcode bn))"
  by (rule small_number) (simp only: unary_result_def, intro abs_if_less; simp)

lemma small_binary: "\<bar>bn1\<bar> < 2 ^ 31 \<Longrightarrow> \<bar>bn2\<bar> < 2 ^ 31 \<Longrightarrow> small (scriptnum_serialize (binary_result opcode bn1 bn2))"
  by (rule small_number) (simp only: binary_result_def, intro abs_if_less; simp)

lemma op_hash_values:
  "op_hash opcode (x # st) =
     Inr ((if opcode = OP_RIPEMD160 then ripemd160 x else if opcode = OP_SHA1 then sha1 x else if opcode = OP_SHA256 then sha256 x
           else if opcode = OP_HASH160 then ripemd160 (sha256 x) else sha256 (sha256 x)) # st)"
proof -
  note r = CRIPEMD160_rep_Finalize [OF CRIPEMD160_rep_Write [OF CRIPEMD160_rep_new]]
    and s1 = CSHA1_rep_Finalize [OF CSHA1_rep_Writes [OF CSHA1_rep_new, where ds = "[x]"]]
    and s2 = CSHA256_rep_Finalize [OF CSHA256_rep_Write [OF CSHA256_zero_rep]]
    and h160 = CHash160_rep_Finalize [OF CSHA256_rep_Write [OF CSHA256_zero_rep]]
    and h256 = CHash256_rep_Finalize [OF CSHA256_rep_Write [OF CSHA256_zero_rep]]
  show ?thesis
    unfolding op_hash_def CHash160_new_def CHash160_Write_def CHash256_new_def CHash256_Write_def
    using r s1 s2 h160 h256 by simp
qed

lemma op_checklocktime_small: "when_ok (\<lambda>st'. st' = st) (op_checklocktime flags checker st)"
  unfolding op_checklocktime_def by (intro when_ok_intros) simp_all

lemma op_checksequence_small: "when_ok (\<lambda>st'. st' = st) (op_checksequence flags checker st)"
  unfolding op_checksequence_def by (intro when_ok_intros) simp_all

lemma op_if_small: "list_all small st \<Longrightarrow> when_ok (\<lambda>r. list_all small (snd r)) (op_if opcode flags sigversion st)"
  unfolding op_if_def by (intro when_ok_intros) auto

lemma op_pick_roll_small: "list_all small st \<Longrightarrow> when_ok (list_all small) (op_pick_roll opcode minimal st)"
  unfolding op_pick_roll_def Let_def
  by (intro when_ok_list when_ok_cond when_ok_num_operand when_ok_Inl when_ok_Inr)
    (auto simp: list_all_iff nat_less_iff dest: in_set_takeD in_set_dropD)

lemma stack_op_small:
  "list_all small st \<Longrightarrow> list_all small alt \<Longrightarrow> length st \<le> 1000 \<Longrightarrow>
   when_ok (\<lambda>(st, alt). list_all small st \<and> list_all small alt) (stack_op opcode minimal st alt)"
  unfolding stack_op_def Let_def
  by (intro when_ok_intros) (auto simp: small_number small_size intro: when_ok_imp [OF op_pick_roll_small])

lemma op_equal_small: "list_all small st \<Longrightarrow> when_ok (list_all small) (op_equal opcode st)"
  unfolding op_equal_def Let_def by (intro when_ok_intros) auto

lemma op_unary_small: "list_all small st \<Longrightarrow> when_ok (list_all small) (op_unary opcode minimal st)"
  unfolding op_unary_def by (intro when_ok_num_operand4 when_ok_list when_ok_Inl when_ok_Inr) (auto simp: small_unary [simplified])

lemma op_binary_small: "list_all small st \<Longrightarrow> when_ok (list_all small) (op_binary opcode minimal st)"
  unfolding op_binary_def Let_def
  by (intro when_ok_num_operand4 when_ok_list when_ok_Inl when_ok_Inr when_ok_if) (auto simp: small_binary [simplified])

lemma op_within_small: "list_all small st \<Longrightarrow> when_ok (list_all small) (op_within minimal st)"
  unfolding op_within_def Let_def by (intro when_ok_intros) auto

lemma op_hash_small: "list_all small st \<Longrightarrow> when_ok (list_all small) (op_hash opcode st)"
  by (cases st) (simp_all add: op_hash_def [of _ "[]"] op_hash_values small_def
      length_sha1 length_sha256 length_ripemd160 when_ok_Inl when_ok_Inr)

lemma op_checksig_small: "list_all small st \<Longrightarrow> when_ok (list_all small) (op_checksig opcode flags checker sigversion code st)"
  unfolding op_checksig_def Let_def by (intro when_ok_intros) auto

lemma list_all_drop: "list_all P xs \<Longrightarrow> list_all P (drop n xs)"
  by (auto simp: list_all_iff dest: in_set_dropD)

lemma multisig_cleanup_drop: "when_ok (\<lambda>st'. st' = drop (i - 1) st) (multisig_cleanup fSuccess flags i ikey2 st)"
proof (induction fSuccess flags i ikey2 st rule: multisig_cleanup.induct)
  case (1 fSuccess flags i ikey2 st)
  show ?case
  proof (cases "i \<le> 1")
    case True
    then show ?thesis by (simp add: multisig_cleanup.simps when_ok_Inr)
  next
    case False
    then have "drop (i - 1) st = drop (i - 1 - 1) (drop 1 st)" by (simp add: Suc_diff_Suc numeral_2_eq_2)
    with False 1 show ?thesis
      by (subst multisig_cleanup.simps) (simp add: when_ok_Inl)
  qed
qed

lemma multisig_cleanup_small:
  "list_all small st \<Longrightarrow> when_ok (list_all small) (multisig_cleanup fSuccess flags i ikey2 st)"
  by (rule when_ok_imp [OF multisig_cleanup_drop]) (simp add: list_all_drop)

lemma multisig_finish_small:
  "list_all small st \<Longrightarrow> when_ok (list_all small) (multisig_finish opcode flags fSuccess i ikey2 st)"
  unfolding multisig_finish_def
  by (intro when_ok_case_sum when_ok_imp [OF multisig_cleanup_small] when_ok_list when_ok_if when_ok_Inl when_ok_Inr) auto

lemma op_checkmultisig_limits:
  "list_all small st \<Longrightarrow>
   when_ok (\<lambda>(n, st). n \<le> MAX_OPS_PER_SCRIPT \<and> list_all small st)
     (op_checkmultisig opcode flags checker sigversion code nOpCount st)"
  unfolding op_checkmultisig_def Let_def
  by (intro when_ok_cond when_ok_num_operand when_ok_case_sum_any when_ok_map_sum when_ok_Inl)
    (auto intro: when_ok_imp [OF multisig_finish_small])

definition limits :: "eval_state \<Rightarrow> bool" where
  "limits s \<longleftrightarrow> length (es_stack s) + length (es_altstack s) \<le> 1000 \<and> es_nOpCount s \<le> MAX_OPS_PER_SCRIPT \<and>
     list_all small (es_stack s) \<and> list_all small (es_altstack s)"

lemma exec_opcode_limits:
  assumes "list_all small (es_stack s)" "list_all small (es_altstack s)" "es_nOpCount s \<le> MAX_OPS_PER_SCRIPT"
    "length (es_stack s) \<le> 1000" "opcode < 256"
  shows "when_ok (\<lambda>s'. es_nOpCount s' \<le> MAX_OPS_PER_SCRIPT \<and> list_all small (es_stack s') \<and> list_all small (es_altstack s'))
     (exec_opcode flags checker sigversion opcode fExec s)"
proof -
  note ops = op_checklocktime_small op_checksequence_small op_if_small op_equal_small op_unary_small op_binary_small
     op_within_small op_hash_small op_checksig_small stack_op_small op_checkmultisig_limits
  show ?thesis
    unfolding exec_opcode_def Let_def
    using assms
    by (intro when_ok_intros) (auto simp: small_number intro!: when_ok_Inr intro: ops [THEN when_ok_imp])
qed

lemma GetOp2_opcode_less: "GetOp2 pc = (True, opcode, dat, pc') \<Longrightarrow> opcode < 256"
  using u8_unat_less by (auto simp: GetOp2_def Let_def split: list.splits if_splits option.splits)

lemma eval_step_limits:
  assumes "eval_step flags checker sigversion s = Inr s'" "limits s"
  shows "limits s'"
  using assms(1)
proof (rule eval_stepE)
  fix opcode dat pc n
  assume g: "GetOp2 (es_pc s) = (True, opcode, dat, pc)" "length dat \<le> MAX_SCRIPT_ELEMENT_SIZE"
    and n: "n = (if opcode > OP_16 then es_nOpCount s + 1 else es_nOpCount s)" "opcode > OP_16 \<longrightarrow> n \<le> MAX_OPS_PER_SCRIPT"
    and e: "exec_instruction flags checker sigversion opcode dat (s\<lparr>es_pc := pc, es_nOpCount := n\<rparr>) = Inr s'"
    and l: "length (es_stack s') + length (es_altstack s') \<le> 1000"
  let ?t = "s\<lparr>es_pc := pc, es_nOpCount := n\<rparr>"
  have t: "list_all small (es_stack ?t)" "list_all small (es_altstack ?t)" "es_nOpCount ?t \<le> MAX_OPS_PER_SCRIPT" "length (es_stack ?t) \<le> 1000"
    using assms(2) n by (auto simp: limits_def split: if_splits)
  show "limits s'"
    using e l t g(2) when_ok_D [OF exec_opcode_limits [OF t GetOp2_opcode_less [OF g(1)]]]
    unfolding limits_def exec_instruction_def Let_def by (auto simp: small_def split: if_splits)
qed

text \<open>The states that evaluation passes through.\<close>

inductive script_reaches :: "u32 \<Rightarrow> BaseSignatureChecker \<Rightarrow> SigVersion \<Rightarrow> eval_state \<Rightarrow> eval_state \<Rightarrow> bool"
  for flags checker sigversion s where
  reach_start: "script_reaches flags checker sigversion s s"
| reach_step: "script_reaches flags checker sigversion s t \<Longrightarrow> es_pc t \<noteq> [] \<Longrightarrow> eval_step flags checker sigversion t = Inr u \<Longrightarrow>
    script_reaches flags checker sigversion s u"

lemma script_reaches_limits: "script_reaches flags checker sigversion s t \<Longrightarrow> limits s \<Longrightarrow> limits t"
  by (induction rule: script_reaches.induct) (auto intro: eval_step_limits)

lemma eval_loop_reaches:
  assumes "eval_loop flags checker sigversion t = Inr u" "script_reaches flags checker sigversion s t"
  shows "script_reaches flags checker sigversion s u \<and> es_pc u = []"
  using assms
proof (induction flags checker sigversion t rule: eval_loop.induct)
  case (1 flags checker sigversion t)
  show ?case
  proof (cases "es_pc t = []")
    case True
    then show ?thesis using 1(2,3) by (simp add: eval_loop.simps)
  next
    case False
    then obtain t' where "eval_step flags checker sigversion t = Inr t'" "eval_loop flags checker sigversion t' = Inr u"
      using 1(2) by (subst (asm) eval_loop.simps) (auto split: sum.splits)
    then show ?thesis using 1(1) False reach_step [OF 1(3)] by blast
  qed
qed

text \<open>C9: From a stack of at most 1000 items of at most 520 bytes, evaluation of a script never reaches a state with more than 1000 items
  on the two stacks, with an item of more than 520 bytes, or with more than 201 operations counted.\<close>

theorem script_limits:
  assumes "length st \<le> 1000" "list_all (\<lambda>x. length x \<le> 520) st"
    and "script_reaches flags checker sigversion (eval_start st script) t"
  shows "length (es_stack t) + length (es_altstack t) \<le> 1000 \<and> es_nOpCount t \<le> 201 \<and>
    list_all (\<lambda>x. length x \<le> 520) (es_stack t @ es_altstack t)"
proof -
  have "limits (eval_start st script)"
    using assms(1,2) by (simp add: limits_def eval_start_def small_def list_all_iff)
  with assms(3) have "limits t" by (rule script_reaches_limits)
  then show ?thesis by (auto simp: limits_def small_def list_all_iff)
qed

theorem script_limits_witness:
  "script_reaches 0 (base_checker (\<lambda>s. True)) SIGVERSION_BASE (eval_start [] [0x51, 0x76])
     \<lparr>es_pc = [], es_codehash = [0x51, 0x76], es_vfExec = [], es_stack = [[1], [1]], es_altstack = [], es_nOpCount = 1\<rparr> \<and>
   length [[1], [1 :: u8]] + length ([] :: stack) \<le> 1000"
  (is "script_reaches _ ?c _ ?s ?t \<and> _")
proof -
  let ?u = "\<lparr>es_pc = [0x76], es_codehash = [0x51, 0x76], es_vfExec = [], es_stack = [[1]], es_altstack = [], es_nOpCount = 0\<rparr>"
  have "eval_step 0 ?c SIGVERSION_BASE ?s = Inr ?u" and "eval_step 0 ?c SIGVERSION_BASE ?u = Inr ?t" by code_simp+
  then have "script_reaches 0 ?c SIGVERSION_BASE ?s ?t"
    by (intro reach_step [where u = ?t, OF reach_step [where u = ?u, OF reach_start]]) (simp_all add: eval_start_def)
  with script_limits [OF _ _ this] show ?thesis by simp
qed

section \<open>Multisignatures\<close>

text \<open>Some of the keys, in order, validate the signatures, in order.\<close>

definition signed_in_order :: "(bytes \<Rightarrow> bytes \<Rightarrow> bool) \<Rightarrow> bytes list \<Rightarrow> bytes list \<Rightarrow> bool" where
  "signed_in_order valid sigs keys \<longleftrightarrow> (\<exists>ks. subseq ks keys \<and> list_all2 valid sigs ks)"

lemma signed_Nil [simp]: "signed_in_order valid [] keys"
  by (auto simp: signed_in_order_def)

lemma signed_length: "signed_in_order valid sigs keys \<Longrightarrow> length sigs \<le> length keys"
  by (auto simp: signed_in_order_def list_all2_lengthD dest: list_emb_length)

lemma signed_Cons:
  "signed_in_order valid (s # ss) (k # keys) \<longleftrightarrow>
     (if valid s k then signed_in_order valid ss keys else signed_in_order valid (s # ss) keys)"
proof -
  have later: "signed_in_order valid ss keys" if "signed_in_order valid (s # ss) keys"
  proof -
    from that obtain k' ks where "subseq (k' # ks) keys" "list_all2 valid ss ks"
      by (auto simp: signed_in_order_def list_all2_Cons1)
    then show ?thesis by (auto simp: signed_in_order_def dest: subseq_Cons')
  qed
  have here: "signed_in_order valid (s # ss) (k # keys)" if "valid s k" "signed_in_order valid ss keys"
  proof -
    from that(2) obtain ks where "subseq ks keys" "list_all2 valid ss ks" by (auto simp: signed_in_order_def)
    then show ?thesis using that(1) unfolding signed_in_order_def by (intro exI [of _ "k # ks"]) simp
  qed
  have skip: "signed_in_order valid (s # ss) (k # keys)" if "signed_in_order valid (s # ss) keys"
    using that by (auto simp: signed_in_order_def)
  have split: "signed_in_order valid (s # ss) keys \<or> (valid s k \<and> signed_in_order valid ss keys)" if "signed_in_order valid (s # ss) (k # keys)"
  proof -
    from that obtain ks where ks: "subseq ks (k # keys)" "list_all2 valid (s # ss) ks" by (auto simp: signed_in_order_def)
    then show ?thesis by (cases ks) (auto simp: signed_in_order_def split: if_splits)
  qed
  show ?thesis using later here skip split by auto
qed

lemma drop_position: "drop (i - 1) xs = y # ys \<Longrightarrow> 0 < i \<Longrightarrow> xs ! (i - 1) = y \<and> drop i xs = ys"
  by (cases i) (simp_all add: nth_via_drop drop_Suc drop_tl)

lemma multisig_loop_signed:
  assumes "drop (isig - 1) st = sigs @ r1" "drop (ikey - 1) st = keys @ r2" "0 < isig" "0 < ikey" "length sigs \<le> length keys"
    and "\<And>sig key. sig \<in> set sigs \<Longrightarrow> key \<in> set keys \<Longrightarrow> check_encodings checker sig key flags sigversion = None"
  shows "multisig_loop flags checker sigversion scriptCode st isig (length sigs) ikey (length keys) =
    Inr (signed_in_order (\<lambda>sig key. CheckSig checker sig key scriptCode sigversion) sigs keys)"
  using assms
proof (induction keys arbitrary: sigs isig ikey)
  case Nil
  then show ?case by (simp add: multisig_loop.simps)
next
  case (Cons k ks)
  show ?case
  proof (cases sigs)
    case Nil
    then show ?thesis by (simp add: multisig_loop.simps)
  next
    case sigs: (Cons s ss)
    let ?valid = "\<lambda>sig key. CheckSig checker sig key scriptCode sigversion"
    have d: "st ! (isig - 1) = s" "drop isig st = ss @ r1" "st ! (ikey - 1) = k" "drop ikey st = ks @ r2"
      using Cons.prems(1-4) drop_position [of isig st s "ss @ r1"] drop_position [of ikey st k "ks @ r2"] by (simp_all add: sigs)
    have e: "check_encodings checker s k flags sigversion = None" using Cons.prems(6) by (simp add: sigs)
    show ?thesis
    proof (cases "?valid s k")
      case True
      have "multisig_loop flags checker sigversion scriptCode st (isig + 1) (length ss) (ikey + 1) (length ks) =
        Inr (signed_in_order ?valid ss ks)"
        using Cons.prems d by (intro Cons.IH) (simp_all add: sigs)
      then show ?thesis using True d e Cons.prems(5) by (subst multisig_loop.simps) (simp add: sigs signed_Cons)
    next
      case False
      have "multisig_loop flags checker sigversion scriptCode st isig (length sigs) (ikey + 1) (length ks) =
        Inr (signed_in_order ?valid sigs ks)" if "length sigs \<le> length ks"
        using Cons.prems d that by (intro Cons.IH) simp_all
      moreover have "\<not> signed_in_order ?valid sigs ks" if "\<not> length sigs \<le> length ks"
        using that signed_length [of ?valid sigs ks] by blast
      ultimately show ?thesis using False d e by (subst multisig_loop.simps) (auto simp: sigs signed_Cons)
    qed
  qed
qed

lemma multisig_cleanup_sigs:
  "multisig_cleanup fSuccess flags (Suc (length sigs)) 0 (sigs @ rest) =
     (if \<not> fSuccess \<and> SCRIPT_VERIFY_NULLFAIL flags \<and> list_ex (\<lambda>sig. sig \<noteq> []) sigs then Inl SCRIPT_ERR_SIG_NULLFAIL else Inr rest)"
  by (induction sigs) (subst multisig_cleanup.simps; auto)+

lemma multisig_cleanup_value:
  "multisig_cleanup fSuccess flags (Suc (length pre + length sigs)) (length pre) (pre @ sigs @ rest) =
     (if \<not> fSuccess \<and> SCRIPT_VERIFY_NULLFAIL flags \<and> list_ex (\<lambda>sig. sig \<noteq> []) sigs then Inl SCRIPT_ERR_SIG_NULLFAIL else Inr rest)"
proof (induction pre)
  case Nil
  show ?case using multisig_cleanup_sigs by simp
next
  case (Cons x pre)
  then show ?case by (subst multisig_cleanup.simps) simp
qed

lemma num_operand_serialize: "\<bar>n\<bar> < 2 ^ 31 \<Longrightarrow> num_operand minimal 4 (scriptnum_serialize n) f = f n"
  using serialize_length [of n 3] serialize_minimal [of n]
  by (auto simp: num_operand_def CScriptNum_def minimal_number_def set_vch_serialize)

lemma getint_small: "\<bar>n\<bar> < 2 ^ 31 \<Longrightarrow> getint n = n"
  by (auto simp: getint_def)

lemma foldl_same: "foldl (\<lambda>a k. a) c xs = c"
  by (induction xs) simp_all

lemma foldl_nth: "foldl (\<lambda>a k. g a (xs ! k)) c [0..<length xs] = foldl g c xs"
proof -
  have "foldl g c xs = foldl g c (map ((!) xs) [0..<length xs])" by (simp only: map_nth)
  then show ?thesis by (simp only: foldl_map)
qed

lemma multisig_code:
  assumes "\<And>k. k < length sigs \<Longrightarrow> st ! (i + k - 1) = sigs ! k"
  shows "foldl (\<lambda>sc k. if base then fst (FindAndDelete sc (push_data [] (st ! (i + k - 1)))) else sc) code [0..<length sigs] =
    (if base then foldl (\<lambda>sc sig. fst (FindAndDelete sc (push_data [] sig))) code sigs else code)"
proof -
  have "foldl (\<lambda>sc k. fst (FindAndDelete sc (push_data [] (st ! (i + k - 1))))) code [0..<length sigs] =
    foldl (\<lambda>sc k. fst (FindAndDelete sc (push_data [] (sigs ! k)))) code [0..<length sigs]"
    using assms by (intro foldl_cong) simp_all
  also have "\<dots> = foldl (\<lambda>sc sig. fst (FindAndDelete sc (push_data [] sig))) code sigs" by (rule foldl_nth)
  finally show ?thesis by (simp add: foldl_same)
qed

text \<open>C10: what \<open>OP_CHECKMULTISIG\<close> and \<open>OP_CHECKMULTISIGVERIFY\<close> do on a stack with the number of the keys, the keys, the number of
  the signatures, the signatures and one more item, if every signature and key is encoded as the flags ask. More than twenty keys, more than 201
  operations with the keys counted, and more signatures than keys are errors, in this order. Otherwise the check succeeds exactly if some of the keys
  validate the signatures in the same order, although each key is tried only once. A failed check with a signature that is not empty is an
  error where the flags ask for empty ones, and so is an extra item that is not empty where they ask for that. The keys are added to the
  operations, and the arguments are replaced by the outcome, or by nothing in the verifying form, for which failure is an error.\<close>

theorem checkmultisig_decides:
  assumes "length keys < 2 ^ 31" "length sigs < 2 ^ 31"
    and "\<And>sig key. sig \<in> set sigs \<Longrightarrow> key \<in> set keys \<Longrightarrow> check_encodings checker sig key flags sigversion = None"
    and "scriptCode = (if sigversion = SIGVERSION_BASE then foldl (\<lambda>sc sig. fst (FindAndDelete sc (push_data [] sig))) code sigs else code)"
    and "ok \<longleftrightarrow> signed_in_order (\<lambda>sig key. CheckSig checker sig key scriptCode sigversion) sigs keys"
  shows "op_checkmultisig opcode flags checker sigversion code n
      (scriptnum_serialize (int (length keys)) # keys @ scriptnum_serialize (int (length sigs)) # sigs @ dummy # rest) =
    (if length keys > 20 then Inl SCRIPT_ERR_PUBKEY_COUNT
     else if n + length keys > 201 then Inl SCRIPT_ERR_OP_COUNT
     else if length sigs > length keys then Inl SCRIPT_ERR_SIG_COUNT
     else if \<not> ok \<and> SCRIPT_VERIFY_NULLFAIL flags \<and> list_ex (\<lambda>sig. sig \<noteq> []) sigs then Inl SCRIPT_ERR_SIG_NULLFAIL
     else if SCRIPT_VERIFY_NULLDUMMY flags \<and> dummy \<noteq> [] then Inl SCRIPT_ERR_SIG_NULLDUMMY
     else if opcode = OP_CHECKMULTISIGVERIFY then if ok then Inr (n + length keys, rest) else Inl SCRIPT_ERR_CHECKMULTISIGVERIFY
     else Inr (n + length keys, (if ok then vchTrue else vchFalse) # rest))"
proof -
  define pre where "pre = scriptnum_serialize (int (length keys)) # keys @ [scriptnum_serialize (int (length sigs))]"
  define st where "st = pre @ sigs @ dummy # rest"
  have st: "scriptnum_serialize (int (length keys)) # keys @ scriptnum_serialize (int (length sigs)) # sigs @ dummy # rest = st"
    by (simp add: st_def pre_def)
  have pre: "length pre = length keys + 2" by (simp add: pre_def)
  have len: "length st = length keys + length sigs + 3 + length rest" by (simp add: st_def pre)
  have n0: "st ! 0 = scriptnum_serialize (int (length keys))" and n1: "st ! Suc (length keys) = scriptnum_serialize (int (length sigs))"
    by (simp_all add: st_def pre_def nth_append)
  have sc: "foldl (\<lambda>sc k. if sigversion = SIGVERSION_BASE
      then fst (FindAndDelete sc (push_data [] (st ! (Suc (Suc (Suc (length keys))) + k - 1)))) else sc) code [0..<length sigs] = scriptCode"
    unfolding assms(4) by (rule multisig_code) (simp add: st_def nth_append pre)
  have loop: "multisig_loop flags checker sigversion scriptCode st (Suc (Suc (Suc (length keys)))) (length sigs) 2 (length keys) = Inr ok"
    if "length sigs \<le> length keys"
    unfolding assms(5) using that assms(3) by (intro multisig_loop_signed) (auto simp: st_def pre_def numeral_2_eq_2)
  have clean: "multisig_cleanup b flags (Suc (Suc (Suc (length keys + length sigs)))) (Suc (Suc (length keys))) st =
     (if \<not> b \<and> SCRIPT_VERIFY_NULLFAIL flags \<and> list_ex (\<lambda>sig. sig \<noteq> []) sigs then Inl SCRIPT_ERR_SIG_NULLFAIL else Inr (dummy # rest))" for b
    using multisig_cleanup_value [where pre = pre and sigs = sigs and rest = "dummy # rest", of b flags]
    by (simp add: st_def pre)
  have k: "\<bar>int (length keys)\<bar> < 2 ^ 31" "\<bar>int (length sigs)\<bar> < 2 ^ 31" using assms(1,2) by simp_all
  note [simp] = num_operand_serialize [OF k(1)] num_operand_serialize [OF k(2)] getint_small [OF k(1)] getint_small [OF k(2)]
  show ?thesis
    unfolding st using loop
    by (simp add: op_checkmultisig_def Let_def n0 n1 len sc multisig_finish_def clean) blast
qed

theorem checkmultisig_decides_witness:
  "op_checkmultisig OP_CHECKMULTISIG 0
     \<lparr>CheckSig = (\<lambda>sig key c v. sig = [7] \<and> key = [9]), CheckLockTime = (\<lambda>n. True), CheckSequence = (\<lambda>n. True), CheckLowS = (\<lambda>s. True)\<rparr>
     SIGVERSION_WITNESS_V0 [] 5 [[2], [8], [9], [1], [7], [], [6]] = Inr (7, [[1], [6]])"
proof -
  have n: "scriptnum_serialize 2 = [2]" "scriptnum_serialize 1 = [1]" by code_simp+
  show ?thesis
    using checkmultisig_decides [where keys = "[[8], [9]]" and sigs = "[[7]]" and flags = 0 and n = 5 and dummy = "[]" and rest = "[[6]]"
        and sigversion = SIGVERSION_WITNESS_V0 and code = "[]" and scriptCode = "[]" and opcode = OP_CHECKMULTISIG and
        checker = "\<lparr>CheckSig = (\<lambda>sig key c v. sig = [7] \<and> key = [9]), CheckLockTime = (\<lambda>n. True), CheckSequence = (\<lambda>n. True), CheckLowS = (\<lambda>s. True)\<rparr>", OF _ _ _ _ refl]
    by (simp add: n signed_Cons check_encodings_def CheckSignatureEncoding_def CheckPubKeyEncoding_def)
qed

end
