(* ===== verification/Sighash.thy ===== *)
theory Sighash
  imports Interpreter
begin

text \<open>
  What a signature signs, in \<^verbatim>\<open>src/script/interpreter.cpp\<close>: the wrapper that serialises a transaction with the modifications of a
  hash type, the hash of version 0 witness programs, and the checker built on them. The verification of an ECDSA signature
  against a public key and a hash, \<open>CPubKey::Verify\<close>, is an argument. The reference with which the unit test
  \<^verbatim>\<open>src/test/sighash_tests.cpp\<close> compares the wrapper, which modifies a copy of the transaction, is modelled too.
\<close>

section \<open>The script that is signed\<close>

text \<open>The script without its code separators. Where an instruction cannot be read, writing stops at the point the iterator has reached,
  which may lie inside the data of that instruction, although the size written before counts the whole script.\<close>

function count_separators :: "bytes \<Rightarrow> nat \<Rightarrow> nat" where
  "count_separators it n =
     (let (ok, opcode, dat, it') = GetOp2 it
      in if \<not> ok then n else count_separators it' (if opcode = OP_CODESEPARATOR then n + 1 else n))"
  by pat_completeness auto
termination by (relation "measure (\<lambda>(it, n). length it)") (auto dest: GetOp2_shrinks [OF sym])

declare count_separators.simps [simp del]

function write_pieces :: "bytes \<Rightarrow> bytes \<Rightarrow> bytes" where
  "write_pieces itBegin it =
     (let (ok, opcode, dat, it') = GetOp2 it
      in if \<not> ok then (if itBegin \<noteq> [] then between itBegin it' else [])
         else if opcode = OP_CODESEPARATOR then take (length itBegin - length it' - 1) itBegin @ write_pieces it' it'
         else write_pieces itBegin it')"
  by pat_completeness auto
termination by (relation "measure (\<lambda>(b, it). length it)") (auto dest: GetOp2_shrinks [OF sym])

declare write_pieces.simps [simp del]

definition SerializeScriptCode :: "bytes \<Rightarrow> bytes" where
  "SerializeScriptCode scriptCode =
     WriteCompactSize (word_of_nat (length scriptCode - count_separators scriptCode 0)) @ write_pieces scriptCode scriptCode"


section \<open>The transaction that is signed\<close>

abbreviation SIGHASH_NONE :: int where "SIGHASH_NONE \<equiv> 2"
abbreviation SIGHASH_SINGLE :: int where "SIGHASH_SINGLE \<equiv> 3"
abbreviation SIGHASH_ANYONECANPAY :: int where "SIGHASH_ANYONECANPAY \<equiv> 0x80"

definition fAnyoneCanPay :: "int \<Rightarrow> bool" where
  "fAnyoneCanPay nHashType \<longleftrightarrow> nHashType AND SIGHASH_ANYONECANPAY \<noteq> 0"

definition fHashSingle :: "int \<Rightarrow> bool" where
  "fHashSingle nHashType \<longleftrightarrow> nHashType AND 0x1f = SIGHASH_SINGLE"

definition fHashNone :: "int \<Rightarrow> bool" where
  "fHashNone nHashType \<longleftrightarrow> nHashType AND 0x1f = SIGHASH_NONE"

definition SerializeInput :: "CTransaction \<Rightarrow> bytes \<Rightarrow> nat \<Rightarrow> int \<Rightarrow> nat \<Rightarrow> bytes" where
  "SerializeInput tx scriptCode nIn nHashType nInput =
     (let nInput = (if fAnyoneCanPay nHashType then nIn else nInput)
      in ser_COutPoint (prevout (vin tx ! nInput)) @
         (if nInput \<noteq> nIn then ser_blob [] else SerializeScriptCode scriptCode) @
         (if nInput \<noteq> nIn \<and> (fHashSingle nHashType \<or> fHashNone nHashType) then ser_int32 0
          else ser_writedata32 (nSequence (vin tx ! nInput))))"

definition SerializeOutput :: "CTransaction \<Rightarrow> nat \<Rightarrow> int \<Rightarrow> nat \<Rightarrow> bytes" where
  "SerializeOutput tx nIn nHashType nOutput =
     (if fHashSingle nHashType \<and> nOutput \<noteq> nIn then ser_CTxOut CTxOut_null else ser_CTxOut (vout tx ! nOutput))"

definition signature_Serialize :: "CTransaction \<Rightarrow> bytes \<Rightarrow> nat \<Rightarrow> int \<Rightarrow> bytes" where
  "signature_Serialize tx scriptCode nIn nHashType =
     (let nInputs = (if fAnyoneCanPay nHashType then 1 else length (vin tx));
          nOutputs = (if fHashNone nHashType then 0 else if fHashSingle nHashType then nIn + 1 else length (vout tx))
      in ser_int32 (tx_nVersion tx) @
         WriteCompactSize (word_of_nat nInputs) @ concat (map (SerializeInput tx scriptCode nIn nHashType) [0..<nInputs]) @
         WriteCompactSize (word_of_nat nOutputs) @ concat (map (SerializeOutput tx nIn nHashType) [0..<nOutputs]) @
         ser_writedata32 (nLockTime tx))"

definition GetPrevoutHash :: "CTransaction \<Rightarrow> bytes" where
  "GetPrevoutHash tx = SerializeHash (concat (map (\<lambda>i. ser_COutPoint (prevout i)) (vin tx))) 4 0"

definition GetSequenceHash :: "CTransaction \<Rightarrow> bytes" where
  "GetSequenceHash tx = SerializeHash (concat (map (\<lambda>i. ser_writedata32 (nSequence i)) (vin tx))) 4 0"

definition GetOutputsHash :: "CTransaction \<Rightarrow> bytes" where
  "GetOutputsHash tx = SerializeHash (concat (map ser_CTxOut (vout tx))) 4 0"

record PrecomputedTransactionData =
  hashPrevouts :: bytes
  hashSequence :: bytes
  hashOutputs :: bytes

definition PrecomputedTransactionData_new :: "CTransaction \<Rightarrow> PrecomputedTransactionData" where
  "PrecomputedTransactionData_new tx =
     \<lparr>hashPrevouts = GetPrevoutHash tx, hashSequence = GetSequenceHash tx, hashOutputs = GetOutputsHash tx\<rparr>"

definition sighash_one :: bytes where
  "sighash_one = 1 # replicate 31 0"

text \<open>The hash for version 0 witness programs; None stands for the access outside the inputs.\<close>

definition witness_SignatureHash ::
  "bytes \<Rightarrow> CTransaction \<Rightarrow> nat \<Rightarrow> int \<Rightarrow> CAmount \<Rightarrow> PrecomputedTransactionData option \<Rightarrow> bytes option" where
  "witness_SignatureHash scriptCode tx nIn nHashType amount cache =
     (let prevouts = (if \<not> fAnyoneCanPay nHashType
                      then case cache of Some c \<Rightarrow> hashPrevouts c | None \<Rightarrow> GetPrevoutHash tx else uint256_null);
          sequences = (if \<not> fAnyoneCanPay nHashType \<and> \<not> fHashSingle nHashType \<and> \<not> fHashNone nHashType
                       then case cache of Some c \<Rightarrow> hashSequence c | None \<Rightarrow> GetSequenceHash tx else uint256_null);
          outputs = (if \<not> fHashSingle nHashType \<and> \<not> fHashNone nHashType
                     then case cache of Some c \<Rightarrow> hashOutputs c | None \<Rightarrow> GetOutputsHash tx
                     else if fHashSingle nHashType \<and> nIn < length (vout tx) then SerializeHash (ser_CTxOut (vout tx ! nIn)) 4 0
                     else uint256_null)
      in if nIn \<ge> length (vin tx) then None
         else Some (SerializeHash
           (ser_int32 (tx_nVersion tx) @ ser_uint256 prevouts @ ser_uint256 sequences @
            ser_COutPoint (prevout (vin tx ! nIn)) @ ser_blob scriptCode @ ser_int64 amount @
            ser_writedata32 (nSequence (vin tx ! nIn)) @ ser_uint256 outputs @ ser_writedata32 (nLockTime tx) @ ser_int32 nHashType) 4 0))"

definition SignatureHash ::
  "bytes \<Rightarrow> CTransaction \<Rightarrow> nat \<Rightarrow> int \<Rightarrow> CAmount \<Rightarrow> SigVersion \<Rightarrow> PrecomputedTransactionData option \<Rightarrow> bytes option" where
  "SignatureHash scriptCode tx nIn nHashType amount sigversion cache =
     (if sigversion = SIGVERSION_WITNESS_V0 then witness_SignatureHash scriptCode tx nIn nHashType amount cache
      else if nIn \<ge> length (vin tx) then Some sighash_one
      else if fHashSingle nHashType \<and> nIn \<ge> length (vout tx) then Some sighash_one
      else Some (SerializeHash (signature_Serialize tx scriptCode nIn nHashType @ ser_int32 nHashType) 4 0))"

section \<open>The checker of an input\<close>

definition GetLen :: "u8 \<Rightarrow> nat" where
  "GetLen chHeader = (if chHeader = 2 \<or> chHeader = 3 then 33 else if chHeader = 4 \<or> chHeader = 6 \<or> chHeader = 7 then 65 else 0)"

definition pubkey_IsValid :: "bytes \<Rightarrow> bool" where
  "pubkey_IsValid dat \<longleftrightarrow> dat \<noteq> [] \<and> GetLen (dat ! 0) \<noteq> 0 \<and> GetLen (dat ! 0) = length dat"

definition tx_CheckSig ::
  "(bytes \<Rightarrow> bytes \<Rightarrow> bytes \<Rightarrow> bool) \<Rightarrow> CTransaction \<Rightarrow> nat \<Rightarrow> CAmount \<Rightarrow> PrecomputedTransactionData option \<Rightarrow>
   bytes \<Rightarrow> bytes \<Rightarrow> bytes \<Rightarrow> SigVersion \<Rightarrow> bool" where
  "tx_CheckSig Verify tx nIn amount txdata sig key scriptCode sigversion =
     (if \<not> pubkey_IsValid key then False
      else if sig = [] then False
      else case SignatureHash scriptCode tx nIn (uint (last sig)) amount sigversion txdata of
             None \<Rightarrow> False
           | Some sighash \<Rightarrow> Verify key sighash (butlast sig))"

definition tx_CheckLockTime :: "CTransaction \<Rightarrow> nat \<Rightarrow> int \<Rightarrow> bool" where
  "tx_CheckLockTime tx nIn n =
     (let l = uint (nLockTime tx)
      in if \<not> ((l < LOCKTIME_THRESHOLD \<and> n < LOCKTIME_THRESHOLD) \<or> (l \<ge> LOCKTIME_THRESHOLD \<and> n \<ge> LOCKTIME_THRESHOLD)) then False
         else if n > l then False
         else if SEQUENCE_FINAL = nSequence (vin tx ! nIn) then False
         else True)"

definition tx_CheckSequence :: "CTransaction \<Rightarrow> nat \<Rightarrow> int \<Rightarrow> bool" where
  "tx_CheckSequence tx nIn n =
     (let txToSequence = uint (nSequence (vin tx ! nIn)); type_flag = 2 ^ 22 :: int; mask = type_flag OR 0xffff;
          txMasked = txToSequence AND mask; nMasked = n AND mask
      in if (word_of_int (tx_nVersion tx) :: u32) < 2 then False
         else if txToSequence AND 2 ^ 31 \<noteq> 0 then False
         else if \<not> ((txMasked < type_flag \<and> nMasked < type_flag) \<or> (txMasked \<ge> type_flag \<and> nMasked \<ge> type_flag)) then False
         else if nMasked > txMasked then False
         else True)"

definition TransactionSignatureChecker ::
  "(bytes \<Rightarrow> bytes \<Rightarrow> bytes \<Rightarrow> bool) \<Rightarrow> (bytes \<Rightarrow> bool) \<Rightarrow> CTransaction \<Rightarrow> nat \<Rightarrow> CAmount \<Rightarrow> PrecomputedTransactionData option \<Rightarrow>
   BaseSignatureChecker" where
  "TransactionSignatureChecker Verify lowS tx nIn amount txdata =
     \<lparr>CheckSig = tx_CheckSig Verify tx nIn amount txdata, CheckLockTime = tx_CheckLockTime tx nIn,
      CheckSequence = tx_CheckSequence tx nIn, CheckLowS = lowS\<rparr>"

section \<open>The reference of the unit test\<close>

definition sighash_copy :: "bytes \<Rightarrow> CTransaction \<Rightarrow> nat \<Rightarrow> int \<Rightarrow> CTransaction" where
  "sighash_copy scriptCode tx nIn nHashType =
     (let scriptCode = fst (FindAndDelete scriptCode [word_of_nat OP_CODESEPARATOR]);
          tx = tx\<lparr>vin := (map (\<lambda>i. i\<lparr>scriptSig := []\<rparr>) (vin tx))[nIn := (vin tx ! nIn)\<lparr>scriptSig := scriptCode\<rparr>]\<rparr>;
          others = (\<lambda>tx. tx\<lparr>vin := map (\<lambda>k. if k \<noteq> nIn then (vin tx ! k)\<lparr>nSequence := 0\<rparr> else vin tx ! k) [0..<length (vin tx)]\<rparr>);
          tx = (if fHashNone nHashType then others (tx\<lparr>vout := []\<rparr>)
                else if fHashSingle nHashType
                then others (tx\<lparr>vout := replicate nIn CTxOut_null @ [vout tx ! nIn]\<rparr>)
                else tx)
      in if fAnyoneCanPay nHashType then tx\<lparr>vin := [vin tx ! nIn]\<rparr> else tx)"

definition SignatureHashOld :: "bytes \<Rightarrow> CTransaction \<Rightarrow> nat \<Rightarrow> int \<Rightarrow> bytes" where
  "SignatureHashOld scriptCode tx nIn nHashType =
     (if nIn \<ge> length (vin tx) then sighash_one
      else if \<not> fHashNone nHashType \<and> fHashSingle nHashType \<and> nIn \<ge> length (vout tx) then sighash_one
      else SerializeHash (SerializeTransaction SERIALIZE_TRANSACTION_NO_WITNESS (sighash_copy scriptCode tx nIn nHashType) @
             ser_int32 nHashType) 4 SERIALIZE_TRANSACTION_NO_WITNESS)"

section \<open>The wrapper serialises the modified copy\<close>

text \<open>The script without the code separators among its instructions, and whether all its instructions can be read.\<close>

function strip_separators :: "bytes \<Rightarrow> bytes" where
  "strip_separators it =
     (let (ok, opcode, dat, it') = GetOp2 it
      in if \<not> ok then it else if opcode = OP_CODESEPARATOR then strip_separators it' else between it it' @ strip_separators it')"
  by pat_completeness auto
termination by (relation "measure length") (auto dest: GetOp2_shrinks [OF sym])

function readable :: "bytes \<Rightarrow> bool" where
  "readable it = (let (ok, opcode, dat, it') = GetOp2 it in if \<not> ok then it = [] else readable it')"
  by pat_completeness auto
termination by (relation "measure length") (auto dest: GetOp2_shrinks [OF sym])

declare strip_separators.simps [simp del] readable.simps [simp del]

lemma GetOp2_suffix: "GetOp2 it = (True, opcode, dat, it') \<Longrightarrow> it = between it it' @ it'"
proof -
  assume "GetOp2 it = (True, opcode, dat, it')"
  then have "suffix it' it"
    by (auto simp: GetOp2_def push_size_def Let_def suffix_drop intro: suffix_ConsI suffix_order.trans
        split: list.splits if_splits option.splits)
  then show ?thesis by (auto simp: suffix_def between_def)
qed

lemma GetOp2_Nil [simp]: "GetOp2 [] = (False, OP_INVALIDOPCODE, [], [])"
  by (simp add: GetOp2_def)

lemma GetOp2_separator: "GetOp2 it = (True, OP_CODESEPARATOR, dat, it') \<longleftrightarrow> it = 0xab # it' \<and> dat = []"
  by (auto simp: GetOp2_def Let_def push_size_def word_unat_eq_iff split: list.splits if_splits option.splits)

lemma strip_step:
  "GetOp2 it = (True, opcode, dat, it') \<Longrightarrow>
   strip_separators it = (if opcode = OP_CODESEPARATOR then strip_separators it' else between it it' @ strip_separators it')"
  by (subst strip_separators.simps) simp

lemma strip_stop: "GetOp2 it = (False, r) \<Longrightarrow> strip_separators it = it"
  by (subst strip_separators.simps) (cases r, simp)

lemma count_step:
  "GetOp2 it = (True, opcode, dat, it') \<Longrightarrow> count_separators it n = count_separators it' (if opcode = OP_CODESEPARATOR then n + 1 else n)"
  by (subst count_separators.simps) simp

lemma count_stop: "GetOp2 it = (False, r) \<Longrightarrow> count_separators it n = n"
  by (subst count_separators.simps) (cases r, simp)

text \<open>Induction along the instructions of a script.\<close>

lemma script_induct [case_names stop step]:
  assumes "\<And>it r. GetOp2 it = (False, r) \<Longrightarrow> P it"
    and "\<And>it opcode dat it'. GetOp2 it = (True, opcode, dat, it') \<Longrightarrow> P it' \<Longrightarrow> P it"
  shows "P it"
proof (induction it rule: measure_induct_rule [of length])
  case (less it)
  obtain ok opcode dat it' where g: "GetOp2 it = (ok, opcode, dat, it')" by (cases "GetOp2 it")
  show ?case
  proof (cases ok)
    case True
    then show ?thesis using assms(2) [of it opcode dat it'] less [of it'] g GetOp2_shrinks [of it opcode dat it'] by simp
  next
    case False
    then show ?thesis using assms(1) [of it] g by simp
  qed
qed

lemma count_strip: "count_separators it n + length (strip_separators it) = n + length it"
proof (induction it arbitrary: n rule: script_induct)
  case (stop it r)
  then show ?case by (simp add: count_stop strip_stop)
next
  case (step it opcode dat it')
  then have "length (between it it') + length it' = length it"
    using GetOp2_suffix [OF step(1)] by (metis length_append)
  then show ?case using step(2) [of n] step(2) [of "n + 1"] GetOp2_separator [of it dat it'] step(1)
    by (auto simp: strip_step [OF step(1)] count_step [OF step(1)])
qed

lemma write_pieces_strip: "readable it \<Longrightarrow> write_pieces (pre @ it) it = pre @ strip_separators it"
proof (induction it arbitrary: pre rule: script_induct)
  case (stop it r)
  then have "it = []" by (subst (asm) readable.simps) (cases r, simp)
  then show ?case by (subst write_pieces.simps) (simp add: between_def strip_stop)
next
  case (step it opcode dat it')
  have r: "readable it'" using step(1,3) by (subst (asm) readable.simps) simp
  have it: "it = between it it' @ it'" by (rule GetOp2_suffix [OF step(1)])
  show ?case
  proof (cases "opcode = OP_CODESEPARATOR")
    case True
    then have "it = 0xab # it'" using step(1) GetOp2_separator by auto
    moreover have "strip_separators it = strip_separators it'" by (simp add: strip_step [OF step(1)] True)
    ultimately show ?thesis using step(1) True step(2) [OF r, of "[]"] by (subst write_pieces.simps) simp
  next
    case False
    have "write_pieces (pre @ it) it' = (pre @ between it it') @ strip_separators it'"
      using step(2) [OF r, of "pre @ between it it'"] it by simp
    then show ?thesis using step(1) False
      by (subst write_pieces.simps) (simp add: strip_step [OF step(1)])
  qed
qed

lemma delete_separators:
  assumes "delete_all [0xab] pc n = (pc', n')"
  shows "strip_separators pc = strip_separators pc' \<and> count_separators pc n = count_separators pc' n' \<and>
    (fst (GetOp2 pc') \<longrightarrow> fst (snd (GetOp2 pc')) \<noteq> OP_CODESEPARATOR)"
  using assms
proof (induction pc arbitrary: n)
  case (Cons x pc)
  show ?case
  proof (cases "x = 0xab")
    case True
    then have g: "GetOp2 (x # pc) = (True, OP_CODESEPARATOR, [], pc)" by (simp add: GetOp2_separator)
    have "delete_all [0xab] pc (n + 1) = (pc', n')" using Cons.prems True by (subst (asm) delete_all.simps) simp
    then show ?thesis using Cons.IH by (simp add: strip_step [OF g] count_step [OF g])
  next
    case False
    then have "pc' = x # pc" "n' = n" using Cons.prems by (simp_all add: delete_all.simps)
    moreover have "fst (snd (GetOp2 (x # pc))) \<noteq> OP_CODESEPARATOR" if "fst (GetOp2 (x # pc))"
      using that False GetOp2_separator [of "x # pc"] by (cases "GetOp2 (x # pc)") auto
    ultimately show ?thesis by simp
  qed
qed (simp add: delete_all.simps)

lemma find_delete_strip:
  "pc2 = mid @ pc \<Longrightarrow> find_delete_loop [0xab] pc2 pc result n = (result', rest, n') \<Longrightarrow>
   result' @ rest = result @ mid @ strip_separators pc \<and> n' = count_separators pc n"
proof (induction pc arbitrary: pc2 mid result n rule: measure_induct_rule [of length])
  case (less pc)
  obtain pc' n1 where d: "delete_all [0xab] pc n = (pc', n1)" by (cases "delete_all [0xab] pc n")
  obtain ok opcode dat it where g: "GetOp2 pc' = (ok, opcode, dat, it)" by (cases "GetOp2 pc'")
  have b: "between pc2 pc = mid" using less(2) by (simp add: between_def)
  note s = delete_separators [OF d]
  show ?case
  proof (cases ok)
    case True
    then have g: "GetOp2 pc' = (True, opcode, dat, it)" using g by simp
    have "length it < length pc" using GetOp2_shrinks [OF g] delete_all_length [of "[0xab]" pc n] d by simp
    moreover have "find_delete_loop [0xab] pc' it (result @ mid) n1 = (result', rest, n')"
      using less(3) by (subst (asm) find_delete_loop.simps) (simp add: d g b)
    ultimately have "result' @ rest = (result @ mid) @ between pc' it @ strip_separators it \<and> n' = count_separators it n1"
      using GetOp2_suffix [OF g] by (intro less(1)) simp_all
    then show ?thesis using s g by (simp add: strip_step [OF g] count_step [OF g])
  next
    case False
    then have "(result', rest, n') = (result @ mid, pc', n1)"
      using less(3) by (subst (asm) find_delete_loop.simps) (simp add: d g b)
    then show ?thesis using s g False by (simp add: strip_stop count_stop)
  qed
qed

lemma count_ge: "n \<le> count_separators it n"
proof (induction it arbitrary: n rule: script_induct)
  case (step it opcode dat it')
  then show ?case using step(2) [of n] Suc_leD [OF step(2) [of "Suc n"]] by (simp add: count_step [OF step(1)])
qed (simp add: count_stop)

lemma strip_none: "count_separators it n = n \<Longrightarrow> strip_separators it = it"
proof (induction it rule: script_induct)
  case (step it opcode dat it')
  have "opcode \<noteq> OP_CODESEPARATOR" using step(3) count_ge [of "n + 1" it'] by (auto simp: count_step [OF step(1)])
  then show ?case using step GetOp2_suffix [OF step(1)] by (simp add: strip_step [OF step(1)] count_step [OF step(1)])
qed (simp add: strip_stop)

lemma FindAndDelete_separators: "fst (FindAndDelete script [0xab]) = strip_separators script"
proof -
  obtain result rest n where l: "find_delete_loop [0xab] script script [] 0 = (result, rest, n)"
    by (cases "find_delete_loop [0xab] script script [] 0")
  then have r: "result @ rest = strip_separators script" "n = count_separators script 0"
    using find_delete_strip [of script "[]" script "[]" 0] by simp_all
  have "strip_separators script = script" if "n = 0"
    using strip_none [of script 0] that r(2) by simp
  with l r show ?thesis by (auto simp: FindAndDelete_def)
qed

lemma SerializeScriptCode_blob:
  assumes "readable scriptCode"
  shows "SerializeScriptCode scriptCode = ser_blob (strip_separators scriptCode)"
proof -
  have "length scriptCode - count_separators scriptCode 0 = length (strip_separators scriptCode)"
    using count_strip [of scriptCode 0] by simp
  then show ?thesis using write_pieces_strip [OF assms, of "[]"] by (simp add: SerializeScriptCode_def ser_blob_def)
qed

lemma serialize_without_witness:
  "SerializeTransaction SERIALIZE_TRANSACTION_NO_WITNESS t =
     ser_int32 (tx_nVersion t) @ ser_vector ser_CTxIn (vin t) @ ser_vector ser_CTxOut (vout t) @ ser_writedata32 (nLockTime t)"
  by (simp add: SerializeTransaction_def)

lemma ser_zero: "ser_int32 0 = ser_writedata32 0"
  by (simp add: ser_int32_def)

lemma single_not_none: "fHashSingle ht \<Longrightarrow> \<not> fHashNone ht"
  by (simp add: fHashSingle_def fHashNone_def)

text \<open>An input of the copy, before all but one are dropped.\<close>

definition copied_input :: "bytes \<Rightarrow> CTransaction \<Rightarrow> nat \<Rightarrow> int \<Rightarrow> nat \<Rightarrow> CTxIn" where
  "copied_input scriptCode tx nIn ht k =
     (if k = nIn then (vin tx ! k)\<lparr>scriptSig := strip_separators scriptCode\<rparr>
      else if fHashSingle ht \<or> fHashNone ht then (vin tx ! k)\<lparr>scriptSig := [], nSequence := 0\<rparr>
      else (vin tx ! k)\<lparr>scriptSig := []\<rparr>)"

lemma ser_copied_input:
  assumes "readable scriptCode"
  shows "ser_CTxIn (copied_input scriptCode tx nIn ht (if fAnyoneCanPay ht then nIn else k)) = SerializeInput tx scriptCode nIn ht k"
  by (simp add: copied_input_def ser_CTxIn_def SerializeInput_def SerializeScriptCode_blob [OF assms] ser_zero)

lemma sighash_copy_parts:
  assumes "nIn < length (vin tx)"
  shows "vin (sighash_copy scriptCode tx nIn ht) =
      (if fAnyoneCanPay ht then [copied_input scriptCode tx nIn ht nIn] else map (copied_input scriptCode tx nIn ht) [0..<length (vin tx)])"
    "vout (sighash_copy scriptCode tx nIn ht) =
      (if fHashNone ht then [] else if fHashSingle ht then replicate nIn CTxOut_null @ [vout tx ! nIn] else vout tx)"
    "tx_nVersion (sighash_copy scriptCode tx nIn ht) = tx_nVersion tx" "nLockTime (sighash_copy scriptCode tx nIn ht) = nLockTime tx"
  using assms
  by (auto simp: sighash_copy_def Let_def copied_input_def FindAndDelete_separators nth_list_update intro!: nth_equalityI)

text \<open>C12: The wrapper that serialises a transaction for signing writes exactly the bytes of the modified copy with which the unit test
  compares it, and the two hashes agree, for every hash type and every script whose instructions can all be read.\<close>

theorem signature_hash_reference:
  assumes "readable scriptCode"
  shows "SignatureHash scriptCode tx nIn nHashType amount SIGVERSION_BASE cache = Some (SignatureHashOld scriptCode tx nIn nHashType)"
proof (cases "nIn < length (vin tx) \<and> (fHashSingle nHashType \<longrightarrow> nIn < length (vout tx))")
  case True
  let ?copy = "sighash_copy scriptCode tx nIn nHashType"
  have "map ser_CTxIn (vin ?copy) =
      map (SerializeInput tx scriptCode nIn nHashType) [0..<if fAnyoneCanPay nHashType then 1 else length (vin tx)]"
    using True ser_copied_input [OF assms, of tx nIn nHashType]
    by (intro nth_equalityI) (auto simp: sighash_copy_parts(1) split: if_splits)
  moreover have "map ser_CTxOut (vout ?copy) = map (SerializeOutput tx nIn nHashType)
      [0..<if fHashNone nHashType then 0 else if fHashSingle nHashType then nIn + 1 else length (vout tx)]"
    using True by (intro nth_equalityI) (auto simp: sighash_copy_parts(2) SerializeOutput_def nth_append)
  ultimately have "signature_Serialize tx scriptCode nIn nHashType = SerializeTransaction SERIALIZE_TRANSACTION_NO_WITNESS ?copy"
    using True by (simp add: signature_Serialize_def serialize_without_witness sighash_copy_parts ser_vector_def Let_def)
  then show ?thesis using True by (auto simp: SignatureHash_def SignatureHashOld_def SerializeHash_eq)
next
  case False
  then show ?thesis using single_not_none [of nHashType] by (auto simp: SignatureHash_def SignatureHashOld_def)
qed

theorem signature_hash_reference_witness:
  "SignatureHash [0x76, 0xab, 0xac]
     \<lparr>tx_nVersion = 1, vin = [\<lparr>prevout = COutPoint_null, scriptSig = [], nSequence = 7, scriptWitness = []\<rparr>], vout = [], nLockTime = 0\<rparr>
     0 2 0 SIGVERSION_BASE None =
   Some (SignatureHashOld [0x76, 0xab, 0xac]
     \<lparr>tx_nVersion = 1, vin = [\<lparr>prevout = COutPoint_null, scriptSig = [], nSequence = 7, scriptWitness = []\<rparr>], vout = [], nLockTime = 0\<rparr>
     0 2)"
proof -
  have "readable [0x76, 0xab, 0xac]" by code_simp
  then show ?thesis by (rule signature_hash_reference)
qed

text \<open>A script that ends inside the data of a push is not written in full, although its size is.\<close>

lemma unreadable_script_code: "SerializeScriptCode [2, 5] = [2, 2]"
  by code_simp

end
