(* ===== verification/Spending.thy ===== *)
theory Spending
  imports Interpreter
begin

text \<open>
  The end of \<^verbatim>\<open>src/script/interpreter.cpp\<close>: when the script and the witness of an input satisfy the script of the output it
  spends. The result of \<open>VerifyScript\<close> is the error it sets, \<open>SCRIPT_ERR_OK\<close> if it returns true;
  None stands for a failed assertion.
\<close>

section \<open>Witness programs\<close>

text \<open>The script \<open>OP_DUP OP_HASH160 program OP_EQUALVERIFY OP_CHECKSIG\<close>.\<close>

definition pay_to_pubkey_hash :: "bytes \<Rightarrow> bytes" where
  "pay_to_pubkey_hash program =
     push_data [word_of_nat OP_DUP, word_of_nat OP_HASH160] program @ [word_of_nat OP_EQUALVERIFY, word_of_nat OP_CHECKSIG]"

definition run_witness :: "bytes \<Rightarrow> bytes list \<Rightarrow> u32 \<Rightarrow> BaseSignatureChecker \<Rightarrow> ScriptError" where
  "run_witness script items flags checker =
     (if list_ex (\<lambda>x. length x > MAX_SCRIPT_ELEMENT_SIZE) items then SCRIPT_ERR_PUSH_SIZE
      else case EvalScript (rev items) script flags checker SIGVERSION_WITNESS_V0 of
             Inl e \<Rightarrow> e
           | Inr st \<Rightarrow>
               if length st \<noteq> 1 then SCRIPT_ERR_EVAL_FALSE
               else if \<not> CastToBool (st ! 0) then SCRIPT_ERR_EVAL_FALSE
               else SCRIPT_ERR_OK)"

definition VerifyWitnessProgram :: "bytes list \<Rightarrow> int \<Rightarrow> bytes \<Rightarrow> u32 \<Rightarrow> BaseSignatureChecker \<Rightarrow> ScriptError" where
  "VerifyWitnessProgram witness witversion program flags checker =
     (if witversion = 0
      then if length program = 32
           then if length witness = 0 then SCRIPT_ERR_WITNESS_PROGRAM_WITNESS_EMPTY
                else let script = last witness;
                         hashScriptPubKey = fst (CSHA256_Finalize (CSHA256_Write (CSHA256_new (replicate 64 0)) script))
                     in if memcmp hashScriptPubKey program \<noteq> 0 then SCRIPT_ERR_WITNESS_PROGRAM_MISMATCH
                        else run_witness script (butlast witness) flags checker
           else if length program = 20
           then if length witness \<noteq> 2 then SCRIPT_ERR_WITNESS_PROGRAM_MISMATCH
                else run_witness (pay_to_pubkey_hash program) witness flags checker
           else SCRIPT_ERR_WITNESS_PROGRAM_WRONG_LENGTH
      else if SCRIPT_VERIFY_DISCOURAGE_UPGRADABLE_WITNESS_PROGRAM flags then SCRIPT_ERR_DISCOURAGE_UPGRADABLE_WITNESS_PROGRAM
      else SCRIPT_ERR_OK)"

section \<open>Spending an output\<close>

text \<open>Whether there was a witness program, and the stack, cut down to its bottom item if there was.\<close>

definition verify_program ::
  "bytes \<Rightarrow> bool \<Rightarrow> ScriptError \<Rightarrow> bytes list \<Rightarrow> u32 \<Rightarrow> BaseSignatureChecker \<Rightarrow> bool \<Rightarrow> stack \<Rightarrow> ScriptError + (bool \<times> stack)" where
  "verify_program script malleated malleated_error witness flags checker hadWitness st =
     (if SCRIPT_VERIFY_WITNESS flags
      then case IsWitnessProgram script of
             None \<Rightarrow> Inr (hadWitness, st)
           | Some (version, program) \<Rightarrow>
               if malleated then Inl malleated_error
               else let e = VerifyWitnessProgram witness version program flags checker
                    in if e \<noteq> SCRIPT_ERR_OK then Inl e else Inr (True, [last st])
      else Inr (hadWitness, st))"

text \<open>The serialised script on top of the stack left by the input's script is run on the rest of it.\<close>

definition verify_p2sh ::
  "bytes \<Rightarrow> bytes list \<Rightarrow> u32 \<Rightarrow> BaseSignatureChecker \<Rightarrow> bool \<Rightarrow> stack \<Rightarrow> (ScriptError + (bool \<times> stack)) option" where
  "verify_p2sh sig witness flags checker hadWitness stackCopy =
     (if \<not> IsPushOnly sig then Some (Inl SCRIPT_ERR_SIG_PUSHONLY)
      else case stackCopy of
             [] \<Rightarrow> None
           | pubKey2 # st \<Rightarrow>
               Some (case EvalScript st pubKey2 flags checker SIGVERSION_BASE of
                       Inl e \<Rightarrow> Inl e
                     | Inr st \<Rightarrow>
                         if st = [] then Inl SCRIPT_ERR_EVAL_FALSE
                         else if \<not> CastToBool (st ! 0) then Inl SCRIPT_ERR_EVAL_FALSE
                         else verify_program pubKey2 (sig \<noteq> push_data [] pubKey2) SCRIPT_ERR_WITNESS_MALLEATED_P2SH
                                witness flags checker hadWitness st))"

definition verify_finish :: "bytes list \<Rightarrow> u32 \<Rightarrow> bool \<Rightarrow> stack \<Rightarrow> ScriptError option" where
  "verify_finish witness flags hadWitness st =
     (if SCRIPT_VERIFY_CLEANSTACK flags \<and> \<not> (SCRIPT_VERIFY_P2SH flags \<and> SCRIPT_VERIFY_WITNESS flags) then None
      else if SCRIPT_VERIFY_CLEANSTACK flags \<and> length st \<noteq> 1 then Some SCRIPT_ERR_CLEANSTACK
      else if SCRIPT_VERIFY_WITNESS flags \<and> \<not> SCRIPT_VERIFY_P2SH flags then None
      else if SCRIPT_VERIFY_WITNESS flags \<and> \<not> hadWitness \<and> witness \<noteq> [] then Some SCRIPT_ERR_WITNESS_UNEXPECTED
      else Some SCRIPT_ERR_OK)"

definition VerifyScript :: "bytes \<Rightarrow> bytes \<Rightarrow> bytes list option \<Rightarrow> u32 \<Rightarrow> BaseSignatureChecker \<Rightarrow> ScriptError option" where
  "VerifyScript sig key witness flags checker =
     (let witness = (case witness of None \<Rightarrow> [] | Some w \<Rightarrow> w)
      in if SCRIPT_VERIFY_SIGPUSHONLY flags \<and> \<not> IsPushOnly sig then Some SCRIPT_ERR_SIG_PUSHONLY
      else case EvalScript [] sig flags checker SIGVERSION_BASE of
        Inl e \<Rightarrow> Some e
      | Inr stackCopy \<Rightarrow>
          (case EvalScript stackCopy key flags checker SIGVERSION_BASE of
             Inl e \<Rightarrow> Some e
           | Inr st \<Rightarrow>
               if st = [] then Some SCRIPT_ERR_EVAL_FALSE
               else if \<not> CastToBool (st ! 0) then Some SCRIPT_ERR_EVAL_FALSE
               else case verify_program key (length sig \<noteq> 0) SCRIPT_ERR_WITNESS_MALLEATED witness flags checker False st of
                 Inl e \<Rightarrow> Some e
               | Inr (hadWitness, st) \<Rightarrow>
                   (case (if SCRIPT_VERIFY_P2SH flags \<and> IsPayToScriptHash key
                          then verify_p2sh sig witness flags checker hadWitness stackCopy else Some (Inr (hadWitness, st))) of
                      None \<Rightarrow> None
                    | Some (Inl e) \<Rightarrow> Some e
                    | Some (Inr (hadWitness, st)) \<Rightarrow> verify_finish witness flags hadWitness st)))"

definition WitnessSigOps :: "int \<Rightarrow> bytes \<Rightarrow> bytes list \<Rightarrow> nat" where
  "WitnessSigOps witversion witprogram witness =
     (if witversion = 0 \<and> length witprogram = 20 then 1
      else if witversion = 0 \<and> length witprogram = 32 \<and> length witness > 0 then GetSigOpCount (last witness) True
      else 0)"

text \<open>The data of the last instruction; the loop runs only over scripts of pushes, in which every instruction can be read.\<close>

function last_instruction :: "bytes \<Rightarrow> bytes \<Rightarrow> bytes" where
  "last_instruction pc dat =
     (let (ok, opcode, dat', pc') = GetOp2 pc in if pc = [] \<or> \<not> ok then dat else last_instruction pc' dat')"
  by pat_completeness auto
termination by (relation "measure (\<lambda>(pc, d). length pc)") (auto dest: GetOp2_shrinks [OF sym])

declare last_instruction.simps [simp del]

definition CountWitnessSigOps :: "bytes \<Rightarrow> bytes \<Rightarrow> bytes list option \<Rightarrow> u32 \<Rightarrow> nat option" where
  "CountWitnessSigOps sig key witness flags =
     (let witness = (case witness of None \<Rightarrow> [] | Some w \<Rightarrow> w)
      in if \<not> SCRIPT_VERIFY_WITNESS flags then Some 0
      else if \<not> SCRIPT_VERIFY_P2SH flags then None
      else case IsWitnessProgram key of
        Some (version, program) \<Rightarrow> Some (WitnessSigOps version program witness)
      | None \<Rightarrow>
          if IsPayToScriptHash key \<and> IsPushOnly sig
          then case IsWitnessProgram (last_instruction sig []) of
                 Some (version, program) \<Rightarrow> Some (WitnessSigOps version program witness)
               | None \<Rightarrow> Some 0
          else Some 0)"

section \<open>An error is never success\<close>

definition real_error :: "ScriptError + 'a \<Rightarrow> bool" where
  "real_error r \<longleftrightarrow> r \<noteq> Inl SCRIPT_ERR_OK"

named_theorems real_error_intros

lemma real_error_Inr [real_error_intros]: "real_error (Inr x)"
  by (simp add: real_error_def)

lemma real_error_Inl [real_error_intros]: "e \<noteq> SCRIPT_ERR_OK \<Longrightarrow> real_error (Inl e)"
  by (simp add: real_error_def)

lemma real_error_if [real_error_intros]: "real_error a \<Longrightarrow> real_error b \<Longrightarrow> real_error (if c then a else b)"
  by simp

lemma real_error_map_sum [real_error_intros]: "real_error r \<Longrightarrow> real_error (map_sum id f r)"
  by (cases r) (simp_all add: real_error_def)

lemma real_error_on_stack [real_error_intros]: "real_error r \<Longrightarrow> real_error (on_stack s r)"
  unfolding on_stack_def by (rule real_error_map_sum)

lemma real_error_case_sum [real_error_intros]:
  "real_error r \<Longrightarrow> (\<And>x. real_error (f x)) \<Longrightarrow> real_error (case r of Inl e \<Rightarrow> Inl e | Inr x \<Rightarrow> f x)"
  by (cases r) (simp_all add: real_error_def)

lemma real_error_list [real_error_intros]:
  "real_error a \<Longrightarrow> (\<And>x xs. real_error (f x xs)) \<Longrightarrow> real_error (case l of [] \<Rightarrow> a | x # xs \<Rightarrow> f x xs)"
  by (cases l) simp_all

lemma real_error_option [real_error_intros]:
  "real_error a \<Longrightarrow> (\<And>x. l = Some x \<Longrightarrow> real_error (f x)) \<Longrightarrow> real_error (case l of None \<Rightarrow> a | Some x \<Rightarrow> f x)"
  by (cases l) simp_all

lemma real_error_pair [real_error_intros]: "(\<And>x y. real_error (f x y)) \<Longrightarrow> real_error (case p of (x, y) \<Rightarrow> f x y)"
  by (cases p) simp

lemma real_error_num_operand [real_error_intros]: "(\<And>n. real_error (f n)) \<Longrightarrow> real_error (num_operand minimal k dat f)"
  by (simp add: num_operand_def real_error_def split: option.splits)

lemma encodings_real: "check_encodings checker sig key flags v \<noteq> Some SCRIPT_ERR_OK"
  by (auto simp: check_encodings_def CheckSignatureEncoding_def CheckPubKeyEncoding_def IsLowDERSignature_def split: option.splits)

lemma real_error_multisig_loop [real_error_intros]: "real_error (multisig_loop flags checker v code st isig nSigs ikey nKeys)"
proof (induction flags checker v code st isig nSigs ikey nKeys rule: multisig_loop.induct)
  case (1 flags checker v code st isig nSigs ikey nKeys)
  then show ?case using encodings_real
    by (subst multisig_loop.simps) (auto simp: Let_def real_error_def split: option.splits)
qed

lemma real_error_multisig_cleanup [real_error_intros]: "real_error (multisig_cleanup b flags i ikey2 st)"
proof (induction b flags i ikey2 st rule: multisig_cleanup.induct)
  case (1 b flags i ikey2 st)
  then show ?case by (subst multisig_cleanup.simps) (auto intro!: real_error_intros)
qed

lemma real_error_ops [real_error_intros]:
  "real_error (op_checklocktime flags checker st)" "real_error (op_checksequence flags checker st)" "real_error (op_if opcode flags v st)"
  "real_error (op_pick_roll opcode m st)" "real_error (op_equal opcode st)" "real_error (op_unary opcode m st)"
  "real_error (op_binary opcode m st)" "real_error (op_within m st)" "real_error (op_hash opcode st)"
  "real_error (multisig_finish opcode flags b i k st)"
  unfolding op_checklocktime_def op_checksequence_def op_if_def op_pick_roll_def op_equal_def op_unary_def op_binary_def
    op_within_def op_hash_def multisig_finish_def Let_def
  by (intro real_error_intros; simp)+

lemma real_error_checksig [real_error_intros]: "real_error (op_checksig opcode flags checker v code st)"
  unfolding op_checksig_def Let_def by (intro real_error_intros) (use encodings_real in auto)

lemma real_error_checkmultisig [real_error_intros]: "real_error (op_checkmultisig opcode flags checker v code n st)"
  unfolding op_checkmultisig_def Let_def by (intro real_error_intros) simp_all

lemma real_error_stack_op [real_error_intros]: "real_error (stack_op opcode m st alt)"
  unfolding stack_op_def Let_def by (intro real_error_intros) simp_all

lemma real_error_exec [real_error_intros]: "real_error (exec_opcode flags checker v opcode fExec s)"
  unfolding exec_opcode_def Let_def by (intro real_error_intros) simp_all

lemma real_error_step [real_error_intros]: "real_error (eval_step flags checker v s)"
  unfolding eval_step_def exec_instruction_def Let_def by (intro real_error_intros) simp_all

lemma real_error_loop [real_error_intros]: "real_error (eval_loop flags checker v s)"
proof (induction flags checker v s rule: eval_loop.induct)
  case (1 flags checker v s)
  then show ?case using real_error_step [of flags checker v s]
    by (subst eval_loop.simps) (auto simp: real_error_def split: sum.splits)
qed

lemma real_error_EvalScript: "real_error (EvalScript st script flags checker v)"
  unfolding EvalScript_def by (intro real_error_intros) simp_all

lemmas EvalScript_not_ok = real_error_EvalScript [unfolded real_error_def]

section \<open>Running a script\<close>

lemma eval_loop_more:
  "es_pc s \<noteq> [] \<Longrightarrow>
   eval_loop flags checker v s = (case eval_step flags checker v s of Inl e \<Rightarrow> Inl e | Inr s \<Rightarrow> eval_loop flags checker v s)"
  by (subst eval_loop.simps) simp

lemma eval_loop_done: "es_pc s = [] \<Longrightarrow> eval_loop flags checker v s = Inr s"
  by (subst eval_loop.simps) simp

lemma eval_step_push:
  assumes "GetOp2 (es_pc s) = (True, opcode, dat, pc)" "opcode \<le> OP_PUSHDATA4" "es_vfExec s = []" "length dat \<le> 520"
    "CheckMinimalPush dat opcode \<or> \<not> SCRIPT_VERIFY_MINIMALDATA flags" "length (es_stack s) + length (es_altstack s) < 1000"
  shows "eval_step flags checker v s = Inr (s\<lparr>es_pc := pc, es_stack := dat # es_stack s\<rparr>)"
proof -
  have "\<not> disabled_opcode opcode" using assms(2) by (auto simp: disabled_opcode_def)
  then show ?thesis
    using assms by (auto simp: eval_step_def exec_instruction_def Let_def)
qed

lemma eval_step_opcode:
  assumes "es_pc s = word_of_nat opcode # pc" "OP_16 < opcode" "opcode < 256" "es_vfExec s = []" "es_nOpCount s < 201" "\<not> disabled_opcode opcode"
  shows "eval_step flags checker v s =
    (case exec_opcode flags checker v opcode True (s\<lparr>es_pc := pc, es_nOpCount := es_nOpCount s + 1\<rparr>) of
       Inl e \<Rightarrow> Inl e
     | Inr s \<Rightarrow> if length (es_stack s) + length (es_altstack s) > 1000 then Inl SCRIPT_ERR_STACK_SIZE else Inr s)"
  using assms GetOp2_opcode [of opcode pc]
  by (simp add: eval_step_def exec_instruction_def)

text \<open>Running an instruction given by its opcode, and going on with the rest.\<close>

lemma eval_loop_opcode:
  assumes "OP_16 < opcode" "opcode < 256" "es_vfExec s = []" "es_nOpCount s < 201" "\<not> disabled_opcode opcode"
  shows "es_pc s = word_of_nat opcode # pc \<Longrightarrow> eval_loop flags checker v s =
    (case exec_opcode flags checker v opcode True (s\<lparr>es_pc := pc, es_nOpCount := es_nOpCount s + 1\<rparr>) of
       Inl e \<Rightarrow> Inl e
     | Inr s \<Rightarrow> if length (es_stack s) + length (es_altstack s) > 1000 then Inl SCRIPT_ERR_STACK_SIZE
               else eval_loop flags checker v s)"
  using assms by (subst eval_loop_more) (auto simp: eval_step_opcode split: sum.splits)

lemma eval_loop_push:
  assumes "es_pc s = push_data [] dat @ pc" "2 \<le> length dat" "length dat \<le> 75" "es_vfExec s = []"
    "length (es_stack s) + length (es_altstack s) < 1000"
  shows "eval_loop flags checker v s = eval_loop flags checker v (s\<lparr>es_pc := pc, es_stack := dat # es_stack s\<rparr>)"
proof -
  have g: "GetOp2 (es_pc s) = (True, length dat, dat, pc)"
    using GetOp2_push [of dat pc] assms(1,3) by (simp add: push_opcode_of_def)
  have "CheckMinimalPush dat (length dat)" using assms(2,3) by (simp add: CheckMinimalPush_def)
  then have "eval_step flags checker v s = Inr (s\<lparr>es_pc := pc, es_stack := dat # es_stack s\<rparr>)"
    using assms by (intro eval_step_push [OF g]) simp_all
  moreover have "es_pc s \<noteq> []" using assms(1) by (simp add: push_data_def)
  ultimately show ?thesis by (subst eval_loop_more) simp_all
qed

lemma exec_values:
  "exec_opcode flags checker v OP_DUP True s = on_stack s (case es_stack s of x # st \<Rightarrow> Inr (x # x # st) | _ \<Rightarrow> Inl SCRIPT_ERR_INVALID_STACK_OPERATION)"
  "exec_opcode flags checker v OP_HASH160 True s = on_stack s (op_hash OP_HASH160 (es_stack s))"
  "exec_opcode flags checker v OP_EQUALVERIFY True s = on_stack s (op_equal OP_EQUALVERIFY (es_stack s))"
  "exec_opcode flags checker v OP_EQUAL True s = on_stack s (op_equal OP_EQUAL (es_stack s))"
  "exec_opcode flags checker v OP_CHECKSIG True s = on_stack s (op_checksig OP_CHECKSIG flags checker v (es_codehash s) (es_stack s))"
  by (auto simp: exec_opcode_def stack_op_def unary_opcode_def binary_opcode_def on_stack_def split: list.splits)

section \<open>Paying to the hash of a key\<close>

lemma Hash160_value: "Hash160 x = ripemd160 (sha256 x)"
  using CHash160_rep_Finalize [OF CSHA256_rep_Write [OF CSHA256_zero_rep]]
  by (simp add: Hash160_def CHash160_new_def CHash160_Write_def)

definition sign_outcome :: "u32 \<Rightarrow> BaseSignatureChecker \<Rightarrow> SigVersion \<Rightarrow> bytes \<Rightarrow> bytes \<Rightarrow> bytes \<Rightarrow> stack \<Rightarrow> ScriptError + stack" where
  "sign_outcome flags checker v scriptCode sig key rest =
     (case check_encodings checker sig key flags v of
        Some e \<Rightarrow> Inl e
      | None \<Rightarrow>
          let ok = CheckSig checker sig key scriptCode v
          in if \<not> ok \<and> SCRIPT_VERIFY_NULLFAIL flags \<and> sig \<noteq> [] then Inl SCRIPT_ERR_SIG_NULLFAIL
             else Inr ((if ok then vchTrue else vchFalse) # rest))"

lemma eval_pubkey_hash:
  assumes "length h = 20" "length rest \<le> 990"
  shows "EvalScript (key # sig # rest) (pay_to_pubkey_hash h) flags checker v =
    (if ripemd160 (sha256 key) \<noteq> h then Inl SCRIPT_ERR_EQUALVERIFY
     else sign_outcome flags checker v (if v = SIGVERSION_BASE then fst (FindAndDelete (pay_to_pubkey_hash h) (push_data [] sig))
                                        else pay_to_pubkey_hash h) sig key rest)"
proof -
  have p: "pay_to_pubkey_hash h =
    word_of_nat OP_DUP # word_of_nat OP_HASH160 # push_data [] h @ [word_of_nat OP_EQUALVERIFY, word_of_nat OP_CHECKSIG]"
    by (simp add: pay_to_pubkey_hash_def push_data_def)
  have l: "length (pay_to_pubkey_hash h) = 25" using assms(1) by (simp add: pay_to_pubkey_hash_def push_data_def)
  have d: "\<not> disabled_opcode OP_DUP" "\<not> disabled_opcode OP_HASH160" "\<not> disabled_opcode OP_EQUALVERIFY" "\<not> disabled_opcode OP_CHECKSIG"
    by (simp_all add: disabled_opcode_def)
  note run = eval_loop_opcode [OF _ _ _ _ d(1)] eval_loop_opcode [OF _ _ _ _ d(2)] eval_loop_opcode [OF _ _ _ _ d(3)]
    eval_loop_opcode [OF _ _ _ _ d(4)]
  let ?s = "\<lambda>pc st n. \<lparr>es_pc = pc, es_codehash = pay_to_pubkey_hash h, es_vfExec = [], es_stack = st, es_altstack = [], es_nOpCount = n\<rparr>"
  have "eval_loop flags checker v (eval_start (key # sig # rest) (pay_to_pubkey_hash h)) =
    eval_loop flags checker v (?s (push_data [] h @ [word_of_nat OP_EQUALVERIFY, word_of_nat OP_CHECKSIG])
      (ripemd160 (sha256 key) # key # sig # rest) (Suc (Suc 0)))"
    using assms(2) by (simp add: eval_start_def p run exec_values on_stack_def op_hash_values)
  also have "\<dots> = eval_loop flags checker v (?s [word_of_nat OP_EQUALVERIFY, word_of_nat OP_CHECKSIG] (h # ripemd160 (sha256 key) # key # sig # rest) (Suc (Suc 0)))"
    using assms by (subst eval_loop_push [of _ h]) simp_all
  also have "\<dots> = (if ripemd160 (sha256 key) \<noteq> h then Inl SCRIPT_ERR_EQUALVERIFY
    else eval_loop flags checker v (?s [word_of_nat OP_CHECKSIG] (key # sig # rest) (Suc (Suc (Suc 0)))))"
    using assms(2) by (simp add: run exec_values on_stack_def op_equal_def)
  also have "\<dots> = (if ripemd160 (sha256 key) \<noteq> h then Inl SCRIPT_ERR_EQUALVERIFY
    else map_sum id (\<lambda>st. ?s [] st (Suc (Suc (Suc (Suc 0))))) (sign_outcome flags checker v (if v = SIGVERSION_BASE then fst (FindAndDelete (pay_to_pubkey_hash h) (push_data [] sig))
                                        else pay_to_pubkey_hash h) sig key rest))"
    using assms(2)
    by (simp add: run exec_values on_stack_def op_checksig_def sign_outcome_def Let_def eval_loop_done split: option.split)
  finally show ?thesis
    using l by (auto simp: EvalScript_def sign_outcome_def Let_def split: option.split)
qed

lemma delete_all_mismatch: "x \<noteq> y \<Longrightarrow> delete_all (y # ys) (x # pc) n = (x # pc, n)"
  by (subst delete_all.simps) simp

lemma find_delete_keep:
  "GetOp2 (x # pc) = (True, opcode, dat, pc') \<Longrightarrow> x \<noteq> y \<Longrightarrow>
   find_delete_loop (y # ys) pc2 (x # pc) r n = find_delete_loop (y # ys) (x # pc) pc' (r @ between pc2 (x # pc)) n"
  by (subst find_delete_loop.simps) (simp add: delete_all_mismatch)

lemma find_delete_end: "find_delete_loop (y # ys) pc2 [] r n = (r @ between pc2 [], [], n)"
  by (subst find_delete_loop.simps) (simp add: delete_all.simps GetOp2_def)

text \<open>A signature that is not as long as a hash does not occur among the instructions of the script.\<close>

lemma pubkey_hash_code:
  assumes "length h = 20" "length sig \<noteq> 20" "length sig \<le> 75"
  shows "fst (FindAndDelete (pay_to_pubkey_hash h) (push_data [] sig)) = pay_to_pubkey_hash h"
proof -
  define y where "y = (word_of_nat (length sig) :: u8)"
  have y: "unat y = length sig" using assms(3) by (simp add: y_def unat_of_small)
  then have ne: "y \<noteq> 0x76" "y \<noteq> 0xa9" "y \<noteq> 0x14" "y \<noteq> 0x88" "y \<noteq> 0xac" using assms(2,3) by auto
  have b: "push_data [] sig = y # sig" using assms(3) by (simp add: push_data_def y_def)
  have p: "pay_to_pubkey_hash h = 0x76 # 0xa9 # 0x14 # h @ [0x88, 0xac]" using assms(1) by (simp add: pay_to_pubkey_hash_def push_data_def)
  have g: "GetOp2 (0x76 # pc) = (True, 0x76, [], pc)" "GetOp2 (0xa9 # pc) = (True, 0xa9, [], pc)" "GetOp2 (0x88 # pc) = (True, 0x88, [], pc)"
    "GetOp2 (0xac # pc) = (True, 0xac, [], pc)" "GetOp2 (0x14 # h @ pc) = (True, 0x14, h, pc)" for pc
    using assms(1) by (simp_all add: GetOp2_def push_size_def)
  note keep = find_delete_keep [OF g(1)] find_delete_keep [OF g(2)] find_delete_keep [OF g(3)] find_delete_keep [OF g(4)] find_delete_keep [OF g(5)]
  show ?thesis unfolding b p FindAndDelete_def using ne [symmetric] by (simp add: keep find_delete_end)
qed

lemma eval_two_pushes:
  assumes "2 \<le> length a" "length a \<le> 75" "2 \<le> length b" "length b \<le> 75"
  shows "EvalScript [] (push_data (push_data [] a) b) flags checker v = Inr [b, a]"
proof -
  have p: "push_data (push_data [] a) b = push_data [] a @ push_data [] b" by (simp add: push_data_def)
  have l: "length (push_data [] a @ push_data [] b) \<le> 152" using assms by (simp add: push_data_def)
  have "eval_loop flags checker v (eval_start [] (push_data [] a @ push_data [] b)) =
    Inr \<lparr>es_pc = [], es_codehash = push_data [] a @ push_data [] b, es_vfExec = [], es_stack = [b, a], es_altstack = [], es_nOpCount = 0\<rparr>"
    using assms by (simp add: eval_start_def eval_loop_push [of _ a] eval_loop_push [of _ b "[]"] eval_loop_done)
  then show ?thesis using l by (simp add: EvalScript_def p)
qed

text \<open>The combinations of flags that the assertions of \<open>VerifyScript\<close> allow.\<close>

definition consistent_flags :: "u32 \<Rightarrow> bool" where
  "consistent_flags flags \<longleftrightarrow>
     (SCRIPT_VERIFY_WITNESS flags \<longrightarrow> SCRIPT_VERIFY_P2SH flags) \<and> (SCRIPT_VERIFY_CLEANSTACK flags \<longrightarrow> SCRIPT_VERIFY_WITNESS flags)"

lemma two_pushes_only:
  assumes "length a \<le> 75" "length b \<le> 75"
  shows "IsPushOnly (push_data (push_data [] a) b)"
proof -
  have p: "push_data (push_data [] a) b = push_data [] a @ push_data [] b" by (simp add: push_data_def)
  have "GetOp2 (push_data [] a @ push_data [] b) = (True, length a, a, push_data [] b)" "GetOp2 (push_data [] b) = (True, length b, b, [])"
    using assms GetOp2_push [of a "push_data [] b"] GetOp2_push [of b "[]"] by (simp_all add: push_opcode_of_def)
  then show ?thesis
    using assms unfolding p by (subst IsPushOnly.simps, simp, subst IsPushOnly.simps, simp add: IsPushOnly.simps [of "[]"])
qed

text \<open>C5: An output that pays to the hash of a key is spent by a signature and a key exactly if the key has that hash, both are well
  encoded under the flags, the checker accepts the signature for that key and the script of the output, and there is no stray
  witness.\<close>

theorem pubkey_hash_spend:
  assumes "length h = 20" "2 \<le> length sig" "length sig \<noteq> 20" "length sig \<le> 75" "2 \<le> length key" "length key \<le> 75"
    and "consistent_flags flags"
  shows "VerifyScript (push_data (push_data [] sig) key) (pay_to_pubkey_hash h) witness flags checker = Some SCRIPT_ERR_OK \<longleftrightarrow>
    Hash160 key = h \<and> CheckSignatureEncoding checker sig flags = None \<and> CheckPubKeyEncoding key flags SIGVERSION_BASE = None \<and>
    CheckSig checker sig key (pay_to_pubkey_hash h) SIGVERSION_BASE \<and>
    (SCRIPT_VERIFY_WITNESS flags \<longrightarrow> witness = None \<or> witness = Some [])"
proof -
  note h = Hash160_value [of key]
  have p: "pay_to_pubkey_hash h = 0x76 # 0xa9 # 0x14 # h @ [0x88, 0xac]"
    using assms(1) by (simp add: pay_to_pubkey_hash_def push_data_def)
  have f: "IsWitnessProgram (pay_to_pubkey_hash h) = None" "\<not> IsPayToScriptHash (pay_to_pubkey_hash h)"
    using assms(1) by (simp_all add: p IsWitnessProgram_def IsPayToScriptHash_def)
  have e: "EvalScript [key, sig] (pay_to_pubkey_hash h) flags checker SIGVERSION_BASE =
    (if ripemd160 (sha256 key) \<noteq> h then Inl SCRIPT_ERR_EQUALVERIFY
     else sign_outcome flags checker SIGVERSION_BASE (pay_to_pubkey_hash h) sig key [])"
    using eval_pubkey_hash [OF assms(1), of "[]" key sig flags checker SIGVERSION_BASE] pubkey_hash_code [OF assms(1,3,4)] by simp
  have v: "VerifyScript (push_data (push_data [] sig) key) (pay_to_pubkey_hash h) witness flags checker =
    (if ripemd160 (sha256 key) \<noteq> h then Some SCRIPT_ERR_EQUALVERIFY
     else case sign_outcome flags checker SIGVERSION_BASE (pay_to_pubkey_hash h) sig key [] of
       Inl e \<Rightarrow> Some e
     | Inr st \<Rightarrow> if st = [] then Some SCRIPT_ERR_EVAL_FALSE else if \<not> CastToBool (st ! 0) then Some SCRIPT_ERR_EVAL_FALSE
               else verify_finish (case witness of None \<Rightarrow> [] | Some w \<Rightarrow> w) flags False st)"
    using assms(2,4-6) eval_two_pushes [of sig key] two_pushes_only [of sig key] f
    by (simp add: VerifyScript_def Let_def e verify_program_def split: sum.split)
  have c: "check_encodings checker sig key flags SIGVERSION_BASE = None \<longleftrightarrow>
    CheckSignatureEncoding checker sig flags = None \<and> CheckPubKeyEncoding key flags SIGVERSION_BASE = None"
    by (simp add: check_encodings_def split: option.split)
  have w: "verify_finish (case witness of None \<Rightarrow> [] | Some w \<Rightarrow> w) flags False [x] = Some SCRIPT_ERR_OK \<longleftrightarrow>
    (SCRIPT_VERIFY_WITNESS flags \<longrightarrow> witness = None \<or> witness = Some [])" for x
    using assms(7) by (auto simp: verify_finish_def consistent_flags_def split: option.splits)
  show ?thesis
    using encodings_real [of checker sig key flags SIGVERSION_BASE] c w [of vchTrue]
    unfolding v h sign_outcome_def Let_def
    by (cases "check_encodings checker sig key flags SIGVERSION_BASE") auto
qed

theorem pubkey_hash_spend_witness:
  "VerifyScript (push_data (push_data [] (replicate 70 1)) (replicate 33 2)) (pay_to_pubkey_hash (replicate 20 3)) None 1 (base_checker (\<lambda>s. True)) =
     Some SCRIPT_ERR_OK \<longleftrightarrow> False"
proof -
  have "consistent_flags 1" by (simp add: consistent_flags_def)
  then show ?thesis
    using pubkey_hash_spend [where h = "replicate 20 3" and sig = "replicate 70 1" and key = "replicate 33 2" and flags = 1
        and witness = None and checker = "base_checker (\<lambda>s. True)"]
    by (simp add: base_checker_def)
qed

section \<open>Paying to the hash of a script\<close>

lemma script_hash_form:
  assumes "IsPayToScriptHash script"
  obtains h where "length h = 20" "script = word_of_nat OP_HASH160 # push_data [] h @ [word_of_nat OP_EQUAL]" "h = take 20 (drop 2 script)"
proof -
  let ?h = "take 20 (drop 2 script)"
  have l: "length script = 23" and n: "script ! 0 = 0xa9" "script ! 1 = 0x14" "script ! 22 = 0x87"
    using assms by (auto simp: IsPayToScriptHash_def word_unat_eq_iff)
  have "script = 0xa9 # 0x14 # ?h @ [0x87]"
  proof (rule nth_equalityI)
    fix i assume "i < length script"
    then consider "i = 0" | "i = 1" | "2 \<le> i \<and> i < 22" | "i = 22" using l by linarith
    then show "script ! i = (0xa9 # 0x14 # ?h @ [0x87]) ! i"
      using n l by cases (auto simp: nth_append nth_Cons' simp flip: add_2_eq_Suc)
  qed (simp add: l)
  moreover have "length ?h = 20" using l by simp
  ultimately show thesis by (intro that [of ?h]) (simp_all add: push_data_def)
qed

lemma eval_script_hash:
  assumes "IsPayToScriptHash script"
  shows "EvalScript [] script flags checker v = Inl SCRIPT_ERR_INVALID_STACK_OPERATION"
    "EvalScript (x # rest) script flags checker v =
      (if length rest > 998 then Inl SCRIPT_ERR_STACK_SIZE
       else Inr ((if ripemd160 (sha256 x) = take 20 (drop 2 script) then vchTrue else vchFalse) # rest))"
proof -
  obtain h where h: "length h = 20" "script = word_of_nat OP_HASH160 # push_data [] h @ [word_of_nat OP_EQUAL]" "h = take 20 (drop 2 script)"
    by (rule script_hash_form [OF assms])
  have l: "length script = 23" using h(1,2) by (simp add: push_data_def)
  have d: "\<not> disabled_opcode OP_HASH160" "\<not> disabled_opcode OP_EQUAL" by (simp_all add: disabled_opcode_def)
  note run = eval_loop_opcode [OF _ _ _ _ d(1)] eval_loop_opcode [OF _ _ _ _ d(2)]
  let ?s = "\<lambda>pc st n. \<lparr>es_pc = pc, es_codehash = script, es_vfExec = [], es_stack = st, es_altstack = [], es_nOpCount = n\<rparr>"
  have start: "eval_start st script = ?s (word_of_nat OP_HASH160 # push_data [] h @ [word_of_nat OP_EQUAL]) st 0" for st
    using h(2) by (simp add: eval_start_def)
  show "EvalScript [] script flags checker v = Inl SCRIPT_ERR_INVALID_STACK_OPERATION"
    using l by (simp add: EvalScript_def start run exec_values on_stack_def op_hash_def)
  have 1: "eval_loop flags checker v (eval_start (x # rest) script) =
    (if length rest > 999 then Inl SCRIPT_ERR_STACK_SIZE
     else eval_loop flags checker v (?s (push_data [] h @ [word_of_nat OP_EQUAL]) (ripemd160 (sha256 x) # rest) (Suc 0)))"
    by (simp add: start run exec_values on_stack_def op_hash_values)
  have 2: "eval_loop flags checker v (?s (push_data [] h @ [word_of_nat OP_EQUAL]) (ripemd160 (sha256 x) # rest) (Suc 0)) =
    Inr (?s [] ((if ripemd160 (sha256 x) = h then vchTrue else vchFalse) # rest) (Suc (Suc 0)))" if "length rest \<le> 998"
  proof -
    have "eval_loop flags checker v (?s (push_data [] h @ [word_of_nat OP_EQUAL]) (ripemd160 (sha256 x) # rest) (Suc 0)) =
      eval_loop flags checker v (?s [word_of_nat OP_EQUAL] (h # ripemd160 (sha256 x) # rest) (Suc 0))"
      using that h(1) by (subst eval_loop_push [of _ h]) simp_all
    also have "\<dots> = Inr (?s [] ((if ripemd160 (sha256 x) = h then vchTrue else vchFalse) # rest) (Suc (Suc 0)))"
      using that by (simp add: run exec_values on_stack_def op_equal_def eval_loop_done)
    finally show ?thesis .
  qed
  have 3: "eval_loop flags checker v (?s (push_data [] h @ [word_of_nat OP_EQUAL]) (ripemd160 (sha256 x) # rest) (Suc 0)) =
    Inl SCRIPT_ERR_STACK_SIZE" if "length rest = 999"
  proof -
    have "GetOp2 (push_data [] h @ [word_of_nat OP_EQUAL]) = (True, 20, h, [word_of_nat OP_EQUAL])"
      using GetOp2_push [of h] h(1) by (simp add: push_opcode_of_def)
    then show ?thesis using that h(1)
      by (subst eval_loop_more) (auto simp: eval_step_def exec_instruction_def disabled_opcode_def CheckMinimalPush_def push_data_def)
  qed
  show "EvalScript (x # rest) script flags checker v =
      (if length rest > 998 then Inl SCRIPT_ERR_STACK_SIZE
       else Inr ((if ripemd160 (sha256 x) = take 20 (drop 2 script) then vchTrue else vchFalse) # rest))"
    using l 1 2 3 h(3) by (auto simp: EvalScript_def not_less)
qed

lemma verify_program_real: "malleated_error \<noteq> SCRIPT_ERR_OK \<Longrightarrow> real_error (verify_program script b malleated_error witness flags checker had st)"
  by (auto simp: verify_program_def real_error_def Let_def split: option.splits)

lemma verify_p2sh_real: "verify_p2sh sig witness flags checker had sc \<noteq> Some (Inl SCRIPT_ERR_OK)"
  using EvalScript_not_ok verify_program_real [of SCRIPT_ERR_WITNESS_MALLEATED_P2SH]
  by (auto simp: verify_p2sh_def real_error_def split: list.splits sum.splits)

text \<open>What acceptance has checked.\<close>

lemma VerifyScript_ok:
  assumes "VerifyScript sig key witness flags checker = Some SCRIPT_ERR_OK"
  obtains stackCopy st hadWitness st' where
    "EvalScript [] sig flags checker SIGVERSION_BASE = Inr stackCopy" "EvalScript stackCopy key flags checker SIGVERSION_BASE = Inr st"
    "st \<noteq> []" "CastToBool (st ! 0)"
    "SCRIPT_VERIFY_P2SH flags \<and> IsPayToScriptHash key \<longrightarrow>
       verify_p2sh sig (case witness of None \<Rightarrow> [] | Some w \<Rightarrow> w) flags checker hadWitness stackCopy = Some (Inr st')"
proof -
  let ?w = "case witness of None \<Rightarrow> [] | Some w \<Rightarrow> w"
  obtain sc st where e: "EvalScript [] sig flags checker SIGVERSION_BASE = Inr sc" "EvalScript sc key flags checker SIGVERSION_BASE = Inr st"
      "st \<noteq> []" "CastToBool (st ! 0)"
    using assms EvalScript_not_ok by (auto simp: VerifyScript_def Let_def split: if_splits sum.splits)
  obtain had st2 where p: "verify_program key (length sig \<noteq> 0) SCRIPT_ERR_WITNESS_MALLEATED ?w flags checker False st = Inr (had, st2)"
    using assms e verify_program_real [of SCRIPT_ERR_WITNESS_MALLEATED key "length sig \<noteq> 0" ?w flags checker False st]
    by (cases "verify_program key (length sig \<noteq> 0) SCRIPT_ERR_WITNESS_MALLEATED ?w flags checker False st")
      (auto simp: VerifyScript_def Let_def real_error_def split: if_splits)
  show thesis
  proof (cases "SCRIPT_VERIFY_P2SH flags \<and> IsPayToScriptHash key")
    case True
    then obtain st' where "verify_p2sh sig ?w flags checker had sc = Some (Inr st')"
      using assms e p verify_p2sh_real [of sig ?w flags checker had sc]
      by (auto simp: VerifyScript_def Let_def split: if_splits option.splits sum.splits)
    then show thesis using that [OF e] by blast
  next
    case False
    then show thesis using that [OF e] by blast
  qed
qed

text \<open>C6: With the pay-to-script-hash rule on, an output that pays to the hash of a script is spent only by an input whose script is made of pushes
  and ends in pushing a script with that hash, and this script, run on what was pushed before it, leaves a true value.\<close>

theorem script_hash_spend:
  assumes "SCRIPT_VERIFY_P2SH flags" "IsPayToScriptHash key" "VerifyScript sig key witness flags checker = Some SCRIPT_ERR_OK"
  shows "IsPushOnly sig \<and> (\<exists>redeem st st'.
    EvalScript [] sig flags checker SIGVERSION_BASE = Inr (redeem # st) \<and> Hash160 redeem = take 20 (drop 2 key) \<and>
    EvalScript st redeem flags checker SIGVERSION_BASE = Inr st' \<and> st' \<noteq> [] \<and> CastToBool (st' ! 0))"
  using assms(3)
proof (rule VerifyScript_ok)
  fix sc st had st'
  assume e: "EvalScript [] sig flags checker SIGVERSION_BASE = Inr sc" "EvalScript sc key flags checker SIGVERSION_BASE = Inr st"
      "st \<noteq> []" "CastToBool (st ! 0)"
    and p: "SCRIPT_VERIFY_P2SH flags \<and> IsPayToScriptHash key \<longrightarrow>
       verify_p2sh sig (case witness of None \<Rightarrow> [] | Some w \<Rightarrow> w) flags checker had sc = Some (Inr st')"
  obtain redeem rest where sc: "sc = redeem # rest"
    using e(2) eval_script_hash(1) [OF assms(2)] by (cases sc) simp_all
  have h: "ripemd160 (sha256 redeem) = take 20 (drop 2 key)"
    using e(2-4) eval_script_hash(2) [OF assms(2)] by (auto simp: sc split: if_splits)
  then show ?thesis
    using e(1) p assms(1,2) by (auto simp: sc verify_p2sh_def Hash160_value split: if_splits sum.splits)
qed

theorem script_hash_spend_witness:
  "VerifyScript [1, 0x51] (0xa9 # 0x14 # Hash160 [0x51] @ [0x87]) None 1 (base_checker (\<lambda>s. True)) = Some SCRIPT_ERR_OK \<and>
   IsPushOnly [1, 0x51]"
proof -
  let ?c = "base_checker (\<lambda>s. True)"
  define key where "key = 0xa9 # 0x14 # Hash160 [0x51] @ [0x87]"
  have p: "IsPayToScriptHash key" by (simp add: key_def IsPayToScriptHash_def Hash160_value length_ripemd160 nth_append)
  have k: "EvalScript [[0x51]] key 1 ?c SIGVERSION_BASE = Inr [[1]]"
    unfolding eval_script_hash(2) [OF p] by (simp add: key_def Hash160_value length_ripemd160)
  have e: "EvalScript [] [1, 0x51] 1 ?c SIGVERSION_BASE = Inr [[0x51]]" "EvalScript [] [0x51] 1 ?c SIGVERSION_BASE = Inr [[1]]"
    "IsPushOnly [1, 0x51]" by code_simp+
  have "VerifyScript [1, 0x51] key None 1 ?c = Some SCRIPT_ERR_OK"
    using e p k by (simp add: VerifyScript_def Let_def verify_program_def verify_p2sh_def verify_finish_def)
  with script_hash_spend [OF _ p this] show ?thesis by (simp add: key_def)
qed

section \<open>Outputs that cannot be spent\<close>

lemma unspendable_fails:
  assumes "IsUnspendable script"
  shows "\<exists>e. EvalScript st script flags checker v = Inl e"
proof (cases "length script > MAX_SCRIPT_SIZE")
  case False
  then obtain pc where s: "script = word_of_nat 0x6a # pc" using assms by (cases script) (auto simp: IsUnspendable_def)
  have "\<not> disabled_opcode 0x6a" by (simp add: disabled_opcode_def)
  from eval_loop_opcode [OF _ _ _ _ this, of "eval_start st script" pc flags checker v]
  have "eval_loop flags checker v (eval_start st script) = Inl SCRIPT_ERR_OP_RETURN"
    by (simp add: eval_start_def s exec_opcode_def)
  then show ?thesis using False by (simp add: EvalScript_def)
qed (simp add: EvalScript_def)

text \<open>C7: An output whose script is classified as unspendable, so that the set of unspent outputs may leave it out, is never spent: whatever the
  input's script, its witness, the flags and the checker of signatures, verification does not succeed.\<close>

theorem unspendable_never_spent:
  assumes "IsUnspendable key"
  shows "VerifyScript sig key witness flags checker \<noteq> Some SCRIPT_ERR_OK"
proof
  assume "VerifyScript sig key witness flags checker = Some SCRIPT_ERR_OK"
  then obtain sc st where "EvalScript sc key flags checker SIGVERSION_BASE = Inr st" by (rule VerifyScript_ok)
  then show False using unspendable_fails [OF assms, of sc flags checker SIGVERSION_BASE] by simp
qed

theorem unspendable_never_spent_witness:
  "VerifyScript [0x51] [0x6a, 0x51] None 0 (base_checker (\<lambda>s. True)) \<noteq> Some SCRIPT_ERR_OK"
proof -
  have "IsUnspendable [0x6a, 0x51]" by (simp add: IsUnspendable_def)
  then show ?thesis by (rule unspendable_never_spent)
qed

section \<open>No assertion fails\<close>

text \<open>C8: With a combination of flags that the assertions of \<open>VerifyScript\<close> allow, verification returns a verdict; in particular the stack that is
  restored for a script hash is never empty.\<close>

theorem verify_returns:
  assumes "consistent_flags flags"
  shows "\<exists>e. VerifyScript sig key witness flags checker = Some e"
proof -
  have 1: "verify_finish w flags had st \<noteq> None" for w had st
    using assms by (auto simp: verify_finish_def consistent_flags_def)
  have 2: False
    if "verify_p2sh sig w flags checker had sc = None" "EvalScript sc key flags checker SIGVERSION_BASE = Inr st" "IsPayToScriptHash key"
    for w had sc st
    using that eval_script_hash(1) [OF that(3)] by (cases sc) (auto simp: verify_p2sh_def split: if_splits)
  have "VerifyScript sig key witness flags checker \<noteq> None"
    using 1 by (auto simp: VerifyScript_def Let_def split: sum.splits option.splits dest: 2)
  then show ?thesis by simp
qed

theorem verify_returns_witness:
  "consistent_flags 0x901 \<and> (\<exists>e. VerifyScript [0x51] [0x51] None 0x901 (base_checker (\<lambda>s. True)) = Some e)"
proof -
  have "consistent_flags 0x901" by code_simp
  then show ?thesis using verify_returns by blast
qed

end
