(* ===== verification/Header.thy ===== *)
theory Header
  imports Transaction Scrypt
begin

text \<open>
  \<^verbatim>\<open>src/primitives/pureheader.h\<close>, \<^verbatim>\<open>src/primitives/pureheader.cpp\<close>: the block header without auxiliary proof of work. The
  version is a signed 32-bit integer that carries a base version in its low byte, the auxpow flag in bit 8 and the chain
  identifier above bit 16. \<open>GetPoWHash\<close> hands the 80 bytes of the fields in memory to scrypt; on the little-endian
  targets these are the bytes of the serialisation.
\<close>

section \<open>The header\<close>

record CPureBlockHeader =
  nVersion :: int
  hashPrevBlock :: bytes
  hashMerkleRoot :: bytes
  nTime :: u32
  nBits :: u32
  nNonce :: u32

definition CPureBlockHeader_null :: CPureBlockHeader where
  "CPureBlockHeader_null =
     \<lparr>nVersion = 0, hashPrevBlock = uint256_null, hashMerkleRoot = uint256_null, nTime = 0, nBits = 0, nNonce = 0\<rparr>"

definition header_IsNull :: "'a CPureBlockHeader_scheme \<Rightarrow> bool" where
  "header_IsNull h \<longleftrightarrow> nBits h = 0"

definition header_GetBlockTime :: "'a CPureBlockHeader_scheme \<Rightarrow> int" where
  "header_GetBlockTime h = uint (nTime h)"

definition ser_header :: "'a CPureBlockHeader_scheme \<Rightarrow> bytes" where
  "ser_header h =
     ser_int32 (nVersion h) @ ser_uint256 (hashPrevBlock h) @ ser_uint256 (hashMerkleRoot h) @
     ser_writedata32 (nTime h) @ ser_writedata32 (nBits h) @ ser_writedata32 (nNonce h)"

definition unser_header :: "CPureBlockHeader reader" where
  "unser_header =
     then_read unser_int32 (\<lambda>v. then_read unser_uint256 (\<lambda>p. then_read unser_uint256 (\<lambda>m.
     then_read ser_readdata32 (\<lambda>t. then_read ser_readdata32 (\<lambda>b. then_read ser_readdata32 (\<lambda>n.
       return_read \<lparr>nVersion = v, hashPrevBlock = p, hashMerkleRoot = m, nTime = t, nBits = b, nNonce = n\<rparr>))))))"

definition header_GetHash :: "'a CPureBlockHeader_scheme \<Rightarrow> bytes" where
  "header_GetHash h = SerializeHash (ser_header h) 4 PROTOCOL_VERSION"

definition GetPoWHash :: "'a CPureBlockHeader_scheme \<Rightarrow> bytes" where
  "GetPoWHash h = scrypt_1024_1_1_256 (ser_header h)"

section \<open>The version field\<close>

definition VERSION_AUXPOW :: int where
  "VERSION_AUXPOW = push_bit 8 1"

definition VERSION_CHAIN_START :: int where
  "VERSION_CHAIN_START = push_bit 16 1"

definition GetBaseVersion :: "int \<Rightarrow> int" where
  "GetBaseVersion ver = ver smod VERSION_AUXPOW"

definition GetChainId :: "'a CPureBlockHeader_scheme \<Rightarrow> int" where
  "GetChainId h = drop_bit 16 (nVersion h)"

definition IsAuxpow :: "'a CPureBlockHeader_scheme \<Rightarrow> bool" where
  "IsAuxpow h \<longleftrightarrow> nVersion h AND VERSION_AUXPOW \<noteq> 0"

text \<open>A failed assertion is None.\<close>

definition SetBaseVersion :: "'a CPureBlockHeader_scheme \<Rightarrow> int \<Rightarrow> int \<Rightarrow> 'a CPureBlockHeader_scheme option" where
  "SetBaseVersion h nBaseVersion nChainId =
     (if nBaseVersion \<ge> 1 \<and> nBaseVersion < VERSION_AUXPOW \<and> \<not> IsAuxpow h
      then Some (h\<lparr>nVersion := nBaseVersion OR wrap32 (nChainId * VERSION_CHAIN_START)\<rparr>)
      else None)"

definition SetChainId :: "'a CPureBlockHeader_scheme \<Rightarrow> int \<Rightarrow> 'a CPureBlockHeader_scheme" where
  "SetChainId h chainId = h\<lparr>nVersion := (nVersion h smod VERSION_CHAIN_START) OR wrap32 (chainId * VERSION_CHAIN_START)\<rparr>"

definition SetAuxpowFlag :: "'a CPureBlockHeader_scheme \<Rightarrow> bool \<Rightarrow> 'a CPureBlockHeader_scheme" where
  "SetAuxpowFlag h auxpow =
     (if auxpow then h\<lparr>nVersion := nVersion h OR VERSION_AUXPOW\<rparr> else h\<lparr>nVersion := nVersion h AND NOT VERSION_AUXPOW\<rparr>)"

definition IsLegacy :: "'a CPureBlockHeader_scheme \<Rightarrow> bool" where
  "IsLegacy h \<longleftrightarrow> nVersion h = 1 \<or> (nVersion h = 2 \<and> GetChainId h = 0)"

section \<open>Facts\<close>

definition ok_header :: "'a CPureBlockHeader_scheme \<Rightarrow> bool" where
  "ok_header h \<longleftrightarrow> - (2 ^ 31) \<le> nVersion h \<and> nVersion h < 2 ^ 31 \<and> length (hashPrevBlock h) = 32 \<and> length (hashMerkleRoot h) = 32"

interpretation wire_header: wire ser_header unser_header ok_header
proof
  fix h :: CPureBlockHeader and s r
  show "unser_header (ser_header h @ s) = Inr (h, s)" if "ok_header h"
    using that by (simp add: ok_header_def unser_header_def ser_header_def then_read_def wire_uint256.parse_print wire32.parse_print
        wire_int32.parse_print return_read_def)
  show "ok_header h \<and> s = ser_header h @ r" if "unser_header s = Inr (h, r)"
    using that by (auto simp: ok_header_def unser_header_def ser_header_def then_read_Inr wire_uint256.parse_iff wire32.parse_iff
        wire_int32.parse_iff return_read_def)
qed

lemma length_ser_header: "ok_header h \<Longrightarrow> length (ser_header h) = 80"
  by (simp add: ok_header_def ser_header_def ser_int32_def ser_writedata32_def WriteLE32_def ser_uint256_def)

text \<open>The bits of a version made of a base version below the flag and a chain identifier.\<close>

lemma bit_below: "0 \<le> b \<Longrightarrow> b < 2 ^ n \<Longrightarrow> bit b i \<Longrightarrow> i < n" for b :: int
  by (metis bit_take_bit_iff take_bit_int_eq_self)

lemma version_bits:
  fixes b c :: int
  assumes "0 \<le> b" "b < 2 ^ 8"
  shows "bit (b OR push_bit 16 c) i \<longleftrightarrow> (i < 8 \<and> bit b i) \<or> (16 \<le> i \<and> bit c (i - 16))"
  using bit_below [OF assms, of i] by (auto simp: bit_or_iff bit_push_bit_iff)

lemma bit_flag: "bit VERSION_AUXPOW i \<longleftrightarrow> i = 8"
  unfolding VERSION_AUXPOW_def by (simp only: bit_push_bit_iff bit_1_iff) auto

lemma AND_flag: "(v AND VERSION_AUXPOW \<noteq> 0) \<longleftrightarrow> bit v 8"
  by (auto simp: bit_eq_iff [where ?'a = int] bit_and_iff bit_flag)

lemma version_fields:
  fixes v b c :: int
  assumes b: "0 \<le> b" "b < 2 ^ 8" and c: "0 \<le> c" "c < 2 ^ 15"
  shows "drop_bit 16 (b OR push_bit 16 c) = c" and "(b OR push_bit 16 c) smod 2 ^ 8 = b"
    and "\<not> bit (b OR push_bit 16 c) 8" and "b OR push_bit 16 c < 2 ^ 31" and "0 \<le> b OR push_bit 16 c"
proof -
  let ?v = "b OR push_bit 16 c"
  note bits = version_bits [OF b, of c]
  show "drop_bit 16 ?v = c" by (rule bit_eqI) (simp only: bit_drop_bit_eq o_apply bits, simp)
  show "\<not> bit ?v 8" by (simp add: bits)
  show nn: "0 \<le> ?v" using b c by (simp add: push_bit_eq_mult)
  have "take_bit 8 ?v = b"
    using bit_below [OF b] by (intro bit_eqI) (auto simp: bit_take_bit_iff bit_or_iff bit_push_bit_iff)
  then show "?v smod 2 ^ 8 = b" using nn by (simp add: take_bit_eq_mod smod_nonneg)
  have "take_bit 31 ?v = ?v"
  proof (rule bit_eqI)
    fix i
    show "bit (take_bit 31 ?v) i = bit ?v i" using bit_below [OF c, of "i - 16"] bit_below [OF b, of i] by (auto simp: bit_take_bit_iff bit_or_iff bit_push_bit_iff)
  qed
  then show "?v < 2 ^ 31" by (metis take_bit_int_less_exp)
qed

lemma version_wrap: "0 \<le> c \<Longrightarrow> c < 2 ^ 15 \<Longrightarrow> wrap32 (c * VERSION_CHAIN_START) = push_bit 16 c"
  by (simp add: VERSION_CHAIN_START_def push_bit_eq_mult)

lemma flag_bits:
  fixes v :: int
  shows "drop_bit 16 (v OR VERSION_AUXPOW) = drop_bit 16 v" and "drop_bit 16 (v AND NOT VERSION_AUXPOW) = drop_bit 16 v"
    and "take_bit 8 (v OR VERSION_AUXPOW) = take_bit 8 v" and "\<not> bit v 8 \<Longrightarrow> (v OR VERSION_AUXPOW) AND NOT VERSION_AUXPOW = v"
    and "bit (v OR VERSION_AUXPOW) 8"
  by (auto simp: bit_eq_iff [where ?'a = int] bit_simps bit_flag)

section \<open>Properties\<close>

text \<open>
  C35: the header reader accepts exactly the encodings of headers whose fields have their widths, an encoding has 80
  bytes, and the two hashes of a header are the double SHA-256 and the scrypt of these 80 bytes.
\<close>

theorem header_codec:
  "(unser_header s = Inr (h, r) \<longleftrightarrow> ok_header h \<and> s = ser_header h @ r) \<and>
   (ok_header h \<longrightarrow> length (ser_header h) = 80) \<and>
   header_GetHash h = sha256 (sha256 (ser_header h)) \<and> GetPoWHash h = scrypt_1024_1_1_256 (ser_header h)"
  using length_ser_header [of h] by (simp add: wire_header.parse_iff header_GetHash_def GetPoWHash_def SerializeHash_eq)

theorem header_codec_witness: "length (ser_header CPureBlockHeader_null) = 80"
  using header_codec [of "ser_header CPureBlockHeader_null" CPureBlockHeader_null "[]"]
  by (simp add: CPureBlockHeader_null_def ok_header_def uint256_null_def)

text \<open>
  The three parts of a block version do not disturb each other. Setting a base version from 1 to 255 and a chain
  identifier below \<open>2\<^sup>1\<^sup>5\<close> on a header without the auxpow flag passes the assertions, stays a positive 32-bit integer
  and reads back as set, without the flag; setting the flag then changes neither part, and clearing it restores the version.
\<close>

theorem version_parts:
  assumes "1 \<le> b" "b < 256" "0 \<le> c" "c < 2 ^ 15" "\<not> IsAuxpow h"
  shows "\<exists>h'. SetBaseVersion h b c = Some h' \<and> 0 < nVersion h' \<and> nVersion h' < 2 ^ 31 \<and>
    GetBaseVersion (nVersion h') = b \<and> GetChainId h' = c \<and> \<not> IsAuxpow h' \<and>
    IsAuxpow (SetAuxpowFlag h' True) \<and> GetChainId (SetAuxpowFlag h' True) = c \<and>
    GetBaseVersion (nVersion (SetAuxpowFlag h' True)) = b \<and> SetAuxpowFlag (SetAuxpowFlag h' True) False = h'"
proof -
  let ?v = "b OR push_bit 16 c"
  have b: "0 \<le> b" "b < 2 ^ 8" using assms by simp_all
  note f = version_fields [OF b assms(3,4)]
  have set: "SetBaseVersion h b c = Some (h\<lparr>nVersion := ?v\<rparr>)"
    using assms version_wrap [OF assms(3,4)] by (simp add: SetBaseVersion_def VERSION_AUXPOW_def)
  have p: "VERSION_AUXPOW = 2 ^ 8" by (simp add: VERSION_AUXPOW_def)
  have "?v smod 2 ^ 8 = take_bit 8 ?v" using f(5) by (simp add: take_bit_eq_mod smod_nonneg)
  then have "take_bit 8 (?v OR VERSION_AUXPOW) = b" using f(2) flag_bits(3) [of ?v] by simp
  moreover have "0 \<le> ?v OR VERSION_AUXPOW" using f(5) by (simp add: p)
  ultimately have base: "(?v OR VERSION_AUXPOW) smod 2 ^ 8 = b" by (simp add: take_bit_eq_mod smod_nonneg)
  have "?v \<noteq> 0" using f(2) assms(1) by auto
  with f(5) have "0 < ?v" by linarith
  with f(1-4) set base show ?thesis
    unfolding p [symmetric] GetBaseVersion_def GetChainId_def IsAuxpow_def SetAuxpowFlag_def AND_flag
    by (intro exI [of _ "h\<lparr>nVersion := ?v\<rparr>"]) (simp add: flag_bits del: drop_bit_or)
qed

theorem version_parts_witness: "\<exists>h'. SetBaseVersion CPureBlockHeader_null 4 0x62 = Some h' \<and> GetChainId h' = 0x62"
  using version_parts [of 4 "0x62" CPureBlockHeader_null] by (auto simp: CPureBlockHeader_null_def IsAuxpow_def)

end
