(* ===== verification/Merkle.thy ===== *)
theory Merkle
  imports Transaction
begin

text \<open>
  \<^verbatim>\<open>src/consensus/merkle.cpp\<close>: the constant-space computation of Merkle roots and branches. It keeps one hash per
  level of the tree and processes the leaves like a binary counter. The reference is the recursive tree of
  \<^verbatim>\<open>src/merkleblock.cpp\<close>, \<open>CalcHash\<close>, and the description of a tree built level by level. The counter of leaves is a 32-bit
  integer and the array of inner hashes has 32 entries; running past the array is the result None.
\<close>

section \<open>The computation\<close>

text \<open>What one combination step does to the branch being collected and to the flag of the matched leaf.\<close>

definition branch_step :: "bool \<Rightarrow> bytes list \<Rightarrow> nat option \<Rightarrow> nat \<Rightarrow> bytes \<Rightarrow> bool \<times> bytes list \<Rightarrow> bool \<times> bytes list" where
  "branch_step pbranch inner matchlevel level h = (\<lambda>(matchh, branch).
     if pbranch
     then if matchh then (matchh, branch @ [inner ! level])
          else if matchlevel = Some level then (True, branch @ [h])
          else (matchh, branch)
     else (matchh, branch))"

text \<open>The loop over the zero bits of the counter.\<close>

function climb ::
    "bool \<Rightarrow> nat \<Rightarrow> bytes list \<Rightarrow> nat option \<Rightarrow> nat \<Rightarrow> bytes \<Rightarrow> bool \<times> bytes list \<Rightarrow> bool \<Rightarrow>
     (nat \<times> bytes \<times> (bool \<times> bytes list) \<times> bool) option" where
  "climb pbranch count inner matchlevel level h mb mutated =
     (if level < 32
      then if bit count level then Some (level, h, mb, mutated)
           else climb pbranch count inner matchlevel (level + 1) (Hash2 (inner ! level) h)
                  (branch_step pbranch inner matchlevel level h mb) (mutated \<or> inner ! level = h)
      else None)"
  by pat_completeness auto
termination
  by (relation "measure (\<lambda>(pb, count, inner, ml, level, h, mb, mut). 32 - level)") auto

declare climb.simps [simp del]

fun leaves_loop ::
    "bool \<Rightarrow> nat \<Rightarrow> bytes list \<Rightarrow> nat \<Rightarrow> bytes list \<Rightarrow> nat option \<Rightarrow> bytes list \<Rightarrow> bool \<Rightarrow>
     (nat \<times> bytes list \<times> nat option \<times> bytes list \<times> bool) option" where
  "leaves_loop pbranch branchpos [] count inner matchlevel branch mutated = Some (count, inner, matchlevel, branch, mutated)"
| "leaves_loop pbranch branchpos (h # leaves) count inner matchlevel branch mutated =
     (let matchh = (count = branchpos);
          count = (count + 1) mod 2 ^ 32
      in case climb pbranch count inner matchlevel 0 h (matchh, branch) mutated of
           None \<Rightarrow> None
         | Some (level, h, (matchh, branch), mutated) \<Rightarrow>
             leaves_loop pbranch branchpos leaves count (inner[level := h])
               (if matchh then Some level else matchlevel) branch mutated)"

function skip_zeros :: "nat \<Rightarrow> nat \<Rightarrow> nat option" where
  "skip_zeros count level =
     (if level < 32 then if bit count level then Some level else skip_zeros count (level + 1) else None)"
  by pat_completeness auto
termination
  by (relation "measure (\<lambda>(count, level). 32 - level)") auto

declare skip_zeros.simps [simp del]

text \<open>The inner loop of the sweep is the same climb, without the test for mutation.\<close>

definition propagate ::
    "bool \<Rightarrow> nat \<Rightarrow> bytes list \<Rightarrow> nat option \<Rightarrow> nat \<Rightarrow> bytes \<Rightarrow> bool \<times> bytes list \<Rightarrow> (nat \<times> bytes \<times> bool \<times> bytes list) option" where
  "propagate pbranch count inner matchlevel level h mb =
     (case climb pbranch count inner matchlevel level h mb False of
        None \<Rightarrow> None
      | Some (level, h, mb, _) \<Rightarrow> Some (level, h, mb))"

lemma climb_level:
  "climb pb count inner ml level h mb mut = Some (level', h', mb', mut') \<Longrightarrow> level \<le> level' \<and> level' < 32 \<and> bit count level'"
proof (induction pb count inner ml level h mb mut rule: climb.induct)
  case (1 pb count inner ml level h mb mut)
  from "1.prems" "1.IH" climb.simps [of pb count inner ml level h mb mut] show ?case by (auto split: if_splits)
qed

lemma propagate_level: "propagate pb count inner ml level h mb = Some (level', h', mb') \<Longrightarrow> level \<le> level' \<and> level' < 32"
  by (auto simp: propagate_def split: option.splits dest: climb_level)

function sweep ::
    "bool \<Rightarrow> bytes list \<Rightarrow> nat option \<Rightarrow> nat \<Rightarrow> nat \<Rightarrow> bytes \<Rightarrow> bool \<times> bytes list \<Rightarrow> (bytes \<times> bytes list) option" where
  "sweep pbranch inner matchlevel count level h mb =
     (if count = 2 ^ level then Some (h, snd mb)
      else if level < 32
      then let mb = (if pbranch \<and> fst mb then (fst mb, snd mb @ [h]) else mb);
               h = Hash2 h h;
               count = (count + 2 ^ level) mod 2 ^ 32
           in case propagate pbranch count inner matchlevel (level + 1) h mb of
                None \<Rightarrow> None
              | Some (level, h, mb) \<Rightarrow> sweep pbranch inner matchlevel count level h mb
      else None)"
  by pat_completeness auto
termination
  by (relation "measure (\<lambda>(pb, inner, ml, count, level, h, mb). 32 - level)") (auto dest!: propagate_level)

declare sweep.simps [simp del]

text \<open>The result is the root, the mutation flag and the branch.\<close>

definition MerkleComputation :: "bool \<Rightarrow> bytes list \<Rightarrow> nat \<Rightarrow> (bytes \<times> bool \<times> bytes list) option" where
  "MerkleComputation pbranch leaves branchpos =
     (if length leaves = 0 then Some (uint256_null, False, [])
      else case leaves_loop pbranch branchpos leaves 0 (replicate 32 uint256_null) None [] False of
        None \<Rightarrow> None
      | Some (count, inner, matchlevel, branch, mutated) \<Rightarrow>
          (case skip_zeros count 0 of
             None \<Rightarrow> None
           | Some level \<Rightarrow>
               (case sweep pbranch inner matchlevel count level (inner ! level) (matchlevel = Some level, branch) of
                  None \<Rightarrow> None
                | Some (h, branch) \<Rightarrow> Some (h, mutated, branch))))"

definition ComputeMerkleRoot :: "bytes list \<Rightarrow> (bytes \<times> bool) option" where
  "ComputeMerkleRoot leaves = map_option (\<lambda>(h, mutated, _). (h, mutated)) (MerkleComputation False leaves (2 ^ 32 - 1))"

definition ComputeMerkleBranch :: "bytes list \<Rightarrow> nat \<Rightarrow> bytes list option" where
  "ComputeMerkleBranch leaves position = map_option (\<lambda>(_, _, branch). branch) (MerkleComputation True leaves position)"

primrec ComputeMerkleRootFromBranch :: "bytes list \<Rightarrow> bytes \<Rightarrow> nat \<Rightarrow> bytes" where
  "ComputeMerkleRootFromBranch [] hash nIndex = hash"
| "ComputeMerkleRootFromBranch (b # vMerkleBranch) hash nIndex =
     ComputeMerkleRootFromBranch vMerkleBranch (if bit nIndex 0 then Hash2 b hash else Hash2 hash b) (drop_bit 1 nIndex)"

definition BlockMerkleRoot :: "CTransaction list \<Rightarrow> (bytes \<times> bool) option" where
  "BlockMerkleRoot vtx = ComputeMerkleRoot (map tx_GetHash vtx)"

text \<open>Indexing the coinbase of an empty block is the error.\<close>

definition BlockWitnessMerkleRoot :: "CTransaction list \<Rightarrow> (bytes \<times> bool) option" where
  "BlockWitnessMerkleRoot vtx =
     (case vtx of [] \<Rightarrow> None | _ # rest \<Rightarrow> ComputeMerkleRoot (uint256_null # map GetWitnessHash rest))"

definition BlockMerkleBranch :: "CTransaction list \<Rightarrow> nat \<Rightarrow> bytes list option" where
  "BlockMerkleBranch vtx position = ComputeMerkleBranch (map tx_GetHash vtx) position"

section \<open>The tree\<close>

text \<open>The recursive definition of \<^verbatim>\<open>src/merkleblock.cpp\<close>.\<close>

definition CalcTreeWidth :: "nat \<Rightarrow> nat \<Rightarrow> nat" where
  "CalcTreeWidth nTransactions height = (nTransactions + 2 ^ height - 1) div 2 ^ height"

primrec CalcHash :: "bytes list \<Rightarrow> nat \<Rightarrow> nat \<Rightarrow> bytes" where
  "CalcHash vTxid 0 pos = vTxid ! pos"
| "CalcHash vTxid (Suc height) pos =
     (let left = CalcHash vTxid height (pos * 2);
          right = (if pos * 2 + 1 < CalcTreeWidth (length vTxid) height then CalcHash vTxid height (pos * 2 + 1) else left)
      in Hash2 left right)"

text \<open>The tree level by level: the last hash of a level of odd length is paired with itself.\<close>

fun merkle_level :: "bytes list \<Rightarrow> bytes list" where
  "merkle_level (a # b # xs) = Hash2 a b # merkle_level xs"
| "merkle_level [a] = [Hash2 a a]"
| "merkle_level [] = []"

lemma length_merkle_level: "length (merkle_level xs) = (length xs + 1) div 2"
  by (induction xs rule: merkle_level.induct) simp_all

function merkle_root :: "bytes list \<Rightarrow> bytes" where
  "merkle_root [] = uint256_null"
| "merkle_root [h] = h"
| "merkle_root (a # b # xs) = merkle_root (merkle_level (a # b # xs))"
  by pat_completeness auto
termination
  by (relation "measure length") (auto simp: length_merkle_level)

section \<open>Widths and nodes\<close>

lemma width_pos: "0 < n \<Longrightarrow> CalcTreeWidth n l = (n - 1) div 2 ^ l + 1"
proof -
  assume "0 < n"
  then have "n + 2 ^ l - 1 = (n - 1) + 2 ^ l" by simp
  then show ?thesis by (simp add: CalcTreeWidth_def)
qed

lemma width_Suc: "0 < n \<Longrightarrow> CalcTreeWidth n (Suc l) = (CalcTreeWidth n l + 1) div 2"
proof -
  have "(n - 1) div 2 ^ Suc l = (n - 1) div 2 ^ l div 2" by (simp only: power_Suc2 div_mult2_eq)
  then show "0 < n \<Longrightarrow> CalcTreeWidth n (Suc l) = (CalcTreeWidth n l + 1) div 2" by (simp add: width_pos)
qed

lemma width_0 [simp]: "CalcTreeWidth n 0 = n"
  by (simp add: CalcTreeWidth_def)

lemma width_less: "q < CalcTreeWidth n l \<longleftrightarrow> q * 2 ^ l < n"
proof (cases "n = 0")
  case True
  then show ?thesis by (simp add: CalcTreeWidth_def)
next
  case False
  then have "q < CalcTreeWidth n l \<longleftrightarrow> q \<le> (n - 1) div 2 ^ l" by (auto simp: width_pos)
  also have "\<dots> \<longleftrightarrow> q * 2 ^ l \<le> n - 1" by (simp add: less_eq_div_iff_mult_less_eq)
  finally show ?thesis using False by auto
qed

lemma width_ge: "Suc q * 2 ^ l \<le> n \<Longrightarrow> Suc q \<le> CalcTreeWidth n l"
proof -
  assume "Suc q * 2 ^ l \<le> n"
  then have "q * 2 ^ l < n" by (simp add: less_le_trans [rotated])
  then show ?thesis by (simp only: width_less [symmetric] Suc_le_eq)
qed

lemma CalcHash_pair:
  "2 * j + 1 < CalcTreeWidth (length xs) l \<Longrightarrow>
   CalcHash xs (Suc l) j = Hash2 (CalcHash xs l (2 * j)) (CalcHash xs l (2 * j + 1))"
  by (simp add: Let_def mult.commute)

lemma CalcHash_last:
  "CalcTreeWidth (length xs) l = 2 * j + 1 \<Longrightarrow> CalcHash xs (Suc l) j = Hash2 (CalcHash xs l (2 * j)) (CalcHash xs l (2 * j))"
  by (simp add: Let_def mult.commute)

text \<open>The sibling of the node above a leaf, at every level.\<close>

definition sibling :: "bytes list \<Rightarrow> nat \<Rightarrow> nat \<Rightarrow> bytes" where
  "sibling xs pos l =
     (let i = pos div 2 ^ l
      in CalcHash xs l (if odd i then i - 1 else if i + 1 < CalcTreeWidth (length xs) l then i + 1 else i))"

lemma climb_step:
  "level < 32 \<Longrightarrow> \<not> bit count level \<Longrightarrow>
   climb pb count inner ml level h mb mut =
   climb pb count inner ml (level + 1) (Hash2 (inner ! level) h) (branch_step pb inner ml level h mb) (mut \<or> inner ! level = h)"
  by (subst climb.simps) simp

lemma climb_stop: "level < 32 \<Longrightarrow> bit count level \<Longrightarrow> climb pb count inner ml level h mb mut = Some (level, h, mb, mut)"
  by (subst climb.simps) simp

lemma climb_indep:
  "map_option (\<lambda>(l, h, mb, mut). (l, h, mut)) (climb pb c inner ml l h mb mut) =
   map_option (\<lambda>(l, h, mb, mut). (l, h, mut)) (climb pb' c inner ml' l h mb' mut)"
proof (induction "32 - l" arbitrary: l h mb mb' mut)
  case 0
  then show ?case by (simp add: climb.simps)
next
  case (Suc k)
  then show ?case by (cases "bit c l") (simp_all add: climb_stop climb_step)
qed

text \<open>A pair of equal siblings, at level \<open>m\<close>, that ends at leaf \<open>c\<close>.\<close>

definition equal_pair :: "bytes list \<Rightarrow> nat \<Rightarrow> nat \<Rightarrow> bool" where
  "equal_pair xs c m \<longleftrightarrow> (\<exists>j. c = (2 * j + 2) * 2 ^ m \<and> CalcHash xs m (2 * j) = CalcHash xs m (2 * j + 1))"

lemma ex_Suc_le: "(\<exists>m\<ge>l. P m) \<longleftrightarrow> P l \<or> (\<exists>m\<ge>Suc l. P m)"
  by (metis Suc_leD Suc_leI le_neq_implies_less order_refl)

text \<open>
  The climb from a node whose left neighbours are stored: it reaches the level of the lowest set bit of the counter,
  holding the node that ends at the counter there, collects the siblings of the matched leaf, and notices equal pairs.
\<close>

lemma climb_general:
  assumes inner: "\<And>l j. l0 \<le> l \<Longrightarrow> c = (2 * j + 2) * 2 ^ l \<Longrightarrow> inner ! l = CalcHash xs l (2 * j) \<and> 2 * j + 1 < CalcTreeWidth (length xs) l"
    and ml: "\<And>m j. ml = Some m \<Longrightarrow> l0 \<le> m \<Longrightarrow> c = (2 * j + 2) * 2 ^ m \<Longrightarrow>
      pos div 2 ^ m = 2 * j \<and> br = map (sibling xs pos) [0..<m]"
    and c: "c < 2 ^ 32"
  shows "l0 \<le> l \<Longrightarrow> c = Suc p * 2 ^ l \<Longrightarrow>
    (if fst mb then pos div 2 ^ l = p \<and> snd mb = map (sibling xs pos) [0..<l] else snd mb = br) \<Longrightarrow>
    \<exists>l' p' mb' mut'. climb True c inner ml l (CalcHash xs l p) mb mut = Some (l', CalcHash xs l' p', mb', mut') \<and>
      l \<le> l' \<and> c = Suc p' * 2 ^ l' \<and> even p' \<and>
      (if fst mb' then pos div 2 ^ l' = p' \<and> snd mb' = map (sibling xs pos) [0..<l']
       else \<not> fst mb \<and> snd mb' = br \<and> (\<forall>m. ml = Some m \<longrightarrow> m < l \<or> l' \<le> m)) \<and>
      (mut' \<longleftrightarrow> mut \<or> (\<exists>m\<ge>l. equal_pair xs c m))"
proof (induction "32 - l" arbitrary: l p mb mut)
  case 0
  have "2 ^ 32 \<le> (2::nat) ^ l" using "0.hyps" by (intro power_increasing) simp_all
  also have "\<dots> \<le> c" using "0.prems"(2) by simp
  finally show ?case using c by simp
next
  case (Suc k)
  have l: "l < 32" and k: "k = 32 - Suc l" using Suc.hyps(2) by simp_all
  have bit: "bit c l \<longleftrightarrow> even p" by (simp add: bit_iff_odd Suc.prems(2))
  show ?case
  proof (cases "even p")
    case True
    have no: "c \<noteq> (2 * j + 2) * 2 ^ m" if m: "l \<le> m" for m j
    proof
      assume e: "c = (2 * j + 2) * 2 ^ m"
      have "(2::nat) ^ m = 2 ^ (m - l) * 2 ^ l" using m by (simp add: power_add [symmetric])
      then have "Suc p * 2 ^ l = ((2 * j + 2) * 2 ^ (m - l)) * 2 ^ l" using e Suc.prems(2) by (simp only: mult.assoc)
      then have "Suc p = (2 * j + 2) * 2 ^ (m - l)" by (simp only: mult_cancel2) simp
      then show False using True by (metis dvd_triv_left even_Suc even_mult_iff add.commute even_add)
    qed
    then show ?thesis
      using climb_stop [OF l, of c] bit True Suc.prems by (intro exI [of _ l] exI [of _ p]) (auto simp: equal_pair_def)
  next
    case False
    then obtain j where j: "p = 2 * j + 1" by (auto elim: oddE)
    then have cj: "c = (2 * j + 2) * 2 ^ l" using Suc.prems(2) by simp
    note i = inner [OF Suc.prems(1) cj]
    let ?h = "CalcHash xs l p"
    let ?mb = "branch_step True inner ml l ?h mb"
    have c': "c = Suc j * 2 ^ Suc l" using cj by simp
    have h': "Hash2 (inner ! l) ?h = CalcHash xs (Suc l) j" using CalcHash_pair [of j xs l] i j by simp
    have pos: "pos div 2 ^ Suc l = pos div 2 ^ l div 2" by (simp only: power_Suc2 div_mult2_eq)
    have mb': "if fst ?mb then pos div 2 ^ Suc l = j \<and> snd ?mb = map (sibling xs pos) [0..<Suc l] else snd ?mb = br"
      using Suc.prems(3) i j ml [OF _ Suc.prems(1) cj] unfolding pos
      by (auto simp: branch_step_def split_beta sibling_def Let_def split: if_splits)
    have nm: "\<not> fst ?mb \<Longrightarrow> \<not> fst mb \<and> ml \<noteq> Some l" by (auto simp: branch_step_def split_beta split: if_splits)
    have eqj: "c = (2 * j' + 2) * 2 ^ l \<longleftrightarrow> j' = j" for j' using cj by (simp only: mult_cancel2) auto
    have eq: "inner ! l = ?h \<longleftrightarrow> equal_pair xs c l"
      unfolding equal_pair_def eqj using i j by simp
    have mut: "(mut \<or> inner ! l = ?h) \<or> (\<exists>m\<ge>Suc l. equal_pair xs c m) \<longleftrightarrow>
      mut \<or> (\<exists>m\<ge>l. equal_pair xs c m)"
      unfolding eq ex_Suc_le [of l] by blast
    have l0: "l0 \<le> Suc l" using Suc.prems(1) by simp
    from Suc.hyps(1) [OF k l0 c' mb', of "mut \<or> inner ! l = ?h"] obtain l' p' mb' mut' where r: "climb True c inner ml (Suc l) (CalcHash xs (Suc l) j) ?mb (mut \<or> inner ! l = ?h) = Some (l', CalcHash xs l' p', mb', mut')"
      "Suc l \<le> l'" "c = Suc p' * 2 ^ l'" "even p'"
      "if fst mb' then pos div 2 ^ l' = p' \<and> snd mb' = map (sibling xs pos) [0..<l']
       else \<not> fst ?mb \<and> snd mb' = br \<and> (\<forall>m. ml = Some m \<longrightarrow> m < Suc l \<or> l' \<le> m)"
      "mut' \<longleftrightarrow> (mut \<or> inner ! l = ?h) \<or> (\<exists>m\<ge>Suc l. equal_pair xs c m)"
      by blast
    have "climb True c inner ml l ?h mb mut = Some (l', CalcHash xs l' p', mb', mut')"
      using climb_step [OF l, of c] bit False r(1) h' by simp
    moreover have "if fst mb' then pos div 2 ^ l' = p' \<and> snd mb' = map (sibling xs pos) [0..<l']
       else \<not> fst mb \<and> snd mb' = br \<and> (\<forall>m. ml = Some m \<longrightarrow> m < l \<or> l' \<le> m)"
      using r(5) nm by (auto simp: less_Suc_eq split: if_splits)
    ultimately show ?thesis
      using r(2-4) r(6) mut by (intro exI [of _ l'] exI [of _ p'] exI [of _ mb'] exI [of _ mut'] conjI) simp_all
  qed
qed

section \<open>Processing the leaves\<close>

definition inner_ok :: "bytes list \<Rightarrow> nat \<Rightarrow> bytes list \<Rightarrow> bool" where
  "inner_ok xs c inner \<longleftrightarrow> length inner = 32 \<and> (\<forall>m<32. bit c m \<longrightarrow> inner ! m = CalcHash xs m (c div 2 ^ m - 1))"

definition branch_ok :: "bytes list \<Rightarrow> nat \<Rightarrow> nat \<Rightarrow> nat option \<Rightarrow> bytes list \<Rightarrow> bool" where
  "branch_ok xs pos c ml br \<longleftrightarrow>
     (if pos < c then \<exists>m. ml = Some m \<and> bit c m \<and> Suc (pos div 2 ^ m) = c div 2 ^ m \<and> br = map (sibling xs pos) [0..<m]
      else ml = None \<and> br = [])"

lemma pred_div: "Suc c = Suc q * 2 ^ l \<Longrightarrow> c div 2 ^ l = (q :: nat)"
proof (rule div_nat_eqI)
  assume c: "Suc c = Suc q * 2 ^ l"
  then show "c < 2 ^ l * Suc q" by (simp add: mult.commute)
  have "0 < (2::nat) ^ l" by simp
  with c show "2 ^ l * q \<le> c" unfolding mult_Suc by (simp only: mult.commute)
qed

lemma exponent_lt_32: "(c :: nat) = Suc q * 2 ^ l \<Longrightarrow> c < 2 ^ 32 \<Longrightarrow> l < 32"
proof (rule ccontr)
  assume c: "c = Suc q * 2 ^ l" "c < 2 ^ 32" "\<not> l < 32"
  then have "2 ^ 32 \<le> (2::nat) ^ l" by (intro power_increasing) simp_all
  also have "\<dots> \<le> c" using c(1) by simp
  finally show False using c(2) by simp
qed

lemma div_above: "Suc c = Suc p * 2 ^ l \<Longrightarrow> even p \<Longrightarrow> l < m \<Longrightarrow> Suc c div 2 ^ m = c div 2 ^ (m :: nat)"
proof -
  assume c: "Suc c = Suc p * 2 ^ l" and p: "even p" and m: "l < m"
  define d where "d = m - Suc l"
  have d: "m = l + Suc d" using m by (simp add: d_def)
  have "Suc c div 2 ^ m = Suc p div 2 ^ Suc d" unfolding d power_add div_mult2_eq c by simp
  also have "\<dots> = p div 2 ^ Suc d" unfolding power_Suc div_mult2_eq using p by simp
  also have "\<dots> = c div 2 ^ m" unfolding d power_add div_mult2_eq pred_div [OF c] ..
  finally show ?thesis .
qed

lemma bit_below_exponent: "(c :: nat) = q * 2 ^ l \<Longrightarrow> m < l \<Longrightarrow> \<not> bit c m"
proof -
  assume c: "c = q * 2 ^ l" and m: "m < l"
  define d where "d = l - Suc m"
  have d: "l = m + Suc d" using m by (simp add: d_def)
  have "c = 2 ^ m * (q * 2 ^ Suc d)" by (simp add: c d power_add)
  then have "c div 2 ^ m = q * 2 ^ Suc d" by simp
  then show ?thesis by (simp add: bit_iff_odd)
qed

lemma leaf_step:
  assumes c: "c < length xs" "length xs < 2 ^ 32" and inner: "inner_ok xs c inner" and br: "branch_ok xs pos c ml br"
  shows "\<exists>l p mb mut'. climb True (Suc c) inner ml 0 (xs ! c) (c = pos, br) mut = Some (l, CalcHash xs l p, mb, mut') \<and>
    inner_ok xs (Suc c) (inner[l := CalcHash xs l p]) \<and>
    branch_ok xs pos (Suc c) (if fst mb then Some l else ml) (snd mb) \<and> (mut' \<longleftrightarrow> mut \<or> (\<exists>m. equal_pair xs (Suc c) m))"
proof -
  have lt: "Suc c < 2 ^ 32" using c by simp
  have 1: "inner ! l = CalcHash xs l (2 * j) \<and> 2 * j + 1 < CalcTreeWidth (length xs) l" if "Suc c = (2 * j + 2) * 2 ^ l" for l j
  proof -
    have e: "Suc c = Suc (2 * j + 1) * 2 ^ l" using that by simp
    then have "c div 2 ^ l = 2 * j + 1" "l < 32" using pred_div exponent_lt_32 lt by blast+
    moreover have "Suc (2 * j + 1) * 2 ^ l \<le> length xs" using e c by simp
    then have "Suc (2 * j + 1) \<le> CalcTreeWidth (length xs) l" by (rule width_ge)
    ultimately show ?thesis using inner by (simp add: inner_ok_def bit_iff_odd)
  qed
  have 2: "pos div 2 ^ m = 2 * j \<and> br = map (sibling xs pos) [0..<m]" if "ml = Some m" "Suc c = (2 * j + 2) * 2 ^ m" for m j
  proof -
    have "Suc c = Suc (2 * j + 1) * 2 ^ m" using that by simp
    then have "c div 2 ^ m = 2 * j + 1" by (rule pred_div)
    then show ?thesis using br that(1) by (auto simp: branch_ok_def split: if_splits)
  qed
  have 3: "if fst (c = pos, br) then pos div 2 ^ 0 = c \<and> snd (c = pos, br) = map (sibling xs pos) [0..<0] else snd (c = pos, br) = br"
    using br by (auto simp: branch_ok_def)
  have "Suc c = Suc c * 2 ^ 0" by simp
  from climb_general [where ?l0.0 = 0 and c = "Suc c" and inner = inner and xs = xs and ml = ml and pos = pos and br = br
      and l = 0 and p = c and mb = "(c = pos, br)" and mut = mut, OF 1 2 lt le0 this 3]
  obtain l p mb mut' where r0: "climb True (Suc c) inner ml 0 (CalcHash xs 0 c) (c = pos, br) mut = Some (l, CalcHash xs l p, mb, mut')"
    "Suc c = Suc p * 2 ^ l" "even p"
    "if fst mb then pos div 2 ^ l = p \<and> snd mb = map (sibling xs pos) [0..<l]
     else \<not> fst (c = pos, br) \<and> snd mb = br \<and> (\<forall>m. ml = Some m \<longrightarrow> m < 0 \<or> l \<le> m)"
    "mut' \<longleftrightarrow> mut \<or> (\<exists>m\<ge>0. equal_pair xs (Suc c) m)" by blast
  have r: "climb True (Suc c) inner ml 0 (xs ! c) (c = pos, br) mut = Some (l, CalcHash xs l p, mb, mut')"
    "Suc c = Suc p * 2 ^ l" "even p"
    "if fst mb then pos div 2 ^ l = p \<and> snd mb = map (sibling xs pos) [0..<l]
     else c \<noteq> pos \<and> snd mb = br \<and> (\<forall>m. ml = Some m \<longrightarrow> l \<le> m)"
    "mut' \<longleftrightarrow> mut \<or> (\<exists>m. equal_pair xs (Suc c) m)"
    using r0(1) r0(4,5) by (simp_all only: r0(2,3) CalcHash.simps fst_conv not_less_zero le0 simp_thms)
  have l: "l < 32" using exponent_lt_32 [OF r(2) lt] .
  have div: "Suc c div 2 ^ l = Suc p" using r(2) by simp
  have bit_l: "bit (Suc c) l" "\<not> bit c l" using div pred_div [OF r(2)] r(3) by (simp_all add: bit_iff_odd)
  have above: "Suc c div 2 ^ m = c div 2 ^ m" "bit (Suc c) m = bit c m" if "l < m" for m
    using div_above [OF r(2,3) that] by (simp_all add: bit_iff_odd)
  have "inner_ok xs (Suc c) (inner[l := CalcHash xs l p])"
    unfolding inner_ok_def
  proof (intro conjI allI impI)
    fix m assume m: "m < 32" "bit (Suc c) m"
    consider "m < l" | "m = l" | "l < m" by linarith
    then show "inner[l := CalcHash xs l p] ! m = CalcHash xs m (Suc c div 2 ^ m - 1)"
    proof cases
      case 1
      then show ?thesis using m(2) bit_below_exponent [OF r(2)] by blast
    next
      case 2
      then show ?thesis using l div inner by (simp add: inner_ok_def)
    next
      case 3
      then show ?thesis using inner m above [OF 3] by (simp add: inner_ok_def)
    qed
  qed (use inner in \<open>simp add: inner_ok_def\<close>)
  moreover have "branch_ok xs pos (Suc c) (if fst mb then Some l else ml) (snd mb)"
  proof (cases "fst mb")
    case True
    then have "pos div 2 ^ l < Suc p" using r(4) by simp
    then have "pos < Suc c" unfolding r(2) by (simp only: div_less_iff_less_mult zero_less_power zero_less_numeral)
    then show ?thesis using True r(4) bit_l div by (simp add: branch_ok_def)
  next
    case False
    then have nm: "c \<noteq> pos" "snd mb = br" "\<And>m. ml = Some m \<Longrightarrow> l \<le> m" using r(4) by auto
    show ?thesis
    proof (cases "pos < c")
      case True
      then obtain m where m: "ml = Some m" "bit c m" "Suc (pos div 2 ^ m) = c div 2 ^ m" "br = map (sibling xs pos) [0..<m]"
        using br by (auto simp: branch_ok_def)
      then have "l < m" using nm(3) [of m] bit_l(2) by (metis le_neq_implies_less)
      with m above [of m] False nm(2) True show ?thesis by (auto simp: branch_ok_def)
    next
      case False': False
      then show ?thesis using br nm False by (auto simp: branch_ok_def)
    qed
  qed
  ultimately show ?thesis using r(1,5) by auto
qed

lemma leaves_loop_ok:
  assumes "length xs < 2 ^ 32"
  shows "c \<le> length xs \<Longrightarrow> inner_ok xs c inner \<Longrightarrow> branch_ok xs pos c ml br \<Longrightarrow> (mut \<longleftrightarrow> (\<exists>c'\<le>c. \<exists>m. equal_pair xs c' m)) \<Longrightarrow>
    \<exists>inner' ml' br' mut'. leaves_loop True pos (drop c xs) c inner ml br mut = Some (length xs, inner', ml', br', mut') \<and>
      inner_ok xs (length xs) inner' \<and> branch_ok xs pos (length xs) ml' br' \<and> (mut' \<longleftrightarrow> (\<exists>c'\<le>length xs. \<exists>m. equal_pair xs c' m))"
proof (induction "length xs - c" arbitrary: c inner ml br mut)
  case 0
  then show ?case by simp
next
  case (Suc k)
  then have c: "c < length xs" and k: "k = length xs - Suc c" by simp_all
  obtain l p mb mut' where st: "climb True (Suc c) inner ml 0 (xs ! c) (c = pos, br) mut = Some (l, CalcHash xs l p, mb, mut')"
    "inner_ok xs (Suc c) (inner[l := CalcHash xs l p])"
    "branch_ok xs pos (Suc c) (if fst mb then Some l else ml) (snd mb)" "mut' \<longleftrightarrow> mut \<or> (\<exists>m. equal_pair xs (Suc c) m)"
    using leaf_step [OF c assms Suc.prems(2,3)] by blast
  have "mut' \<longleftrightarrow> (\<exists>c'\<le>Suc c. \<exists>m. equal_pair xs c' m)" unfolding st(4) Suc.prems(4) by (auto simp: le_Suc_eq)
  from Suc.hyps(1) [OF k _ st(2,3) this] c have
    "\<exists>inner' ml' br' mut''. leaves_loop True pos (drop (Suc c) xs) (Suc c) (inner[l := CalcHash xs l p]) (if fst mb then Some l else ml) (snd mb) mut' =
      Some (length xs, inner', ml', br', mut'') \<and>
      inner_ok xs (length xs) inner' \<and> branch_ok xs pos (length xs) ml' br' \<and> (mut'' \<longleftrightarrow> (\<exists>c'\<le>length xs. \<exists>m. equal_pair xs c' m))"
    by simp
  moreover have "leaves_loop True pos (drop c xs) c inner ml br mut =
      leaves_loop True pos (drop (Suc c) xs) (Suc c) (inner[l := CalcHash xs l p]) (if fst mb then Some l else ml) (snd mb) mut'"
    using c assms st(1) by (simp add: Cons_nth_drop_Suc [symmetric] Let_def split_beta)
  ultimately show ?case by simp
qed

section \<open>The final sweep\<close>

lemma div_between: "p * d < (n :: nat) \<Longrightarrow> n < Suc p * d \<Longrightarrow> n div d = p"
  by (rule div_nat_eqI) (simp_all add: mult.commute)

lemma width_between: "p * 2 ^ l < n \<Longrightarrow> n \<le> Suc p * 2 ^ l \<Longrightarrow> CalcTreeWidth n l = Suc p"
  using width_less [of p n l] width_less [of "Suc p" n l] by simp

lemma coarser:
  assumes "(c :: nat) = Suc j * 2 ^ k" "c = Suc i * 2 ^ m" "k \<le> m" "j * 2 ^ k < n"
  shows "i * 2 ^ m < n" and "i \<le> j"
proof -
  have le: "(2::nat) ^ k \<le> 2 ^ m" using assms(3) by (intro power_increasing) simp_all
  have "i * 2 ^ m + 2 ^ m = j * 2 ^ k + 2 ^ k" using assms(1,2) by simp
  with le assms(4) show "i * 2 ^ m < n" by linarith
  have "Suc i * 2 ^ k \<le> Suc i * 2 ^ m" using le by (rule mult_le_mono2)
  also have "\<dots> = Suc j * 2 ^ k" using assms(1,2) by simp
  finally show "i \<le> j" by simp
qed

lemma sweep_ok:
  assumes n: "n = length xs" "n \<le> 2 ^ 31" "pos < n" and inner: "inner_ok xs n inner" and br: "branch_ok xs pos n ml br"
  shows "CalcTreeWidth n l = Suc p \<Longrightarrow> even p \<Longrightarrow> l = 0 \<or> 2 ^ (l - 1) < n \<Longrightarrow>
    (if fst mb then pos div 2 ^ l = p \<and> snd mb = map (sibling xs pos) [0..<l] else snd mb = br \<and> (\<forall>m. ml = Some m \<longrightarrow> l < m)) \<Longrightarrow>
    \<exists>L. sweep True inner ml (Suc p * 2 ^ l) l (CalcHash xs l p) mb = Some (CalcHash xs L 0, map (sibling xs pos) [0..<L]) \<and>
      CalcTreeWidth n L = 1 \<and> (L = 0 \<or> 2 ^ (L - 1) < n)"
proof (induction p arbitrary: l mb rule: less_induct)
  case (less p)
  obtain m0 where m0: "ml = Some m0" "bit n m0" "Suc (pos div 2 ^ m0) = n div 2 ^ m0" "br = map (sibling xs pos) [0..<m0]"
    using br n(3) by (auto simp: branch_ok_def)
  show ?case
  proof (cases "p = 0")
    case True
    have "n \<le> 2 ^ l" using less.prems(1) True width_less [of 1 n l] by simp
    have "fst mb"
    proof (rule ccontr)
      assume "\<not> fst mb"
      then have "l < m0" using less.prems(4) m0(1) by simp
      then have "(2::nat) ^ l < 2 ^ m0" by (intro power_strict_increasing) simp_all
      also have "\<dots> \<le> n" using m0(2) by (rule bit_nat_le)
      finally show False using \<open>n \<le> 2 ^ l\<close> by simp
    qed
    then show ?thesis
      using True less.prems by (intro exI [of _ l]) (simp add: sweep.simps)
  next
    case False
    with less.prems(2) obtain j where j: "p = 2 * j" "0 < j" by (auto elim!: evenE)
    define c where "c = Suc j * 2 ^ Suc l"
    have cl: "c = Suc p * 2 ^ l + 2 ^ l" by (simp add: c_def j algebra_simps)
    have lo: "j * 2 ^ Suc l < n" using width_less [of p n l] less.prems(1) by (simp add: j algebra_simps)
    have up: "n < c" using width_less [of "Suc p" n l] less.prems(1) unfolding cl by (simp add: not_less) (simp add: order_le_less_trans)
    have c31: "c \<le> 2 ^ 31"
    proof -
      have "2 ^ Suc l \<le> j * 2 ^ Suc l" using j(2) by simp
      with lo n(2) have "(2::nat) ^ Suc l < 2 ^ 31" by linarith
      then have "Suc l < 31" by (rule power_less_imp_less_exp [rotated]) simp
      then have e: "(2::nat) ^ 31 = 2 ^ (31 - Suc l) * 2 ^ Suc l" by (simp only: power_add [symmetric]) simp
      have "j * 2 ^ Suc l < 2 ^ (31 - Suc l) * 2 ^ Suc l" using lo n(2) unfolding e [symmetric] by linarith
      then have "Suc j \<le> 2 ^ (31 - Suc l)" by (simp only: mult_less_cancel2) simp
      then show ?thesis unfolding e c_def by (rule mult_le_mono1)
    qed
    then have c32: "c < 2 ^ 32" by simp
    have 1: "inner ! m = CalcHash xs m (2 * i) \<and> 2 * i + 1 < CalcTreeWidth (length xs) m" if "Suc l \<le> m" "c = (2 * i + 2) * 2 ^ m" for m i
    proof -
      have ci: "c = Suc (2 * i + 1) * 2 ^ m" using that(2) by simp
      have lo': "(2 * i + 1) * 2 ^ m < n" using coarser(1) [OF c_def ci that(1) lo] .
      then have "n div 2 ^ m = 2 * i + 1" using up unfolding ci by (rule div_between)
      moreover have "m < 32" using exponent_lt_32 [OF ci c32] .
      ultimately show ?thesis using inner lo' n(1) by (simp add: inner_ok_def bit_iff_odd width_less)
    qed
    have 2: "pos div 2 ^ m = 2 * i \<and> br = map (sibling xs pos) [0..<m]" if "ml = Some m" "Suc l \<le> m" "c = (2 * i + 2) * 2 ^ m" for m i
    proof -
      have ci: "c = Suc (2 * i + 1) * 2 ^ m" using that(3) by simp
      have "n div 2 ^ m = 2 * i + 1" using coarser(1) [OF c_def ci that(2) lo] up unfolding ci by (rule div_between)
      then show ?thesis using m0 that(1) by simp
    qed
    let ?mb = "if fst mb then (fst mb, snd mb @ [CalcHash xs l p]) else mb"
    have pos: "pos div 2 ^ Suc l = pos div 2 ^ l div 2" by (simp only: power_Suc2 div_mult2_eq)
    have 3: "if fst ?mb then pos div 2 ^ Suc l = j \<and> snd ?mb = map (sibling xs pos) [0..<Suc l] else snd ?mb = br"
      using less.prems(1,4) unfolding pos by (auto simp: sibling_def Let_def j n(1))
    from climb_general [where ?l0.0 = "Suc l" and c = c and inner = inner and xs = xs and ml = ml and pos = pos and br = br
        and l = "Suc l" and p = j and mb = ?mb and mut = False, OF 1 2 c32 order_refl c_def 3]
    obtain l' p' mb' mut' where r: "climb True c inner ml (Suc l) (CalcHash xs (Suc l) j) ?mb False = Some (l', CalcHash xs l' p', mb', mut')"
      "Suc l \<le> l'" "c = Suc p' * 2 ^ l'" "even p'"
      "if fst mb' then pos div 2 ^ l' = p' \<and> snd mb' = map (sibling xs pos) [0..<l']
       else \<not> fst ?mb \<and> snd mb' = br \<and> (\<forall>m. ml = Some m \<longrightarrow> m < Suc l \<or> l' \<le> m)" by blast
    note lo' = coarser [OF c_def r(3) r(2) lo]
    have w: "CalcTreeWidth n l' = Suc p'" using lo'(1) up unfolding r(3) by (intro width_between) simp_all
    have "p' < p" using lo'(2) j by simp
    moreover have "l' = 0 \<or> 2 ^ (l' - 1) < n"
    proof (cases "p' = 0")
      case True
      then have c': "c = 2 ^ l'" using r(3) by simp
      have "l' \<noteq> Suc l" using c' j(2) unfolding c_def by auto
      then have "(2::nat) ^ Suc l \<le> 2 ^ (l' - 1)" using r(2) by (intro power_increasing) simp_all
      moreover have "c = 2 ^ (l' - 1) + 2 ^ (l' - 1)" using r(2) c' by (cases l') simp_all
      moreover have "c = j * 2 ^ Suc l + 2 ^ Suc l" by (simp add: c_def)
      ultimately show ?thesis using lo by linarith
    next
      case False
      then have "2 ^ l' \<le> p' * 2 ^ l'" by simp
      moreover have "(2::nat) ^ (l' - 1) \<le> 2 ^ l'" by (intro power_increasing) simp_all
      ultimately show ?thesis using lo'(1) by linarith
    qed
    moreover have "if fst mb' then pos div 2 ^ l' = p' \<and> snd mb' = map (sibling xs pos) [0..<l'] else snd mb' = br \<and> (\<forall>m. ml = Some m \<longrightarrow> l' < m)"
    proof (cases "fst mb'")
      case False
      then have "\<not> fst mb" "l' \<le> m0" using r(5) less.prems(4) m0(1) by (auto split: if_splits)
      moreover have "n div 2 ^ l' = p'" using lo'(1) up unfolding r(3) by (rule div_between)
      then have "\<not> bit n l'" using r(4) by (simp add: bit_iff_odd)
      then have "l' \<noteq> m0" using m0(2) by metis
      ultimately show ?thesis using False r(5) m0(1) by simp
    qed (use r(5) in simp)
    ultimately obtain L where L: "sweep True inner ml (Suc p' * 2 ^ l') l' (CalcHash xs l' p') mb' = Some (CalcHash xs L 0, map (sibling xs pos) [0..<L])"
      "CalcTreeWidth n L = 1" "L = 0 \<or> 2 ^ (L - 1) < n" using less.IH [OF _ w r(4)] by blast
    have h: "Hash2 (CalcHash xs l p) (CalcHash xs l p) = CalcHash xs (Suc l) j"
      using CalcHash_last [of xs l j] less.prems(1) by (simp add: j n(1))
    have ne: "Suc p * 2 ^ l \<noteq> 2 ^ l" using False by simp
    have l32: "l < 32" using exponent_lt_32 [OF r(3) c32] r(2) by simp
    have c_mod: "(Suc p * 2 ^ l + 2 ^ l) mod 2 ^ 32 = c" unfolding cl [symmetric] using c32 by simp
    have "sweep True inner ml (Suc p * 2 ^ l) l (CalcHash xs l p) mb = sweep True inner ml c l' (CalcHash xs l' p') mb'"
      using r(1) l32 ne by (subst sweep.simps) (simp only: Let_def c_mod h propagate_def simp_thms if_False if_True option.case prod.case Suc_eq_plus1 [symmetric])
    with L r(3) show ?thesis by auto
  qed
qed

section \<open>Roots and branches\<close>

text \<open>The height of the tree, by the loop of \<^verbatim>\<open>src/merkleblock.cpp\<close>.\<close>

lemma width_shrinks: "CalcTreeWidth n h > 1 \<Longrightarrow> CalcTreeWidth n (Suc h) < CalcTreeWidth n h"
proof -
  assume w: "CalcTreeWidth n h > 1"
  then have "0 < n" by (cases "n = 0") (auto simp: CalcTreeWidth_def)
  then have "CalcTreeWidth n (Suc h) = (CalcTreeWidth n h + 1) div 2" by (rule width_Suc)
  then show ?thesis using w by linarith
qed

function tree_height_loop :: "nat \<Rightarrow> nat \<Rightarrow> nat" where
  "tree_height_loop n h = (if CalcTreeWidth n h > 1 then tree_height_loop n (h + 1) else h)"
  by pat_completeness auto
termination
  by (relation "measure (\<lambda>(n, h). CalcTreeWidth n h)") (auto simp: width_shrinks)

declare tree_height_loop.simps [simp del]

definition tree_height :: "nat \<Rightarrow> nat" where
  "tree_height n = tree_height_loop n 0"

lemma width_eq_1: "0 < n \<Longrightarrow> CalcTreeWidth n l = 1 \<longleftrightarrow> n \<le> 2 ^ l"
  using width_less [of 0 n l] width_less [of 1 n l] by auto

lemma width_pos': "0 < n \<Longrightarrow> 0 < CalcTreeWidth n l"
  using width_less [of 0 n l] by simp

lemma tree_height_eq:
  assumes "0 < n" "n \<le> 2 ^ L" "L = 0 \<or> 2 ^ (L - 1) < n"
  shows "tree_height n = L"
proof -
  have "tree_height_loop n h = L" if "h \<le> L" for h
    using that
  proof (induction "L - h" arbitrary: h)
    case 0
    then have "CalcTreeWidth n h = 1" using width_eq_1 [OF assms(1), of h] assms(2) by simp
    then show ?case using 0 by (subst tree_height_loop.simps) simp
  next
    case (Suc k)
    then have "(2::nat) ^ h \<le> 2 ^ (L - 1)" by (intro power_increasing) simp_all
    then have "\<not> n \<le> 2 ^ h" using assms(3) Suc(2) by (metis Suc_neq_Zero diff_0_eq_0 leD order_trans)
    then have "CalcTreeWidth n h > 1" using width_eq_1 [OF assms(1), of h] width_pos' [OF assms(1), of h] by linarith
    then show ?case using Suc by (subst tree_height_loop.simps) simp
  qed
  then show ?thesis by (simp add: tree_height_def)
qed

lemma tree_height_bounds:
  assumes "0 < n"
  shows "n \<le> 2 ^ tree_height n" and "tree_height n = 0 \<or> 2 ^ (tree_height n - 1) < n"
proof -
  define L where "L = (LEAST L. n \<le> 2 ^ L)"
  have ex: "n \<le> 2 ^ n" by (simp add: less_imp_le)
  have "n \<le> 2 ^ L" unfolding L_def using ex by (rule LeastI)
  moreover have "L = 0 \<or> 2 ^ (L - 1) < n"
    using not_less_Least [of "L - 1" "\<lambda>L. n \<le> 2 ^ L"] unfolding L_def [symmetric] by (cases L) auto
  ultimately show "n \<le> 2 ^ tree_height n" and "tree_height n = 0 \<or> 2 ^ (tree_height n - 1) < n"
    using tree_height_eq [OF assms, of L] by simp_all
qed

lemma skip_zeros_ok: "(n :: nat) = Suc q * 2 ^ l \<Longrightarrow> n < 2 ^ 32 \<Longrightarrow> \<exists>l' p. skip_zeros n l = Some l' \<and> n = Suc p * 2 ^ l' \<and> even p"
proof (induction q arbitrary: l rule: less_induct)
  case (less q)
  have l: "l < 32" using exponent_lt_32 [OF less.prems] .
  have bit: "bit n l \<longleftrightarrow> even q" by (simp add: bit_iff_odd less.prems(1))
  show ?case
  proof (cases "even q")
    case True
    then show ?thesis using l bit less.prems by (subst skip_zeros.simps) auto
  next
    case False
    then obtain j where j: "q = 2 * j + 1" by (auto elim: oddE)
    then have "n = Suc j * 2 ^ Suc l" using less.prems(1) by simp
    with less.IH [of j "Suc l"] less.prems(2) j have "\<exists>l' p. skip_zeros n (Suc l) = Some l' \<and> n = Suc p * 2 ^ l' \<and> even p" by simp
    moreover have "skip_zeros n l = skip_zeros n (Suc l)" using l bit False by (subst skip_zeros.simps) simp
    ultimately show ?thesis by simp
  qed
qed

definition mutated_tree :: "bytes list \<Rightarrow> bool" where
  "mutated_tree xs \<longleftrightarrow> (\<exists>m j. (2 * j + 2) * 2 ^ m \<le> length xs \<and> CalcHash xs m (2 * j) = CalcHash xs m (2 * j + 1))"

lemma mutated_tree_pairs: "(\<exists>c\<le>length xs. \<exists>m. equal_pair xs c m) \<longleftrightarrow> mutated_tree xs"
  by (auto simp: mutated_tree_def equal_pair_def)

lemma MerkleComputation_eq:
  assumes "pos < length xs" "length xs \<le> 2 ^ 31"
  shows "MerkleComputation True xs pos =
    Some (CalcHash xs (tree_height (length xs)) 0, mutated_tree xs, map (sibling xs pos) [0..<tree_height (length xs)])"
proof -
  let ?n = "length xs"
  have n32: "?n < 2 ^ 32" and n0: "0 < ?n" using assms by auto
  have "inner_ok xs 0 (replicate 32 uint256_null)" "branch_ok xs pos 0 None []"
    and "False \<longleftrightarrow> (\<exists>c'\<le>0. \<exists>m. equal_pair xs c' m)" by (auto simp: inner_ok_def branch_ok_def equal_pair_def)
  from leaves_loop_ok [OF n32 le0 this] obtain inner ml br mut where
    lv: "leaves_loop True pos xs 0 (replicate 32 uint256_null) None [] False = Some (?n, inner, ml, br, mut)"
      "inner_ok xs ?n inner" "branch_ok xs pos ?n ml br" "mut \<longleftrightarrow> mutated_tree xs"
    unfolding mutated_tree_pairs by auto
  have "?n = Suc (?n - 1) * 2 ^ 0" using n0 by simp
  from skip_zeros_ok [OF this n32] obtain l p where sk: "skip_zeros ?n 0 = Some l" "?n = Suc p * 2 ^ l" "even p" by blast
  have div: "?n div 2 ^ l = Suc p" by (subst sk(2)) simp
  have "p * 2 ^ l < ?n" "?n \<le> Suc p * 2 ^ l" using sk(2) by simp_all
  then have w: "CalcTreeWidth ?n l = Suc p" by (rule width_between)
  have bit: "bit ?n l" using div sk(3) by (simp add: bit_iff_odd)
  have l32: "l < 32" using exponent_lt_32 [OF sk(2) n32] .
  have h: "inner ! l = CalcHash xs l p" using lv(2) bit l32 div by (simp add: inner_ok_def)
  have "l = 0 \<or> 2 ^ (l - 1) < ?n"
  proof (cases l)
    case (Suc k)
    have "(2::nat) ^ k < 2 ^ l" using Suc by (intro power_strict_increasing) simp_all
    also have "\<dots> \<le> ?n" by (subst sk(2)) simp
    finally show ?thesis using Suc by simp
  qed simp
  moreover obtain m where m: "ml = Some m" "bit ?n m" "Suc (pos div 2 ^ m) = ?n div 2 ^ m" "br = map (sibling xs pos) [0..<m]"
    using lv(3) assms(1) by (auto simp: branch_ok_def)
  have "if ml = Some l then pos div 2 ^ l = p \<and> br = map (sibling xs pos) [0..<l] else br = br \<and> (\<forall>m. ml = Some m \<longrightarrow> l < m)"
    using m div bit_below_exponent [OF sk(2), of m] by (auto simp: linorder_neq_iff)
  ultimately obtain L where L: "sweep True inner ml (Suc p * 2 ^ l) l (CalcHash xs l p) (ml = Some l, br) =
      Some (CalcHash xs L 0, map (sibling xs pos) [0..<L])" "CalcTreeWidth ?n L = 1" "L = 0 \<or> 2 ^ (L - 1) < ?n"
    using sweep_ok [OF refl assms(2,1) lv(2,3) w sk(3), of "(ml = Some l, br)"] unfolding fst_conv snd_conv by metis
  have "tree_height ?n = L" using L(2,3) n0 width_eq_1 [OF n0, of L] by (intro tree_height_eq) simp_all
  then show ?thesis
    using lv(1,4) sk(1) L(1) n0 h unfolding sk(2) [symmetric] by (simp add: MerkleComputation_def)
qed

text \<open>The root and the flag do not depend on whether a branch is collected.\<close>

lemma leaves_loop_indep:
  "map_option (\<lambda>(c, inner, ml, br, mut). (c, inner, mut)) (leaves_loop pb pos xs c inner ml br mut) =
   map_option (\<lambda>(c, inner, ml, br, mut). (c, inner, mut)) (leaves_loop pb' pos' xs c inner ml' br' mut)"
proof (induction xs arbitrary: c inner ml ml' br br' mut)
  case (Cons x xs)
  let ?c = "(c + 1) mod 2 ^ 32"
  have "map_option (\<lambda>(l, h, mb, mut). (l, h, mut)) (climb pb ?c inner ml 0 x (c = pos, br) mut) =
        map_option (\<lambda>(l, h, mb, mut). (l, h, mut)) (climb pb' ?c inner ml' 0 x (c = pos', br') mut)"
    by (rule climb_indep)
  then show ?case by (auto simp: Let_def Cons split: option.split)
qed simp

lemma propagate_indep:
  "map_option (\<lambda>(l, h, mb). (l, h)) (propagate pb c inner ml l h mb) =
   map_option (\<lambda>(l, h, mb). (l, h)) (propagate pb' c inner ml' l h mb')"
  using climb_indep [of pb c inner ml l h mb False pb' ml' mb']
  by (cases "climb pb c inner ml l h mb False"; cases "climb pb' c inner ml' l h mb' False") (auto simp: propagate_def)

lemma sweep_indep:
  "map_option fst (sweep pb inner ml c l h mb) = map_option fst (sweep pb' inner ml' c l h mb')"
proof (induction "32 - l" arbitrary: c l h mb mb' rule: less_induct)
  case less
  let ?c = "(c + 2 ^ l) mod 2 ^ 32"
  define m1 where "m1 = (if pb \<and> fst mb then (fst mb, snd mb @ [h]) else mb)"
  define m2 where "m2 = (if pb' \<and> fst mb' then (fst mb', snd mb' @ [h]) else mb')"
  have eq: "map_option (\<lambda>(l, h, mb). (l, h)) (propagate pb ?c inner ml (l + 1) (Hash2 h h) m1) =
        map_option (\<lambda>(l, h, mb). (l, h)) (propagate pb' ?c inner ml' (l + 1) (Hash2 h h) m2)"
    by (rule propagate_indep)
  have IH: "map_option fst (sweep pb inner ml ?c l' h' a) = map_option fst (sweep pb' inner ml' ?c l' h' b)"
    if "propagate pb ?c inner ml (l + 1) (Hash2 h h) m1 = Some (l', h', a)" "l < 32" for l' h' a b
    using propagate_level [OF that(1)] that(2) by (intro less) linarith
  show ?case
    using eq IH unfolding sweep.simps [of pb inner ml c l h mb] sweep.simps [of pb' inner ml' c l h mb'] Let_def
      m1_def [symmetric] m2_def [symmetric]
    by (auto split: option.splits)
qed

lemma MerkleComputation_indep:
  "map_option (\<lambda>(h, mut, _). (h, mut)) (MerkleComputation pb xs pos) = map_option (\<lambda>(h, mut, _). (h, mut)) (MerkleComputation pb' xs pos')"
proof -
  let ?l = "\<lambda>pb pos. leaves_loop pb pos xs 0 (replicate 32 uint256_null) None [] False"
  have lv: "map_option (\<lambda>(c, inner, ml, br, mut). (c, inner, mut)) (?l pb pos) = map_option (\<lambda>(c, inner, ml, br, mut). (c, inner, mut)) (?l pb' pos')"
    by (rule leaves_loop_indep)
  have sw: "(case sweep pb inner ml c l h mb of None \<Rightarrow> None | Some (h, br) \<Rightarrow> Some (h, mut)) =
    (case sweep pb' inner ml' c l h mb' of None \<Rightarrow> None | Some (h, br) \<Rightarrow> Some (h, mut))" for inner ml ml' c l h mb mb' and mut :: bool
    using sweep_indep [of pb inner ml c l h mb pb' ml' mb']
    by (cases "sweep pb inner ml c l h mb"; cases "sweep pb' inner ml' c l h mb'") auto
  have alt: "map_option (\<lambda>(h, mut, _). (h, mut)) (MerkleComputation pb xs pos) =
    (if length xs = 0 then Some (uint256_null, False)
     else case ?l pb pos of None \<Rightarrow> None | Some (c, inner, ml, br, mut) \<Rightarrow>
       (case skip_zeros c 0 of None \<Rightarrow> None | Some l \<Rightarrow>
         (case sweep pb inner ml c l (inner ! l) (ml = Some l, br) of None \<Rightarrow> None | Some (h, br) \<Rightarrow> Some (h, mut))))" for pb pos
    by (auto simp: MerkleComputation_def split: option.split)
  show ?thesis
  proof (cases "?l pb pos")
    case None
    with lv have "?l pb' pos' = None" by simp
    with None show ?thesis by (simp add: alt)
  next
    case (Some a)
    moreover obtain c inner ml br mut where a: "a = (c, inner, ml, br, mut)" by (cases a)
    ultimately obtain ml' br' where b: "?l pb' pos' = Some (c, inner, ml', br', mut)" using lv
      by (cases "?l pb' pos'") auto
    show ?thesis unfolding alt Some a b by (cases "skip_zeros c 0") (use sw [where ml = ml and ml' = ml'] in \<open>simp_all\<close>)
  qed
qed

lemma ComputeMerkleRoot_eq:
  assumes "0 < length xs" "length xs \<le> 2 ^ 31"
  shows "ComputeMerkleRoot xs = Some (CalcHash xs (tree_height (length xs)) 0, mutated_tree xs)"
  unfolding ComputeMerkleRoot_def MerkleComputation_indep [of False xs _ True 0]
  using MerkleComputation_eq [OF assms] by simp

lemma ComputeMerkleBranch_eq:
  assumes "pos < length xs" "length xs \<le> 2 ^ 31"
  shows "ComputeMerkleBranch xs pos = Some (map (sibling xs pos) [0..<tree_height (length xs)])"
  using MerkleComputation_eq [OF assms] by (simp add: ComputeMerkleBranch_def)

text \<open>The tree level by level is the recursive tree.\<close>

lemma nth_merkle_level:
  "i < length (merkle_level xs) \<Longrightarrow>
   merkle_level xs ! i = Hash2 (xs ! (2 * i)) (if 2 * i + 1 < length xs then xs ! (2 * i + 1) else xs ! (2 * i))"
proof (induction xs arbitrary: i rule: merkle_level.induct)
  case (1 a b xs)
  then show ?case by (cases i) simp_all
qed simp_all

lemma level_nodes:
  assumes "0 < length xs"
  shows "(merkle_level ^^ l) xs = map (CalcHash xs l) [0..<CalcTreeWidth (length xs) l]"
proof (induction l)
  case 0
  show ?case by (rule nth_equalityI) simp_all
next
  case (Suc l)
  let ?w = "CalcTreeWidth (length xs)"
  have len: "length (merkle_level (map (CalcHash xs l) [0..<?w l])) = ?w (Suc l)"
    by (simp only: length_merkle_level width_Suc [OF assms] length_map length_upt diff_zero)
  show ?case
  proof (rule nth_equalityI)
    fix i
    assume "i < length ((merkle_level ^^ Suc l) xs)"
    then have i: "i < ?w (Suc l)" using len Suc by simp
    then have i2: "2 * i < ?w l" by (simp add: width_Suc [OF assms])
    have "merkle_level (map (CalcHash xs l) [0..<?w l]) ! i = CalcHash xs (Suc l) i"
      using i i2 by (subst nth_merkle_level) (simp_all only: len, simp_all add: Let_def mult.commute)
    then show "(merkle_level ^^ Suc l) xs ! i = map (CalcHash xs (Suc l)) [0..<?w (Suc l)] ! i"
      using i Suc by simp
  qed (simp add: Suc len)
qed

lemma merkle_root_step: "1 < length xs \<Longrightarrow> merkle_root xs = merkle_root (merkle_level xs)"
  by (cases xs rule: merkle_root.cases) simp_all

lemma merkle_root_eq:
  assumes "0 < length xs"
  shows "merkle_root xs = CalcHash xs (tree_height (length xs)) 0"
proof -
  let ?L = "tree_height (length xs)" and ?w = "CalcTreeWidth (length xs)"
  note h = tree_height_bounds [OF assms]
  have "merkle_root ((merkle_level ^^ l) xs) = merkle_root xs" if "l \<le> ?L" for l
    using that
  proof (induction l)
    case (Suc l)
    have "(2::nat) ^ l \<le> 2 ^ (?L - 1)" using Suc.prems by (intro power_increasing) simp_all
    then have "\<not> length xs \<le> 2 ^ l" using h(2) Suc.prems by linarith
    then have "1 < ?w l" using width_eq_1 [OF assms, of l] width_pos' [OF assms, of l] by linarith
    then show ?case using Suc merkle_root_step [of "(merkle_level ^^ l) xs"] by (simp add: level_nodes [OF assms])
  qed simp
  moreover have "?w ?L = 1" using width_eq_1 [OF assms] h(1) by simp
  then have "(merkle_level ^^ ?L) xs = [CalcHash xs ?L 0]" by (simp add: level_nodes [OF assms])
  ultimately show ?thesis using merkle_root.simps(2) by (metis order_refl)
qed

lemma from_branch:
  assumes "pos < length xs"
  shows "ComputeMerkleRootFromBranch (map (sibling xs pos) [l..<l + k]) (CalcHash xs l (pos div 2 ^ l)) (pos div 2 ^ l) =
    CalcHash xs (l + k) (pos div 2 ^ (l + k))"
proof (induction k arbitrary: l)
  case (Suc k)
  let ?i = "pos div 2 ^ l"
  have "?i * 2 ^ l < length xs" using assms by (meson div_times_less_eq_dividend order.strict_trans1)
  then have i: "?i < CalcTreeWidth (length xs) l" by (simp add: width_less)
  have up: "pos div 2 ^ Suc l = ?i div 2" by (simp only: power_Suc2 div_mult2_eq)
  have "(if bit ?i 0 then Hash2 (sibling xs pos l) (CalcHash xs l ?i) else Hash2 (CalcHash xs l ?i) (sibling xs pos l)) =
      CalcHash xs (Suc l) (?i div 2)"
    using i by (cases "even ?i") (auto simp: sibling_def Let_def bit_0 mult.commute elim!: evenE oddE)
  moreover have "[l..<l + Suc k] = l # [Suc l..<Suc l + k]" by (simp add: upt_conv_Cons)
  moreover have "drop_bit 1 ?i = pos div 2 ^ Suc l" by (simp only: up) (simp add: drop_bit_eq_div)
  ultimately show ?case using Suc.IH [of "Suc l"] by (simp del: upt_Suc power_Suc CalcHash.simps add: up [symmetric])
qed simp

section \<open>A root determines its leaves\<close>

text \<open>The two hashes under node \<open>i\<close> of level \<open>l + 1\<close>, and all such pairs of a tree.\<close>

definition right_child :: "bytes list \<Rightarrow> nat \<Rightarrow> nat \<Rightarrow> bytes" where
  "right_child xs l i = (if 2 * i + 1 < CalcTreeWidth (length xs) l then CalcHash xs l (2 * i + 1) else CalcHash xs l (2 * i))"

definition merkle_pairs :: "bytes list \<Rightarrow> (bytes \<times> bytes) set" where
  "merkle_pairs xs = {(CalcHash xs l (2 * i), right_child xs l i) | l i. l < tree_height (length xs) \<and> i < CalcTreeWidth (length xs) (Suc l)}"

lemma CalcHash_children: "CalcHash xs (Suc l) i = Hash2 (CalcHash xs l (2 * i)) (right_child xs l i)"
  by (simp add: right_child_def Let_def mult.commute)

lemma children_unique:
  assumes inj: "inj_on (\<lambda>(a, b). Hash2 a b) S" "merkle_pairs xs \<subseteq> S" "merkle_pairs ys \<subseteq> S"
    and "l < tree_height (length xs)" "i < CalcTreeWidth (length xs) (Suc l)"
    and "l < tree_height (length ys)" "j < CalcTreeWidth (length ys) (Suc l)"
    and eq: "CalcHash xs (Suc l) i = CalcHash ys (Suc l) j"
  shows "CalcHash xs l (2 * i) = CalcHash ys l (2 * j)" and "right_child xs l i = right_child ys l j"
proof -
  have "(CalcHash xs l (2 * i), right_child xs l i) \<in> S" "(CalcHash ys l (2 * j), right_child ys l j) \<in> S"
    using assms(2-7) unfolding merkle_pairs_def by blast+
  from inj_onD [OF inj(1) _ this] eq
  have "(CalcHash xs l (2 * i), right_child xs l i) = (CalcHash ys l (2 * j), right_child ys l j)"
    by (simp only: CalcHash_children split)
  then show "CalcHash xs l (2 * i) = CalcHash ys l (2 * j)" and "right_child xs l i = right_child ys l j" by simp_all
qed

text \<open>A complete node equal to an incomplete one contains two equal siblings.\<close>

lemma complete_incomplete:
  assumes inj: "inj_on (\<lambda>(a, b). Hash2 a b) S" "merkle_pairs xs \<subseteq> S"
  shows "\<lbrakk>l \<le> tree_height (length xs); Suc a * 2 ^ l \<le> length xs; b * 2 ^ l < length xs; length xs < Suc b * 2 ^ l;
    CalcHash xs l a = CalcHash xs l b\<rbrakk> \<Longrightarrow> mutated_tree xs"
proof (induction l arbitrary: a b)
  case (Suc l)
  let ?n = "length xs"
  have up: "Suc (2 * a + 1) * 2 ^ l = Suc a * 2 ^ Suc l" "(2 * a) * 2 ^ l = a * 2 ^ Suc l"
    "(2 * b) * 2 ^ l = b * 2 ^ Suc l" "Suc (2 * b + 1) * 2 ^ l = Suc b * 2 ^ Suc l" by simp_all
  have "a * 2 ^ Suc l < Suc a * 2 ^ Suc l" by simp
  then have w: "a < CalcTreeWidth ?n (Suc l)" "b < CalcTreeWidth ?n (Suc l)"
    using Suc.prems(2,3) unfolding width_less by (meson order.strict_trans2)+
  have wa: "2 * a + 1 < CalcTreeWidth ?n l" using width_ge [of "2 * a + 1" l ?n] Suc.prems(2) up(1) by simp
  note ch = children_unique [OF inj(1,2,2) _ w(1) _ w(2) Suc.prems(5)]
  have l: "l < tree_height ?n" using Suc.prems(1) by simp
  have right: "CalcHash xs l (2 * a + 1) = right_child xs l b" using ch(2) l wa by (simp add: right_child_def)
  show ?case
  proof (cases "2 * b + 1 < CalcTreeWidth ?n l")
    case True
    then have "(2 * b + 1) * 2 ^ l < ?n" by (simp only: width_less)
    moreover have "CalcHash xs l (2 * a + 1) = CalcHash xs l (2 * b + 1)" using right True by (simp add: right_child_def)
    ultimately show ?thesis
      using Suc.prems(2,4) l by (intro Suc.IH [of "2 * a + 1" "2 * b + 1"]) (simp_all only: up less_imp_le)
  next
    case False
    then have "CalcHash xs l (2 * a) = CalcHash xs l (2 * a + 1)" using right ch(1) l by (simp add: right_child_def)
    moreover have "(2 * a + 2) * 2 ^ l \<le> ?n" using up(1) Suc.prems(2) by simp
    ultimately show ?thesis unfolding mutated_tree_def by blast
  qed
qed simp

lemma equal_siblings:
  assumes inj: "inj_on (\<lambda>(a, b). Hash2 a b) S" "merkle_pairs xs \<subseteq> S"
    and "l \<le> tree_height (length xs)" "2 * i + 1 < CalcTreeWidth (length xs) l" "CalcHash xs l (2 * i) = CalcHash xs l (2 * i + 1)"
  shows "mutated_tree xs"
proof (cases "(2 * i + 2) * 2 ^ l \<le> length xs")
  case True
  with assms(5) show ?thesis unfolding mutated_tree_def by blast
next
  case False
  have "(2 * i + 1) * 2 ^ l < length xs" using assms(4) by (simp only: width_less)
  moreover have "Suc (2 * i) * 2 ^ l = (2 * i + 1) * 2 ^ l" "Suc (2 * i + 1) * 2 ^ l = (2 * i + 2) * 2 ^ l" by simp_all
  ultimately show ?thesis using complete_incomplete [OF inj assms(3), of "2 * i" "2 * i + 1"] assms(5) False by linarith
qed

text \<open>Going down one level, equal rows stay equal when neither tree has equal siblings.\<close>

lemma same_width:
  assumes inj: "inj_on (\<lambda>(a, b). Hash2 a b) S" "merkle_pairs xs \<subseteq> S" "merkle_pairs ys \<subseteq> S"
    and pos: "0 < length xs" "0 < length ys" and mut: "\<not> mutated_tree ys"
    and l: "l < tree_height (length xs)" "l < tree_height (length ys)"
    and w: "CalcTreeWidth (length xs) (Suc l) = CalcTreeWidth (length ys) (Suc l)"
    and eq: "\<And>i. i < CalcTreeWidth (length xs) (Suc l) \<Longrightarrow> CalcHash xs (Suc l) i = CalcHash ys (Suc l) i"
  shows "CalcTreeWidth (length ys) l \<le> CalcTreeWidth (length xs) l"
proof (rule ccontr)
  let ?wx = "CalcTreeWidth (length xs) l" and ?wy = "CalcTreeWidth (length ys) l"
  define i where "i = CalcTreeWidth (length xs) (Suc l) - 1"
  assume "\<not> ?thesis"
  moreover have "(?wx + 1) div 2 = (?wy + 1) div 2" using w pos by (simp add: width_Suc)
  moreover have "0 < ?wx" using pos by (simp add: width_pos')
  moreover have "i = (?wx + 1) div 2 - 1" using pos by (simp add: i_def width_Suc)
  ultimately have c: "\<not> 2 * i + 1 < ?wx" "2 * i + 1 < ?wy" "i < (?wx + 1) div 2" by linarith+
  then have i: "i < CalcTreeWidth (length xs) (Suc l)" using pos by (simp add: width_Suc)
  from children_unique [OF inj l(1) i l(2) _ eq [OF i]] i w
  have "CalcHash xs l (2 * i) = CalcHash ys l (2 * i)" "right_child xs l i = right_child ys l i" by simp_all
  then have "CalcHash ys l (2 * i) = CalcHash ys l (2 * i + 1)" using c by (simp add: right_child_def)
  with equal_siblings [OF inj(1,3) _ c(2)] l(2) mut show False by simp
qed

lemma same_row:
  assumes inj: "inj_on (\<lambda>(a, b). Hash2 a b) S" "merkle_pairs xs \<subseteq> S" "merkle_pairs ys \<subseteq> S"
    and pos: "0 < length xs" "0 < length ys" and mut: "\<not> mutated_tree xs" "\<not> mutated_tree ys"
    and h: "tree_height (length xs) = L" "tree_height (length ys) = L" and root: "CalcHash xs L 0 = CalcHash ys L 0"
  shows "l \<le> L \<Longrightarrow> CalcTreeWidth (length xs) l = CalcTreeWidth (length ys) l \<and>
    (\<forall>i < CalcTreeWidth (length xs) l. CalcHash xs l i = CalcHash ys l i)"
proof (induction "L - l" arbitrary: l)
  case 0
  then show ?case
    using tree_height_bounds(1) [OF pos(1)] tree_height_bounds(1) [OF pos(2)] width_eq_1 [OF pos(1), of L] width_eq_1 [OF pos(2), of L] h root
    by simp
next
  case (Suc k)
  let ?wx = "CalcTreeWidth (length xs)" and ?wy = "CalcTreeWidth (length ys)"
  have l: "l < tree_height (length xs)" "l < tree_height (length ys)" using Suc h by simp_all
  have up: "?wx (Suc l) = ?wy (Suc l)" "\<And>i. i < ?wx (Suc l) \<Longrightarrow> CalcHash xs (Suc l) i = CalcHash ys (Suc l) i"
    using Suc.hyps(1) [of "Suc l"] Suc.hyps(2) Suc.prems by simp_all
  have w: "?wx l = ?wy l"
    using same_width [OF inj pos mut(2) l up] same_width [OF inj(1,3,2) pos(2,1) mut(1) l(2,1) up(1) [symmetric] up(2) [symmetric]] up(1)
    by simp
  have "CalcHash xs l i = CalcHash ys l i" if i: "i < ?wx l" for i
  proof -
    have j: "i div 2 < ?wx (Suc l)" using i pos by (simp only: width_Suc)
    from children_unique [OF inj l(1) j l(2) _ up(2) [OF j]] j up(1)
    have "CalcHash xs l (2 * (i div 2)) = CalcHash ys l (2 * (i div 2))" "right_child xs l (i div 2) = right_child ys l (i div 2)" by simp_all
    then show ?thesis using i w by (cases "even i") (auto simp: right_child_def elim!: evenE oddE)
  qed
  with w show ?case by blast
qed

section \<open>Properties\<close>

text \<open>C16: for up to \<open>2 ^ 31\<close> leaves the constant-space computation ends within its 32 levels, returns the root of the
  tree built level by level in which the last hash of an odd level is paired with itself, and raises the mutation flag
  exactly when two sibling nodes with complete subtrees carry the same hash.\<close>

theorem merkle_root_computed:
  assumes "length xs \<le> 2 ^ 31"
  shows "ComputeMerkleRoot xs =
    Some (merkle_root xs, \<exists>m j. (2 * j + 2) * 2 ^ m \<le> length xs \<and> CalcHash xs m (2 * j) = CalcHash xs m (2 * j + 1))"
proof (cases "length xs = 0")
  case True
  then show ?thesis by (simp add: ComputeMerkleRoot_def MerkleComputation_def)
next
  case False
  then show ?thesis using ComputeMerkleRoot_eq [OF _ assms] merkle_root_eq [of xs] by (simp add: mutated_tree_def)
qed

theorem merkle_root_computed_witness:
  "length [uint256_null, uint256_null] \<le> 2 ^ 31 \<and>
   ComputeMerkleRoot [uint256_null, uint256_null] = Some (Hash2 uint256_null uint256_null, True)"
proof -
  have "(2 * 0 + 2) * 2 ^ 0 \<le> length [uint256_null, uint256_null] \<and>
      CalcHash [uint256_null, uint256_null] 0 (2 * 0) = CalcHash [uint256_null, uint256_null] 0 (2 * 0 + 1)" by simp
  then have "\<exists>m j. (2 * j + 2) * 2 ^ m \<le> length [uint256_null, uint256_null] \<and>
      CalcHash [uint256_null, uint256_null] m (2 * j) = CalcHash [uint256_null, uint256_null] m (2 * j + 1)" by blast
  then show ?thesis using merkle_root_computed [of "[uint256_null, uint256_null]"] by simp
qed

text \<open>C17: the branch computed for a leaf, folded with the hash of that leaf at its position, gives the root; the branch has
  one hash per level of the tree.\<close>

theorem merkle_branch_verifies:
  assumes "pos < length xs" "length xs \<le> 2 ^ 31"
  shows "\<exists>branch. ComputeMerkleBranch xs pos = Some branch \<and> length branch = tree_height (length xs) \<and>
    ComputeMerkleRootFromBranch branch (xs ! pos) pos = merkle_root xs"
proof -
  let ?L = "tree_height (length xs)"
  have n: "0 < length xs" using assms(1) by linarith
  then have "pos div 2 ^ ?L = 0" using tree_height_bounds(1) [OF n] assms(1) by simp
  then show ?thesis
    using ComputeMerkleBranch_eq [OF assms] from_branch [OF assms(1), of 0 ?L] merkle_root_eq [OF n] by simp
qed

theorem merkle_branch_verifies_witness:
  "(2::nat) < length (replicate 3 uint256_null) \<and> (\<exists>branch. ComputeMerkleBranch (replicate 3 uint256_null) 2 = Some branch \<and>
    ComputeMerkleRootFromBranch branch (replicate 3 uint256_null ! 2) 2 = merkle_root (replicate 3 uint256_null))"
proof -
  have "(2::nat) < length (replicate 3 uint256_null)" "length (replicate 3 uint256_null) \<le> 2 ^ 31" by simp_all
  with merkle_branch_verifies [OF this] show ?thesis by blast
qed

text \<open>C18: two lists of leaves of the same height, both reported unmutated and with the same root, are equal, provided the
  hash function has no collision among the pairs of hashes that occur in the two trees. The mutation flag is what makes
  this true: without it a duplicated tail gives the same root.\<close>

theorem merkle_root_binds:
  assumes "0 < length xs" "length xs \<le> 2 ^ 31" "0 < length ys" "length ys \<le> 2 ^ 31"
    and "tree_height (length xs) = tree_height (length ys)"
    and "ComputeMerkleRoot xs = Some (r, False)" "ComputeMerkleRoot ys = Some (r, False)"
    and "inj_on (\<lambda>(a, b). Hash2 a b) (merkle_pairs xs \<union> merkle_pairs ys)"
  shows "xs = ys"
proof -
  let ?L = "tree_height (length xs)"
  have x: "CalcHash xs ?L 0 = r" "\<not> mutated_tree xs" and y: "CalcHash ys ?L 0 = r" "\<not> mutated_tree ys"
    using ComputeMerkleRoot_eq [of xs] ComputeMerkleRoot_eq [of ys] assms by simp_all
  from same_row [OF assms(8) Un_upper1 Un_upper2 assms(1,3) x(2) y(2) refl assms(5) [symmetric], of 0] x(1) y(1)
  show ?thesis by (simp add: nth_equalityI)
qed

theorem merkle_root_binds_witness:
  "let a = uint256_null; b = replicate 32 1; xs = [a, b]; ys = [a, b] in
     ComputeMerkleRoot xs = Some (Hash2 a b, False) \<and> inj_on (\<lambda>(a, b). Hash2 a b) (merkle_pairs xs \<union> merkle_pairs ys) \<and> xs = ys"
proof -
  let ?xs = "[uint256_null, replicate 32 1]"
  have th: "tree_height 2 = 1" by (rule tree_height_eq) simp_all
  have mut: "\<not> mutated_tree ?xs"
  proof
    assume "mutated_tree ?xs"
    then obtain m j where m: "(2 * j + 2) * 2 ^ m \<le> length ?xs" "CalcHash ?xs m (2 * j) = CalcHash ?xs m (2 * j + 1)"
      unfolding mutated_tree_def by blast
    have "(2::nat) ^ m * 2 \<le> (2 * j + 2) * 2 ^ m" by simp
    with m(1) have "(2::nat) ^ m \<le> 1" by simp
    then have "m = 0" using one_less_power [of "2::nat" m] by (cases m) simp_all
    with m show False by (simp add: uint256_null_def)
  qed
  then have root: "ComputeMerkleRoot ?xs = Some (Hash2 uint256_null (replicate 32 1), False)"
    using ComputeMerkleRoot_eq [of ?xs] by (simp add: th numeral_2_eq_2 [symmetric] CalcTreeWidth_def)
  have inj_singleton: "inj_on (\<lambda>(a, b). Hash2 a b) {(uint256_null, replicate 32 1)}" by simp
  have "merkle_pairs ?xs \<subseteq> {(uint256_null, replicate 32 1)}"
    by (auto simp: merkle_pairs_def right_child_def th numeral_2_eq_2 [symmetric] CalcTreeWidth_def)
  then have inj: "inj_on (\<lambda>(a, b). Hash2 a b) (merkle_pairs ?xs \<union> merkle_pairs ?xs)"
    by (simp only: Un_absorb) (rule inj_on_subset, rule inj_singleton)
  have eq: "?xs = ?xs" by (rule merkle_root_binds [OF _ _ _ _ refl root root inj]) simp_all
  show ?thesis unfolding Let_def by (intro conjI root inj eq)
qed

end
