(* ===== verification/PartialMerkle.thy ===== *)
theory PartialMerkle
  imports Merkle
begin

text \<open>
  \<^verbatim>\<open>src/merkleblock.h\<close> and \<^verbatim>\<open>src/merkleblock.cpp\<close>: partial Merkle trees, which prove to a filtered client that some
  transactions belong to a block. Construction, the wire format with its packing of the flag bits, and the extraction of
  the matched transactions. Blocks have at most a few ten thousand transactions, so the 32-bit arithmetic on positions and
  widths never wraps and is written with natural numbers.
\<close>

section \<open>The trees\<close>

record CPartialMerkleTree =
  nTransactions :: u32
  vBits :: "bool list"
  vHash :: "bytes list"
  fBad :: bool

definition parent_of_match :: "nat \<Rightarrow> bool list \<Rightarrow> nat \<Rightarrow> nat \<Rightarrow> bool" where
  "parent_of_match n vMatch height pos = list_ex (\<lambda>p. vMatch ! p) [pos * 2 ^ height..<min ((pos + 1) * 2 ^ height) n]"

fun TraverseAndBuild :: "bytes list \<Rightarrow> bool list \<Rightarrow> nat \<Rightarrow> nat \<Rightarrow> bool list \<times> bytes list \<Rightarrow> bool list \<times> bytes list" where
  "TraverseAndBuild vTxid vMatch 0 pos (flags, hashes) =
     (flags @ [parent_of_match (length vTxid) vMatch 0 pos], hashes @ [CalcHash vTxid 0 pos])"
| "TraverseAndBuild vTxid vMatch (Suc height) pos (flags, hashes) =
     (let fParentOfMatch = parent_of_match (length vTxid) vMatch (Suc height) pos;
          flags = flags @ [fParentOfMatch]
      in if \<not> fParentOfMatch then (flags, hashes @ [CalcHash vTxid (Suc height) pos])
         else let left = TraverseAndBuild vTxid vMatch height (pos * 2) (flags, hashes)
              in if pos * 2 + 1 < CalcTreeWidth (length vTxid) height
                 then TraverseAndBuild vTxid vMatch height (pos * 2 + 1) left
                 else left)"

definition CPartialMerkleTree_build :: "bytes list \<Rightarrow> bool list \<Rightarrow> CPartialMerkleTree" where
  "CPartialMerkleTree_build vTxid vMatch =
     (let (flags, hashes) = TraverseAndBuild vTxid vMatch (tree_height (length vTxid)) 0 ([], [])
      in \<lparr>nTransactions = word_of_nat (length vTxid), vBits = flags, vHash = hashes, fBad = False\<rparr>)"

definition CPartialMerkleTree_new :: CPartialMerkleTree where
  "CPartialMerkleTree_new = \<lparr>nTransactions = 0, vBits = [], vHash = [], fBad = True\<rparr>"

section \<open>The wire format\<close>

definition pack_bits :: "bool list \<Rightarrow> bytes" where
  "pack_bits flags =
     foldl (\<lambda>v p. v[p div 8 := v ! (p div 8) OR push_bit (p mod 8) (of_bool (flags ! p))])
       (replicate ((length flags + 7) div 8) 0) [0..<length flags]"

definition unpack_bits :: "bytes \<Rightarrow> bool list" where
  "unpack_bits vBytes = map (\<lambda>p. vBytes ! (p div 8) AND push_bit (p mod 8) 1 \<noteq> 0) [0..<length vBytes * 8]"

definition ser_CPartialMerkleTree :: "CPartialMerkleTree \<Rightarrow> bytes" where
  "ser_CPartialMerkleTree t = ser_writedata32 (nTransactions t) @ ser_vector ser_uint256 (vHash t) @ ser_blob (pack_bits (vBits t))"

definition unser_CPartialMerkleTree :: "CPartialMerkleTree reader" where
  "unser_CPartialMerkleTree =
     then_read ser_readdata32 (\<lambda>n. then_read (unser_vector unser_uint256) (\<lambda>hashes. then_read unser_blob (\<lambda>vBytes.
       return_read \<lparr>nTransactions = n, vBits = unpack_bits vBytes, vHash = hashes, fBad = False\<rparr>)))"

section \<open>Extraction\<close>

text \<open>The variables that the traversal updates by reference, and the flag of the object.\<close>

record extraction =
  nBitsUsed :: nat
  nHashUsed :: nat
  x_vMatch :: "bytes list"
  vnIndex :: "nat list"
  x_fBad :: bool

definition take_hash :: "CPartialMerkleTree \<Rightarrow> bool \<Rightarrow> nat \<Rightarrow> extraction \<Rightarrow> bytes \<times> extraction" where
  "take_hash t matched pos x =
     (if nHashUsed x \<ge> length (vHash t) then (uint256_null, x\<lparr>x_fBad := True\<rparr>)
      else let hash = vHash t ! nHashUsed x;
               x = x\<lparr>nHashUsed := nHashUsed x + 1\<rparr>
           in (hash, if matched then x\<lparr>x_vMatch := x_vMatch x @ [hash], vnIndex := vnIndex x @ [pos]\<rparr> else x))"

fun TraverseAndExtract :: "CPartialMerkleTree \<Rightarrow> nat \<Rightarrow> nat \<Rightarrow> extraction \<Rightarrow> bytes \<times> extraction" where
  "TraverseAndExtract t 0 pos x =
     (if nBitsUsed x \<ge> length (vBits t) then (uint256_null, x\<lparr>x_fBad := True\<rparr>)
      else take_hash t (vBits t ! nBitsUsed x) pos (x\<lparr>nBitsUsed := nBitsUsed x + 1\<rparr>))"
| "TraverseAndExtract t (Suc height) pos x =
     (if nBitsUsed x \<ge> length (vBits t) then (uint256_null, x\<lparr>x_fBad := True\<rparr>)
      else let fParentOfMatch = vBits t ! nBitsUsed x;
               x = x\<lparr>nBitsUsed := nBitsUsed x + 1\<rparr>
           in if \<not> fParentOfMatch then take_hash t False pos x
              else let (left, x) = TraverseAndExtract t height (pos * 2) x
                   in if pos * 2 + 1 < CalcTreeWidth (unat (nTransactions t)) height
                      then let (right, x) = TraverseAndExtract t height (pos * 2 + 1) x
                           in (Hash2 left right, if right = left then x\<lparr>x_fBad := True\<rparr> else x)
                      else (Hash2 left left, x))"

text \<open>The results are the returned hash, the two output vectors (the indices are appended to what the caller passes) and the
  flag the object is left with.\<close>

definition ExtractMatches :: "CPartialMerkleTree \<Rightarrow> nat list \<Rightarrow> bytes \<times> bytes list \<times> nat list \<times> bool" where
  "ExtractMatches t indices =
     (if nTransactions t = 0 then (uint256_null, [], indices, fBad t)
      else if unat (nTransactions t) > MAX_BLOCK_BASE_SIZE div 60 then (uint256_null, [], indices, fBad t)
      else if length (vHash t) > unat (nTransactions t) then (uint256_null, [], indices, fBad t)
      else if length (vBits t) < length (vHash t) then (uint256_null, [], indices, fBad t)
      else let nHeight = tree_height (unat (nTransactions t));
               (hashMerkleRoot, x) = TraverseAndExtract t nHeight 0
                 \<lparr>nBitsUsed = 0, nHashUsed = 0, x_vMatch = [], vnIndex = indices, x_fBad = fBad t\<rparr>
           in ((if x_fBad x then uint256_null
                else if (nBitsUsed x + 7) div 8 \<noteq> (length (vBits t) + 7) div 8 then uint256_null
                else if nHashUsed x \<noteq> length (vHash t) then uint256_null
                else hashMerkleRoot), x_vMatch x, vnIndex x, x_fBad x))"

text \<open>The block message for a set of transaction identifiers, from the header and the transactions of a block.\<close>

record 'h CMerkleBlock =
  mb_header :: 'h
  txn :: CPartialMerkleTree

definition CMerkleBlock_txids :: "'h \<Rightarrow> CTransaction list \<Rightarrow> bytes set \<Rightarrow> 'h CMerkleBlock" where
  "CMerkleBlock_txids header vtx txids =
     (let vHashes = map tx_GetHash vtx; vMatch = map (\<lambda>hash. hash \<in> txids) vHashes
      in \<lparr>mb_header = header, txn = CPartialMerkleTree_build vHashes vMatch\<rparr>)"

section \<open>Packing\<close>

lemma pack_bits_fold:
  assumes "k \<le> length flags" "q < 8 * ((length flags + 7) div 8)"
  defines "v \<equiv> foldl (\<lambda>v p. v[p div 8 := v ! (p div 8) OR push_bit (p mod 8) (of_bool (flags ! p))])
       (replicate ((length flags + 7) div 8) (0::u8)) [0..<k]"
  shows "length v = (length flags + 7) div 8" and "bit (v ! (q div 8)) (q mod 8) \<longleftrightarrow> q < k \<and> flags ! q"
proof -
  have "length v = (length flags + 7) div 8 \<and> (bit (v ! (q div 8)) (q mod 8) \<longleftrightarrow> q < k \<and> flags ! q)"
    using assms(1) unfolding v_def
  proof (induction k)
    case 0
    then show ?case using assms(2) by simp
  next
    case (Suc k)
    let ?v = "foldl (\<lambda>v p. v[p div 8 := v ! (p div 8) OR push_bit (p mod 8) (of_bool (flags ! p))])
       (replicate ((length flags + 7) div 8) (0::u8)) [0..<k]"
    have IH: "length ?v = (length flags + 7) div 8" "bit (?v ! (q div 8)) (q mod 8) \<longleftrightarrow> q < k \<and> flags ! q"
      using Suc by simp_all
    have k: "k div 8 < length ?v" unfolding IH(1) using Suc.prems by linarith
    have "bit (push_bit (k mod 8) (of_bool (flags ! k)) :: u8) (q mod 8) \<longleftrightarrow> k mod 8 = q mod 8 \<and> flags ! k"
      by (auto simp: bit_push_bit_iff bit_1_iff)
    moreover have "q = k \<longleftrightarrow> q div 8 = k div 8 \<and> q mod 8 = k mod 8" by (metis div_mod_decomp)
    ultimately show ?case using IH k by (cases "q div 8 = k div 8") (auto simp: bit_or_iff less_Suc_eq)
  qed
  then show "length v = (length flags + 7) div 8" and "bit (v ! (q div 8)) (q mod 8) \<longleftrightarrow> q < k \<and> flags ! q" by simp_all
qed

lemma length_pack_bits: "length (pack_bits flags) = (length flags + 7) div 8"
proof (cases "flags = []")
  case False
  then have "0 < length flags" by simp
  then have "0 < 8 * ((length flags + 7) div 8)" by linarith
  from pack_bits_fold(1) [OF order_refl this] show ?thesis by (simp add: pack_bits_def)
qed (simp add: pack_bits_def)

lemma unpack_pack:
  "unpack_bits (pack_bits flags) = flags @ replicate (8 * ((length flags + 7) div 8) - length flags) False"
proof (rule nth_equalityI)
  show "length (unpack_bits (pack_bits flags)) = length (flags @ replicate (8 * ((length flags + 7) div 8) - length flags) False)"
    by (simp add: unpack_bits_def length_pack_bits)
  fix q
  assume "q < length (unpack_bits (pack_bits flags))"
  then have q: "q < 8 * ((length flags + 7) div 8)" by (simp add: unpack_bits_def length_pack_bits)
  then have "unpack_bits (pack_bits flags) ! q \<longleftrightarrow> bit (pack_bits flags ! (q div 8)) (q mod 8)"
    by (simp add: unpack_bits_def length_pack_bits and_exp_eq_0_iff_not_bit mult.commute)
  also have "\<dots> \<longleftrightarrow> q < length flags \<and> flags ! q" unfolding pack_bits_def using pack_bits_fold(2) [OF order_refl q] .
  also have "\<dots> \<longleftrightarrow> (flags @ replicate (8 * ((length flags + 7) div 8) - length flags) False) ! q"
    using q by (auto simp: nth_append)
  finally show "unpack_bits (pack_bits flags) ! q = (flags @ replicate (8 * ((length flags + 7) div 8) - length flags) False) ! q" .
qed

interpretation wire_hashes: wire "ser_vector ser_uint256" "unser_vector unser_uint256"
    "\<lambda>v. list_all (\<lambda>h. length h = 32) v \<and> length v \<le> 33554432"
  by (rule wire_vector [OF wire_uint256.wire_axioms])

lemma unser_ser_tree:
  assumes "list_all (\<lambda>h. length h = 32) (vHash t)" "length (vHash t) \<le> 33554432" "length (vBits t) \<le> 33554432"
  shows "unser_CPartialMerkleTree (ser_CPartialMerkleTree t @ s) =
    Inr (t\<lparr>vBits := vBits t @ replicate (8 * ((length (vBits t) + 7) div 8) - length (vBits t)) False, fBad := False\<rparr>, s)"
proof -
  have "length (pack_bits (vBits t)) \<le> 33554432" using assms(3) by (simp add: length_pack_bits)
  then show ?thesis using assms
    by (simp add: unser_CPartialMerkleTree_def ser_CPartialMerkleTree_def then_read_def return_read_def wire32.parse_print
        wire_hashes.parse_print wire_blob.parse_print unpack_pack)
qed

section \<open>What is built and extracted\<close>

text \<open>The positions of the leaves under a node.\<close>

definition leaves_of :: "nat \<Rightarrow> nat \<Rightarrow> nat \<Rightarrow> nat list" where
  "leaves_of n height pos = [pos * 2 ^ height..<min ((pos + 1) * 2 ^ height) n]"

lemma leaves_of_Suc:
  "leaves_of n (Suc h) pos = leaves_of n h (pos * 2) @ (if pos * 2 + 1 < CalcTreeWidth n h then leaves_of n h (pos * 2 + 1) else [])"
proof -
  define a where "a = pos * 2 ^ Suc h"
  define b :: nat where "b = 2 ^ h"
  have *: "pos * 2 * 2 ^ h = a" "(pos * 2 + 1) * 2 ^ h = a + b" "(pos * 2 + 1 + 1) * 2 ^ h = a + b + b" "(pos + 1) * 2 ^ Suc h = a + b + b"
    by (simp_all add: a_def b_def algebra_simps)
  have w: "pos * 2 + 1 < CalcTreeWidth n h \<longleftrightarrow> a + b < n" unfolding width_less * ..
  show ?thesis
  proof (cases "a + b < n")
    case True
    then show ?thesis unfolding leaves_of_def w * a_def [symmetric] using upt_add_eq_append [of a "a + b" "min (a + b + b) n - (a + b)"]
      by (simp add: min_absorb1)
  next
    case False
    then show ?thesis unfolding leaves_of_def w * a_def [symmetric] by (simp add: min_absorb2)
  qed
qed

lemma leaves_of_all: "0 < n \<Longrightarrow> leaves_of n (tree_height n) 0 = [0..<n]"
  using tree_height_bounds(1) [of n] by (simp add: leaves_of_def min_absorb2)

lemma parent_of_match_leaves: "parent_of_match n m h pos \<longleftrightarrow> filter ((!) m) (leaves_of n h pos) \<noteq> []"
  by (auto simp: parent_of_match_def leaves_of_def list_ex_iff filter_empty_conv)

text \<open>The construction appends to what is there.\<close>

definition built :: "bytes list \<Rightarrow> bool list \<Rightarrow> nat \<Rightarrow> nat \<Rightarrow> bool list \<times> bytes list" where
  "built xs m h pos = TraverseAndBuild xs m h pos ([], [])"

lemma build_appends: "TraverseAndBuild xs m h pos (b, c) = (b @ fst (built xs m h pos), c @ snd (built xs m h pos))"
proof (induction h arbitrary: pos b c)
  case (Suc h)
  show ?case unfolding built_def by (simp add: Let_def Suc)
qed (simp add: built_def)

lemma built_Suc:
  "built xs m (Suc h) pos =
     (if parent_of_match (length xs) m (Suc h) pos
      then let l = built xs m h (pos * 2); r = (if pos * 2 + 1 < CalcTreeWidth (length xs) h then built xs m h (pos * 2 + 1) else ([], []))
           in (True # fst l @ fst r, snd l @ snd r)
      else ([False], [CalcHash xs (Suc h) pos]))"
  unfolding built_def [of xs m "Suc h"] by (simp add: Let_def build_appends [of _ _ h])

lemma built_0: "built xs m 0 pos = ([parent_of_match (length xs) m 0 pos], [CalcHash xs 0 pos])"
  by (simp add: built_def)

text \<open>Sizes: no more hashes than leaves or flags, and at most one flag per node.\<close>

lemma built_sizes:
  "pos < CalcTreeWidth (length xs) h \<Longrightarrow>
   length (snd (built xs m h pos)) \<le> length (leaves_of (length xs) h pos) \<and>
   length (snd (built xs m h pos)) \<le> length (fst (built xs m h pos)) \<and>
   length (fst (built xs m h pos)) < 2 ^ Suc h"
proof (induction h arbitrary: pos)
  case 0
  then show ?case by (simp add: built_0 leaves_of_def)
next
  case (Suc h)
  have n: "pos * 2 ^ Suc h < length xs" using Suc.prems by (simp only: width_less)
  then have l: "pos * 2 < CalcTreeWidth (length xs) h" by (simp add: width_less)
  have "0 < length (leaves_of (length xs) (Suc h) pos)" using n by (simp add: leaves_of_def del: power_Suc)
  moreover have "(1::nat) < 2 ^ h * 4" using one_le_power [of "2::nat" h] by linarith
  ultimately show ?case
    using Suc.IH [OF l] Suc.IH [of "pos * 2 + 1"] unfolding built_Suc leaves_of_Suc by (auto simp: Let_def Suc_le_eq)
qed

lemma CalcHash_length: "length (CalcHash xs (Suc h) pos) = 32"
  by (simp add: Let_def Hash2_eq length_sha256)

lemma built_hashes: "list_all (\<lambda>h. length h = 32) xs \<Longrightarrow> pos < CalcTreeWidth (length xs) h \<Longrightarrow>
  list_all (\<lambda>h. length h = 32) (snd (built xs m h pos))"
proof (induction h arbitrary: pos)
  case 0
  then show ?case by (simp add: built_0 list_all_length)
next
  case (Suc h)
  have "pos * 2 ^ Suc h < length xs" using Suc.prems by (simp only: width_less)
  then have l: "pos * 2 < CalcTreeWidth (length xs) h" by (simp add: width_less)
  show ?case using Suc.IH [OF Suc.prems(1) l] Suc.IH [of "pos * 2 + 1"] Suc.prems(1)
    unfolding built_Suc by (simp add: Let_def CalcHash_length del: CalcHash.simps)
qed

text \<open>Extraction from a tree that contains what was built for a node returns the hash of the node and appends its matches.\<close>

definition no_equal_siblings :: "bytes list \<Rightarrow> bool" where
  "no_equal_siblings xs \<longleftrightarrow> (\<forall>h i. 2 * i + 1 < CalcTreeWidth (length xs) h \<longrightarrow> CalcHash xs h (2 * i) \<noteq> CalcHash xs h (2 * i + 1))"

definition extended :: "bytes list \<Rightarrow> bool list \<Rightarrow> nat \<Rightarrow> nat \<Rightarrow> extraction \<Rightarrow> extraction" where
  "extended xs m h pos x =
     (let ps = filter ((!) m) (leaves_of (length xs) h pos)
      in x\<lparr>nBitsUsed := nBitsUsed x + length (fst (built xs m h pos)), nHashUsed := nHashUsed x + length (snd (built xs m h pos)),
           x_vMatch := x_vMatch x @ map ((!) xs) ps, vnIndex := vnIndex x @ ps\<rparr>)"

lemma extract_built:
  assumes "unat (nTransactions t) = length xs" "no_equal_siblings xs"
  shows "\<lbrakk>pos < CalcTreeWidth (length xs) h;
    vBits t = b @ fst (built xs m h pos) @ b'; vHash t = c @ snd (built xs m h pos) @ c'; nBitsUsed x = length b; nHashUsed x = length c\<rbrakk>
    \<Longrightarrow> TraverseAndExtract t h pos x = (CalcHash xs h pos, extended xs m h pos x)"
proof (induction h arbitrary: pos b b' c c' x)
  case 0
  then have "leaves_of (length xs) 0 pos = [pos]" by (simp add: leaves_of_def)
  then show ?case
    using 0 by (auto simp: built_0 extended_def take_hash_def nth_append parent_of_match_leaves Let_def)
next
  case (Suc h)
  let ?n = "length xs"
  have "pos * 2 ^ Suc h < ?n" using Suc.prems(1) by (simp only: width_less)
  then have l: "pos * 2 < CalcTreeWidth ?n h" by (simp add: width_less)
  show ?case
  proof (cases "parent_of_match ?n m (Suc h) pos")
    case False
    then have "filter ((!) m) (leaves_of ?n (Suc h) pos) = []" by (simp add: parent_of_match_leaves)
    with False show ?thesis using Suc.prems
      by (auto simp: built_Suc extended_def take_hash_def nth_append Let_def simp del: CalcHash.simps)
  next
    case True
    let ?L = "built xs m h (pos * 2)" and ?R = "built xs m h (pos * 2 + 1)"
    let ?x = "x\<lparr>nBitsUsed := nBitsUsed x + 1\<rparr>"
    let ?xl = "extended xs m h (pos * 2) ?x"
    show ?thesis
    proof (cases "pos * 2 + 1 < CalcTreeWidth ?n h")
      case r: True
      have bt: "vBits t = b @ True # fst ?L @ fst ?R @ b'" "vHash t = c @ snd ?L @ snd ?R @ c'"
        using Suc.prems True r by (simp_all add: built_Suc Let_def)
      have el: "TraverseAndExtract t h (pos * 2) ?x = (CalcHash xs h (pos * 2), ?xl)"
        using Suc.prems(4,5) bt by (intro Suc.IH [OF l, where b = "b @ [True]" and b' = "fst ?R @ b'" and c = c and c' = "snd ?R @ c'"]) simp_all
      have er: "TraverseAndExtract t h (pos * 2 + 1) ?xl = (CalcHash xs h (pos * 2 + 1), extended xs m h (pos * 2 + 1) ?xl)"
        using Suc.prems(4,5) bt
        by (intro Suc.IH [OF r, where b = "b @ True # fst ?L" and b' = b' and c = "c @ snd ?L" and c' = c']) (simp_all add: extended_def Let_def)
      have ne: "CalcHash xs h (pos * 2 + 1) \<noteq> CalcHash xs h (pos * 2)"
        using assms(2) r unfolding no_equal_siblings_def by (metis mult.commute)
      have "extended xs m h (pos * 2 + 1) ?xl = extended xs m (Suc h) pos x"
        using True r by (simp add: extended_def Let_def built_Suc leaves_of_Suc)
      with el er ne show ?thesis using bt Suc.prems(4) r assms(1)
        by (simp add: Let_def nth_append)
    next
      case r: False
      have bt: "vBits t = b @ True # fst ?L @ b'" "vHash t = c @ snd ?L @ c'"
        using Suc.prems True r by (simp_all add: built_Suc Let_def)
      have el: "TraverseAndExtract t h (pos * 2) ?x = (CalcHash xs h (pos * 2), ?xl)"
        using Suc.prems(4,5) bt by (intro Suc.IH [OF l, where b = "b @ [True]" and b' = b' and c = c and c' = c']) simp_all
      have "?xl = extended xs m (Suc h) pos x"
        using True r by (simp add: extended_def Let_def built_Suc leaves_of_Suc)
      with el show ?thesis using bt Suc.prems(4) r assms(1) by (simp add: Let_def nth_append)
    qed
  qed
qed

text \<open>Any tree that holds a built tree, up to padding of the flags, extracts to its matches.\<close>

lemma ExtractMatches_built:
  assumes "0 < length xs" "length xs \<le> MAX_BLOCK_BASE_SIZE div 60" "no_equal_siblings xs"
    and t: "unat (nTransactions t) = length xs" "vHash t = snd (built xs m (tree_height (length xs)) 0)"
      "vBits t = fst (built xs m (tree_height (length xs)) 0) @ pad"
      "(length (vBits t) + 7) div 8 = (length (fst (built xs m (tree_height (length xs)) 0)) + 7) div 8" "\<not> fBad t"
  shows "ExtractMatches t [] =
    (merkle_root xs, map ((!) xs) (filter ((!) m) [0..<length xs]), filter ((!) m) [0..<length xs], False)"
proof -
  let ?h = "tree_height (length xs)"
  let ?x = "\<lparr>nBitsUsed = 0, nHashUsed = 0, x_vMatch = [], vnIndex = [], x_fBad = False\<rparr>"
  have w: "0 < CalcTreeWidth (length xs) ?h" using width_pos' [OF assms(1)] .
  have ex: "TraverseAndExtract t ?h 0 ?x = (CalcHash xs ?h 0, extended xs m ?h 0 ?x)"
    by (rule extract_built [OF t(1) assms(3) w, where b = "[]" and b' = pad and c = "[]" and c' = "[]"]) (simp_all add: t)
  have sz: "length (vHash t) \<le> length xs" "length (vHash t) \<le> length (vBits t)"
    using built_sizes [OF w, of m] leaves_of_all [OF assms(1)] by (simp_all add: t)
  have nt: "nTransactions t \<noteq> 0" using t(1) assms(1) by (metis nat_less_le unat_0)
  have "\<not> length xs > MAX_BLOCK_BASE_SIZE div 60" "\<not> length (vHash t) > length xs" "\<not> length (vBits t) < length (vHash t)"
    using assms(2) sz by simp_all
  moreover have "x_fBad (extended xs m ?h 0 ?x) = False" "nBitsUsed (extended xs m ?h 0 ?x) = length (fst (built xs m ?h 0))"
    "nHashUsed (extended xs m ?h 0 ?x) = length (vHash t)"
    "x_vMatch (extended xs m ?h 0 ?x) = map ((!) xs) (filter ((!) m) [0..<length xs])"
    "vnIndex (extended xs m ?h 0 ?x) = filter ((!) m) [0..<length xs]"
    by (simp_all add: extended_def Let_def t leaves_of_all [OF assms(1)])
  ultimately show ?thesis
    unfolding ExtractMatches_def by (simp add: nt t(1,4,5) ex merkle_root_eq [OF assms(1)] Let_def)
qed

text \<open>The pairs of hashes that an extraction combines.\<close>

fun extract_pairs :: "CPartialMerkleTree \<Rightarrow> nat \<Rightarrow> nat \<Rightarrow> extraction \<Rightarrow> (bytes \<times> bytes) list" where
  "extract_pairs t 0 pos x = []"
| "extract_pairs t (Suc height) pos x =
     (if nBitsUsed x \<ge> length (vBits t) \<or> \<not> vBits t ! nBitsUsed x then []
      else let x = x\<lparr>nBitsUsed := nBitsUsed x + 1\<rparr>;
               (left, xl) = TraverseAndExtract t height (pos * 2) x
           in if pos * 2 + 1 < CalcTreeWidth (unat (nTransactions t)) height
              then let (right, xr) = TraverseAndExtract t height (pos * 2 + 1) xl
                   in (left, right) # extract_pairs t height (pos * 2) x @ extract_pairs t height (pos * 2 + 1) xl
              else (left, left) # extract_pairs t height (pos * 2) x)"

lemma take_hash_bad: "x_fBad x \<Longrightarrow> x_fBad (snd (take_hash t b pos x))"
  by (simp add: take_hash_def Let_def)

lemma extract_bad: "x_fBad x \<Longrightarrow> x_fBad (snd (TraverseAndExtract t h pos x))"
proof (induction h arbitrary: pos x)
  case (Suc h)
  show ?case
    using Suc.IH [of "x\<lparr>nBitsUsed := nBitsUsed x + 1\<rparr>" "pos * 2"] Suc.IH Suc.prems take_hash_bad
    by (simp add: Let_def split_beta)
qed (simp add: take_hash_bad)

text \<open>Sound extraction: matches found under a node whose hash is right are leaves of the tree, in order.\<close>

definition found :: "bytes list \<Rightarrow> nat \<Rightarrow> nat \<Rightarrow> extraction \<Rightarrow> extraction \<Rightarrow> bool" where
  "found xs lo hi x x' \<longleftrightarrow> (\<exists>ps. vnIndex x' = vnIndex x @ ps \<and> x_vMatch x' = x_vMatch x @ map ((!) xs) ps \<and>
     sorted_wrt (<) ps \<and> (\<forall>p \<in> set ps. lo \<le> p \<and> p < hi \<and> p < length xs))"

lemma found_none: "vnIndex x' = vnIndex x \<Longrightarrow> x_vMatch x' = x_vMatch x \<Longrightarrow> found xs lo hi x x'"
  unfolding found_def by (intro exI [of _ "[]"]) simp

lemma found_trans:
  assumes "found xs lo mid x y" "found xs mid hi y z" "mid \<le> hi" "lo \<le> mid"
  shows "found xs lo hi x z"
proof -
  from assms(1,2) obtain ps qs where
    "vnIndex y = vnIndex x @ ps" "x_vMatch y = x_vMatch x @ map ((!) xs) ps" "sorted_wrt (<) ps" "\<forall>p \<in> set ps. lo \<le> p \<and> p < mid \<and> p < length xs"
    "vnIndex z = vnIndex y @ qs" "x_vMatch z = x_vMatch y @ map ((!) xs) qs" "sorted_wrt (<) qs" "\<forall>p \<in> set qs. mid \<le> p \<and> p < hi \<and> p < length xs"
    unfolding found_def by blast
  then show ?thesis unfolding found_def using assms(3,4)
    by (intro exI [of _ "ps @ qs"]) (auto simp: sorted_wrt_append intro: less_le_trans order.trans)
qed

lemma found_wider: "found xs lo mid x y \<Longrightarrow> mid \<le> hi \<Longrightarrow> found xs lo hi x y"
  unfolding found_def by (meson less_le_trans)

lemma node_children:
  assumes inj: "inj_on (\<lambda>(a, b). Hash2 a b) S" "merkle_pairs xs \<subseteq> S" "(a, b) \<in> S"
    and "h < tree_height (length xs)" "pos < CalcTreeWidth (length xs) (Suc h)" and eq: "Hash2 a b = CalcHash xs (Suc h) pos"
  shows "a = CalcHash xs h (pos * 2)" and "b = right_child xs h pos"
proof -
  have "(CalcHash xs h (2 * pos), right_child xs h pos) \<in> S"
    using assms(2,4,5) unfolding merkle_pairs_def by blast
  from inj_onD [OF inj(1) _ inj(3) this] eq have "(a, b) = (CalcHash xs h (2 * pos), right_child xs h pos)"
    by (simp only: CalcHash_children split)
  then show "a = CalcHash xs h (pos * 2)" and "b = right_child xs h pos" by (simp_all add: mult.commute)
qed

lemma extract_sound:
  assumes n: "unat (nTransactions t) = length xs" and inj: "inj_on (\<lambda>(a, b). Hash2 a b) S" "merkle_pairs xs \<subseteq> S"
  shows "\<lbrakk>h \<le> tree_height (length xs); pos < CalcTreeWidth (length xs) h; set (extract_pairs t h pos x) \<subseteq> S;
    TraverseAndExtract t h pos x = (CalcHash xs h pos, x'); \<not> x_fBad x'\<rbrakk> \<Longrightarrow> found xs (pos * 2 ^ h) ((pos + 1) * 2 ^ h) x x'"
proof (induction h arbitrary: pos x x')
  case 0
  then show ?case
    by (auto simp: take_hash_def Let_def found_def split: if_splits)
next
  case (Suc h)
  let ?n = "length xs" and ?x = "x\<lparr>nBitsUsed := nBitsUsed x + 1\<rparr>"
  have "pos * 2 ^ Suc h < ?n" using Suc.prems(2) by (simp only: width_less)
  then have lw: "pos * 2 < CalcTreeWidth ?n h" by (simp add: width_less)
  have used: "nBitsUsed x < length (vBits t)" using Suc.prems(4,5) by (auto split: if_splits)
  show ?case
  proof (cases "vBits t ! nBitsUsed x")
    case False
    then show ?thesis using Suc.prems(4,5) used by (intro found_none) (auto simp: take_hash_def Let_def split: if_splits)
  next
    case True
    obtain l xl where l: "TraverseAndExtract t h (pos * 2) ?x = (l, xl)" by fastforce
    obtain r xr where r: "TraverseAndExtract t h (pos * 2 + 1) xl = (r, xr)" by fastforce
    have h: "h < tree_height ?n" "h \<le> tree_height ?n" using Suc.prems(1) by simp_all
    have iv: "(pos * 2 + 1) * 2 ^ h \<le> (pos + 1) * 2 ^ Suc h" "(pos * 2 + 1 + 1) * 2 ^ h = (pos + 1) * 2 ^ Suc h" "pos * 2 * 2 ^ h = pos * 2 ^ Suc h"
      "pos * 2 ^ Suc h \<le> (pos * 2 + 1) * 2 ^ h" by simp_all
    have start: "found xs a b ?x y \<longleftrightarrow> found xs a b x y" for a b y by (simp add: found_def)
    show ?thesis
    proof (cases "pos * 2 + 1 < CalcTreeWidth ?n h")
      case w: True
      have res: "Hash2 l r = CalcHash xs (Suc h) pos" "x' = xr"
        using Suc.prems(4,5) used True w n l r by (auto simp: Let_def simp del: CalcHash.simps split: if_splits)
      have S: "(l, r) \<in> S" "set (extract_pairs t h (pos * 2) ?x) \<subseteq> S" "set (extract_pairs t h (pos * 2 + 1) xl) \<subseteq> S"
        using Suc.prems(3) used True w n l r by (auto simp: Let_def)
      note ch = node_children [OF inj S(1) h(1) Suc.prems(2) res(1)]
      have bad: "\<not> x_fBad xl" using extract_bad [of xl t h "pos * 2 + 1"] r Suc.prems(5) res(2) by auto
      have "found xs (pos * 2 * 2 ^ h) ((pos * 2 + 1) * 2 ^ h) ?x xl" using Suc.IH [OF h(2) lw S(2)] l ch(1) bad by simp
      moreover have "found xs ((pos * 2 + 1) * 2 ^ h) ((pos * 2 + 1 + 1) * 2 ^ h) xl xr"
        using Suc.IH [OF h(2) w S(3)] r ch(2) w Suc.prems(5) res(2) by (simp add: right_child_def mult.commute)
      ultimately show ?thesis unfolding start iv res(2) by (rule found_trans) (rule iv)+
    next
      case w: False
      have res: "Hash2 l l = CalcHash xs (Suc h) pos" "x' = xl"
        using Suc.prems(4,5) used True w n l by (auto simp: Let_def simp del: CalcHash.simps split: if_splits)
      have S: "(l, l) \<in> S" "set (extract_pairs t h (pos * 2) ?x) \<subseteq> S"
        using Suc.prems(3) used True w n l by (auto simp: Let_def)
      note ch = node_children [OF inj S(1) h(1) Suc.prems(2) res(1)]
      have "found xs (pos * 2 * 2 ^ h) ((pos * 2 + 1) * 2 ^ h) ?x xl" using Suc.IH [OF h(2) lw S(2)] l ch(1) Suc.prems(5) res(2) by simp
      then show ?thesis unfolding start iv res(2) using iv(1) by (rule found_wider)
    qed
  qed
qed

text \<open>A tree that states a single transaction is extracted to the one hash it has.\<close>

lemma extract_one:
  "ExtractMatches \<lparr>nTransactions = 1, vBits = [True], vHash = [h], fBad = False\<rparr> [] = (h, [h], [0], False)"
proof -
  have "tree_height 1 = 0" by (rule tree_height_eq) simp_all
  then show ?thesis by (simp add: ExtractMatches_def take_hash_def Let_def del: One_nat_def)
qed

section \<open>Properties\<close>

text \<open>C30: a partial tree built for a block, sent over the wire and read back, extracts to the Merkle root of the block and to
  exactly the matched transactions with their positions, in order. The packing of the flags to whole bytes does not disturb
  this. The transactions must not produce equal sibling hashes, which is the mutation the extraction rejects.\<close>

theorem partial_tree_delivers:
  assumes "0 < length xs" "length xs \<le> MAX_BLOCK_BASE_SIZE div 60" "no_equal_siblings xs" "list_all (\<lambda>h. length h = 32) xs"
  shows "\<exists>t. unser_CPartialMerkleTree (ser_CPartialMerkleTree (CPartialMerkleTree_build xs m) @ s) = Inr (t, s) \<and>
    ExtractMatches t [] = (merkle_root xs, map ((!) xs) (filter ((!) m) [0..<length xs]), filter ((!) m) [0..<length xs], False)"
proof -
  let ?h = "tree_height (length xs)"
  let ?b = "fst (built xs m ?h 0)" and ?c = "snd (built xs m ?h 0)"
  let ?t = "CPartialMerkleTree_build xs m" and ?k = "8 * ((length (fst (built xs m (tree_height (length xs)) 0)) + 7) div 8)"
  have n: "length xs \<le> 16666" using assms(2) by simp
  have w: "0 < CalcTreeWidth (length xs) ?h" using width_pos' [OF assms(1)] .
  have t: "nTransactions ?t = word_of_nat (length xs)" "vBits ?t = ?b" "vHash ?t = ?c"
    by (simp_all add: CPartialMerkleTree_build_def built_def split_beta)
  have "?h \<le> 15" using tree_height_bounds(2) [OF assms(1)] n power_increasing [of 15 "?h - 1" "2::nat"] by fastforce
  then have "(2::nat) ^ Suc ?h \<le> 2 ^ 16" by (intro power_increasing) simp_all
  then have sz: "length ?b \<le> 33554432" "length ?c \<le> 33554432" using built_sizes [OF w, of m] by auto
  let ?r = "?t\<lparr>vBits := ?b @ replicate (?k - length ?b) False, fBad := False\<rparr>"
  have "unser_CPartialMerkleTree (ser_CPartialMerkleTree ?t @ s) = Inr (?r, s)"
    using unser_ser_tree [of ?t s] built_hashes [OF assms(4) w, of m] sz unfolding t by simp
  moreover have "unat (nTransactions ?r) = length xs" using n by (simp add: t take_bit_nat_eq_self unsigned_of_nat)
  moreover have "(length (vBits ?r) + 7) div 8 = (length ?b + 7) div 8" by simp
  ultimately show ?thesis using ExtractMatches_built [OF assms(1-3), of ?r m "replicate (?k - length ?b) False"] by (auto simp: t)
qed

theorem partial_tree_delivers_witness:
  "let xs = [uint256_null, replicate 32 1]; m = [False, True] in
     no_equal_siblings xs \<and>
     (\<exists>t. unser_CPartialMerkleTree (ser_CPartialMerkleTree (CPartialMerkleTree_build xs m)) = Inr (t, []) \<and>
       ExtractMatches t [] = (Hash2 uint256_null (replicate 32 1), [replicate 32 1], [1], False))"
proof -
  let ?xs = "[uint256_null, replicate 32 1]"
  have sib: "no_equal_siblings ?xs"
    unfolding no_equal_siblings_def
  proof (intro allI impI)
    fix h i :: nat
    assume "2 * i + 1 < CalcTreeWidth (length ?xs) h"
    then have lt: "(2 * i + 1) * 2 ^ h < (2::nat)" by (simp add: width_less)
    moreover have "(2::nat) ^ h * 1 \<le> (2 * i + 1) * 2 ^ h" by simp
    ultimately have "(2::nat) ^ h < 2" by linarith
    then have h: "h = 0" by (cases h) simp_all
    with lt have "i = 0" by simp
    with h show "CalcHash ?xs h (2 * i) \<noteq> CalcHash ?xs h (2 * i + 1)" by (simp add: uint256_null_def)
  qed
  have len: "list_all (\<lambda>h. length h = 32) ?xs" by (simp add: uint256_null_def)
  have "length ?xs \<le> MAX_BLOCK_BASE_SIZE div 60" by simp
  from partial_tree_delivers [OF _ this sib len, of "[False, True]" "[]"] sib
  show ?thesis by (simp add: Let_def)
qed

text \<open>C31: for a partial tree of a peer that states the number of transactions of a block, if extraction returns the Merkle root of
  the block, then the reported transactions are transactions of the block at the reported positions, each once and in order. The hash
  function is assumed to have no collision among the pairs hashed in the block's tree and in the extraction. The number of
  transactions has to be known to be right: against the root alone, a tree that states one transaction is extracted to the root of any block,
  which it reports as a transaction.\<close>

theorem extraction_sound:
  assumes "length xs = unat (nTransactions t)" "merkle_root xs \<noteq> uint256_null"
    and "ExtractMatches t [] = (merkle_root xs, matches, indices, bad)"
    and "inj_on (\<lambda>(a, b). Hash2 a b) (merkle_pairs xs \<union> set (extract_pairs t (tree_height (length xs)) 0
           \<lparr>nBitsUsed = 0, nHashUsed = 0, x_vMatch = [], vnIndex = [], x_fBad = fBad t\<rparr>))"
  shows "matches = map ((!) xs) indices \<and> sorted_wrt (<) indices \<and> list_all (\<lambda>p. p < length xs) indices \<and>
    ExtractMatches \<lparr>nTransactions = 1, vBits = [True], vHash = [merkle_root ys], fBad = False\<rparr> [] =
      (merkle_root ys, [merkle_root ys], [0], False)"
proof -
  let ?h = "tree_height (length xs)"
  let ?x = "\<lparr>nBitsUsed = 0, nHashUsed = 0, x_vMatch = [], vnIndex = [], x_fBad = fBad t\<rparr>"
  have n0: "nTransactions t \<noteq> 0" using assms(2,3) by (auto simp: ExtractMatches_def split: if_splits)
  then have n: "0 < length xs" using assms(1) by (simp add: unat_gt_0)
  obtain r x' where r: "TraverseAndExtract t ?h 0 ?x = (r, x')" by fastforce
  have "r = merkle_root xs \<and> \<not> x_fBad x' \<and> matches = x_vMatch x' \<and> indices = vnIndex x'"
    using assms(2,3) r by (auto simp: ExtractMatches_def Let_def assms(1) [symmetric] split: if_splits)
  moreover from this have "found xs (0 * 2 ^ ?h) ((0 + 1) * 2 ^ ?h) ?x x'"
    using r merkle_root_eq [OF n] width_pos' [OF n, of ?h]
    by (intro extract_sound [OF assms(1) [symmetric] assms(4) Un_upper1 order_refl]) simp_all
  ultimately have "matches = map ((!) xs) indices \<and> sorted_wrt (<) indices \<and> list_all (\<lambda>p. p < length xs) indices"
    by (auto simp: found_def list_all_iff)
  then show ?thesis using extract_one by simp
qed

theorem extraction_sound_witness:
  "let h = replicate 32 1; t = \<lparr>nTransactions = 1, vBits = [True], vHash = [h], fBad = False\<rparr> in
     merkle_root [h] \<noteq> uint256_null \<and> ExtractMatches t [] = (merkle_root [h], [h], [0], False) \<and>
     [h] = map ((!) [h]) [0] \<and> sorted_wrt (<) [0::nat] \<and> list_all (\<lambda>p. p < length [h]) [0] \<and>
     ExtractMatches \<lparr>nTransactions = 1, vBits = [True], vHash = [merkle_root [h, h, h]], fBad = False\<rparr> [] =
       (merkle_root [h, h, h], [merkle_root [h, h, h]], [0], False)"
proof -
  let ?h = "replicate 32 (1::u8)"
  let ?t = "\<lparr>nTransactions = 1, vBits = [True], vHash = [?h], fBad = False\<rparr>"
  have th: "tree_height 1 = 0" by (rule tree_height_eq) simp_all
  have ne: "merkle_root [?h] \<noteq> uint256_null" by (simp add: uint256_null_def)
  have ex: "ExtractMatches ?t [] = (merkle_root [?h], [?h], [0], False)"
    using extract_one [of ?h] by simp
  have inj: "inj_on (\<lambda>(a, b). Hash2 a b) (merkle_pairs [?h] \<union> set (extract_pairs ?t (tree_height (length [?h])) 0
           \<lparr>nBitsUsed = 0, nHashUsed = 0, x_vMatch = [], vnIndex = [], x_fBad = fBad ?t\<rparr>))"
    using th by (simp add: merkle_pairs_def)
  have len: "length [?h] = unat (nTransactions ?t)" by simp
  show ?thesis unfolding Let_def using extraction_sound [OF len ne ex inj, of "[?h, ?h, ?h]"] ne ex by blast
qed

end
