(* ===== verification/BlockIndex.thy ===== *)
theory BlockIndex
  imports Header "HOL-Library.Monad_Syntax"
begin

text \<open>
  \<^verbatim>\<open>src/chain.h\<close>, \<^verbatim>\<open>src/chain.cpp\<close> and \<open>AddToBlockIndex\<close> of \<^verbatim>\<open>src/validation.cpp\<close>: the block index. Entries are shared
  mutable objects linked by \<open>pprev\<close> and \<open>pskip\<close>, so they live in a store that maps addresses to entries. A null pointer is
  None; a failed assertion or the use of an address that is not in the store is the result None of an operation.
  Heights are far below the 32-bit range and are written as integers.
\<close>

section \<open>Block index entries\<close>

type_synonym ptr = nat

record CBlockIndex =
  phashBlock :: "bytes option"
  pprev :: "ptr option"
  pskip :: "ptr option"
  nHeight :: int
  nFile :: int
  nDataPos :: u32
  nUndoPos :: u32
  nChainWork :: base_uint
  nTx :: u32
  nChainTx :: u32
  nStatus :: u32
  bi_nVersion :: int
  bi_hashMerkleRoot :: bytes
  bi_nTime :: u32
  bi_nBits :: u32
  bi_nNonce :: u32
  nSequenceId :: int
  nTimeMax :: u32

type_synonym index_store = "ptr \<Rightarrow> CBlockIndex option"

definition CBlockIndex_null :: CBlockIndex where
  "CBlockIndex_null =
     \<lparr>phashBlock = None, pprev = None, pskip = None, nHeight = 0, nFile = 0, nDataPos = 0, nUndoPos = 0,
      nChainWork = base_uint_zero, nTx = 0, nChainTx = 0, nStatus = 0, bi_nVersion = 0, bi_hashMerkleRoot = uint256_null,
      bi_nTime = 0, bi_nBits = 0, bi_nNonce = 0, nSequenceId = 0, nTimeMax = 0\<rparr>"

definition CBlockIndex_new :: "'a CPureBlockHeader_scheme \<Rightarrow> CBlockIndex" where
  "CBlockIndex_new block = CBlockIndex_null
     \<lparr>bi_nVersion := nVersion block, bi_hashMerkleRoot := hashMerkleRoot block, bi_nTime := nTime block,
      bi_nBits := nBits block, bi_nNonce := nNonce block\<rparr>"

definition GetBlockTime :: "CBlockIndex \<Rightarrow> int" where
  "GetBlockTime b = uint (bi_nTime b)"

definition GetBlockTimeMax :: "CBlockIndex \<Rightarrow> int" where
  "GetBlockTimeMax b = uint (nTimeMax b)"

text \<open>The validity levels and flags of the status word.\<close>

abbreviation (input) BLOCK_VALID_TREE :: u32 where
  "BLOCK_VALID_TREE \<equiv> 2"

abbreviation (input) BLOCK_VALID_MASK :: u32 where
  "BLOCK_VALID_MASK \<equiv> 1 OR 2 OR 3 OR 4 OR 5"

abbreviation (input) BLOCK_FAILED_MASK :: u32 where
  "BLOCK_FAILED_MASK \<equiv> 32 OR 64"

abbreviation (input) BLOCK_HAVE_DATA :: u32 where
  "BLOCK_HAVE_DATA \<equiv> 8"

abbreviation (input) BLOCK_HAVE_UNDO :: u32 where
  "BLOCK_HAVE_UNDO \<equiv> 16"

text \<open>A position on disk; the constructor gives the null position with file number -1.\<close>

definition GetBlockPos :: "CBlockIndex \<Rightarrow> int \<times> u32" where
  "GetBlockPos b = (if nStatus b AND BLOCK_HAVE_DATA \<noteq> 0 then (nFile b, nDataPos b) else (- 1, 0))"

definition GetUndoPos :: "CBlockIndex \<Rightarrow> int \<times> u32" where
  "GetUndoPos b = (if nStatus b AND BLOCK_HAVE_UNDO \<noteq> 0 then (nFile b, nUndoPos b) else (- 1, 0))"

definition IsValid :: "CBlockIndex \<Rightarrow> u32 \<Rightarrow> bool option" where
  "IsValid b nUpTo =
     (if nUpTo AND NOT BLOCK_VALID_MASK \<noteq> 0 then None
      else if nStatus b AND BLOCK_FAILED_MASK \<noteq> 0 then Some False
      else Some (nStatus b AND BLOCK_VALID_MASK \<ge> nUpTo))"

definition RaiseValidity :: "CBlockIndex \<Rightarrow> u32 \<Rightarrow> (bool \<times> CBlockIndex) option" where
  "RaiseValidity b nUpTo =
     (if nUpTo AND NOT BLOCK_VALID_MASK \<noteq> 0 then None
      else if nStatus b AND BLOCK_FAILED_MASK \<noteq> 0 then Some (False, b)
      else if nStatus b AND BLOCK_VALID_MASK < nUpTo
      then Some (True, b\<lparr>nStatus := (nStatus b AND NOT BLOCK_VALID_MASK) OR nUpTo\<rparr>)
      else Some (False, b))"

section \<open>The work of a block\<close>

text \<open>The division raises an exception on a zero divisor, which is the result None.\<close>

definition GetBlockProof :: "CBlockIndex \<Rightarrow> base_uint option" where
  "GetBlockProof block =
     (let (bnTarget, fNegative, fOverflow) = SetCompact (bi_nBits block)
      in if fNegative \<or> fOverflow \<or> EqualTo bnTarget 0 then Some (base_uint_of_u64 0)
         else map_option (\<lambda>q. op_add q (base_uint_of_u64 1)) (op_div (op_compl bnTarget) (op_add bnTarget (base_uint_of_u64 1))))"

section \<open>The skip list\<close>

definition InvertLowestOne :: "int \<Rightarrow> int" where
  "InvertLowestOne n = n AND (n - 1)"

definition GetSkipHeight :: "int \<Rightarrow> int" where
  "GetSkipHeight height =
     (if height < 2 then 0
      else if height AND 1 \<noteq> 0 then InvertLowestOne (InvertLowestOne (height - 1)) + 1
      else InvertLowestOne height)"

lemma InvertLowestOne_less: "0 < n \<Longrightarrow> 0 \<le> InvertLowestOne n \<and> InvertLowestOne n < n"
  using AND_upper2 [of "n - 1" n] by (simp add: InvertLowestOne_def)

lemma InvertLowestOne_le: "0 \<le> n \<Longrightarrow> 0 \<le> InvertLowestOne n \<and> InvertLowestOne n \<le> n"
  using InvertLowestOne_less [of n] by (cases "n = 0") (auto simp: InvertLowestOne_def)

lemma GetSkipHeight_bounds:
  assumes "0 < h"
  shows "0 \<le> GetSkipHeight h \<and> GetSkipHeight h < h"
proof (cases "h < 2")
  case False
  have "0 \<le> InvertLowestOne (h - 1) \<and> InvertLowestOne (h - 1) < h - 1" using False by (intro InvertLowestOne_less) simp
  moreover have "0 \<le> InvertLowestOne h \<and> InvertLowestOne h < h" using assms by (rule InvertLowestOne_less)
  moreover have "0 \<le> InvertLowestOne (InvertLowestOne (h - 1)) \<and> InvertLowestOne (InvertLowestOne (h - 1)) \<le> InvertLowestOne (h - 1)"
    using calculation by (intro InvertLowestOne_le) simp
  ultimately show ?thesis using False by (auto simp: GetSkipHeight_def)
qed (use assms in \<open>simp add: GetSkipHeight_def\<close>)

text \<open>
  The loop of \<open>GetAncestor\<close>. It follows \<open>pskip\<close> or \<open>pprev\<close> and keeps \<open>heightWalk\<close> alongside; the loop counter
  decreases whatever the store holds.
\<close>

definition follow_skip :: "int \<Rightarrow> int \<Rightarrow> bool" where
  "follow_skip heightWalk height =
     (let heightSkip = GetSkipHeight heightWalk; heightSkipPrev = GetSkipHeight (heightWalk - 1)
      in heightSkip = height \<or>
         (heightSkip > height \<and> \<not> (heightSkipPrev < heightSkip - 2 \<and> heightSkipPrev \<ge> height)))"

function ancestor_walk :: "index_store \<Rightarrow> int \<Rightarrow> ptr \<Rightarrow> int \<Rightarrow> ptr option" where
  "ancestor_walk st height p heightWalk =
     (if 0 \<le> height \<and> height < heightWalk then
        (case st p of
           None \<Rightarrow> None
         | Some b \<Rightarrow>
             if pskip b \<noteq> None \<and> follow_skip heightWalk height
             then ancestor_walk st height (the (pskip b)) (GetSkipHeight heightWalk)
             else (case pprev b of
                     None \<Rightarrow> None
                   | Some q \<Rightarrow> ancestor_walk st height q (heightWalk - 1)))
      else Some p)"
  by pat_completeness auto
termination
proof (relation "measure (\<lambda>(st, height, p, heightWalk). nat heightWalk)")
  fix st :: index_store and height heightWalk :: int and p :: ptr and b :: CBlockIndex
  assume "0 \<le> height \<and> height < heightWalk"
  then show "((st, height, the (pskip b), GetSkipHeight heightWalk), st, height, p, heightWalk)
      \<in> measure (\<lambda>(st, height, p, heightWalk). nat heightWalk)"
    using GetSkipHeight_bounds [of heightWalk] by simp
qed auto

declare ancestor_walk.simps [simp del]

text \<open>The result is None for a failed assertion and Some None for the null pointer.\<close>

definition GetAncestor :: "index_store \<Rightarrow> ptr \<Rightarrow> int \<Rightarrow> ptr option option" where
  "GetAncestor st p height =
     (case st p of
        None \<Rightarrow> None
      | Some b \<Rightarrow>
          if height > nHeight b \<or> height < 0 then Some None
          else map_option Some (ancestor_walk st height p (nHeight b)))"

definition BuildSkip :: "index_store \<Rightarrow> CBlockIndex \<Rightarrow> CBlockIndex option" where
  "BuildSkip st b =
     (case pprev b of
        None \<Rightarrow> Some b
      | Some q \<Rightarrow> map_option (\<lambda>r. b\<lparr>pskip := r\<rparr>) (GetAncestor st q (GetSkipHeight (nHeight b))))"

section \<open>Adding a header\<close>

text \<open>The objects with the next free address, the map from hashes, the best header and the set of entries to be written.\<close>

record index_state =
  objects :: index_store
  next_free :: ptr
  mapBlockIndex :: "bytes \<rightharpoonup> ptr"
  pindexBestHeader :: "ptr option"
  setDirtyBlockIndex :: "ptr set"

definition index_empty :: index_state where
  "index_empty = \<lparr>objects = Map.empty, next_free = 0, mapBlockIndex = Map.empty, pindexBestHeader = None, setDirtyBlockIndex = {}\<rparr>"

text \<open>The new entry once its predecessor is known. The predecessor is looked up after the new entry is in the map.\<close>

definition link_entry :: "index_store \<Rightarrow> ptr option \<Rightarrow> CBlockIndex \<Rightarrow> CBlockIndex option" where
  "link_entry st miPrev b =
     (case miPrev of
        None \<Rightarrow> do {
          proof \<leftarrow> GetBlockProof b;
          Some (b\<lparr>nTimeMax := bi_nTime b, nChainWork := op_add (base_uint_of_u64 0) proof\<rparr>)
        }
      | Some q \<Rightarrow> do {
          c \<leftarrow> st q;
          b \<leftarrow> BuildSkip st (b\<lparr>pprev := Some q, nHeight := nHeight c + 1\<rparr>);
          proof \<leftarrow> GetBlockProof b;
          Some (b\<lparr>nTimeMax := max (nTimeMax c) (bi_nTime b), nChainWork := op_add (nChainWork c) proof\<rparr>)
        })"

definition better_header :: "index_store \<Rightarrow> ptr option \<Rightarrow> CBlockIndex \<Rightarrow> bool option" where
  "better_header st best b =
     (case best of
        None \<Rightarrow> Some True
      | Some q \<Rightarrow> do { c \<leftarrow> st q; Some (op_gt (nChainWork b) (nChainWork c)) })"

definition AddToBlockIndex :: "'a CPureBlockHeader_scheme \<Rightarrow> index_state \<Rightarrow> (ptr \<times> index_state) option" where
  "AddToBlockIndex block s =
     (let hash = header_GetHash block
      in case mapBlockIndex s hash of
           Some p \<Rightarrow> Some (p, s)
         | None \<Rightarrow>
             (let p = next_free s;
                  b = (CBlockIndex_new block)\<lparr>nSequenceId := 0, phashBlock := Some hash\<rparr>;
                  m = (mapBlockIndex s)(hash \<mapsto> p)
              in do {
                b \<leftarrow> link_entry ((objects s)(p \<mapsto> b)) (m (hashPrevBlock block)) b;
                (_, b) \<leftarrow> RaiseValidity b BLOCK_VALID_TREE;
                better \<leftarrow> better_header ((objects s)(p \<mapsto> b)) (pindexBestHeader s) b;
                Some (p, s\<lparr>objects := (objects s)(p \<mapsto> b), next_free := p + 1, mapBlockIndex := m,
                          pindexBestHeader := (if better then Some p else pindexBestHeader s),
                          setDirtyBlockIndex := insert p (setDirtyBlockIndex s)\<rparr>)
              }))"

section \<open>Work\<close>

text \<open>The expected number of hashes for a compact target: zero for an invalid one.\<close>

definition block_work :: "u32 \<Rightarrow> nat" where
  "block_work c =
     (let (t, neg, ovf) = SetCompact c in if neg \<or> ovf \<or> uval t = 0 then 0 else 2 ^ 256 div (uval t + 1))"

lemma EqualTo_0:
  assumes "wf_uint a"
  shows "EqualTo a 0 \<longleftrightarrow> uval a = 0"
proof -
  have len: "length a = 8" using assms by (simp add: wf_uint_def WIDTH_def)
  have zero: "(ucast (x :: u32) :: u64) = 0 \<longleftrightarrow> x = 0" for x
    using ucast_up_down [of x, where ?'b = 64] by auto
  have split: "i < 8 \<longleftrightarrow> i = 0 \<or> i = 1 \<or> i = 2 \<or> i = 3 \<or> i = 4 \<or> i = 5 \<or> i = 6 \<or> i = 7" for i :: nat by auto
  have "uval a = 0 \<longleftrightarrow> a = replicate 8 0" using uval_inject [of a "replicate 8 0"] len by auto
  also have "\<dots> \<longleftrightarrow> (\<forall>i < 8. a ! i = 0)" using len by (auto simp: list_eq_iff_nth_eq)
  also have "\<dots> \<longleftrightarrow> EqualTo a 0"
    unfolding split EqualTo_def WIDTH_def by (simp add: zero) blast
  finally show ?thesis ..
qed

lemma target_not_max:
  assumes "\<not> snd (snd (SetCompact c))"
  shows "uval (fst (SetCompact c)) + 1 < 2 ^ 256"
proof (cases "compact_exponent c \<le> 3")
  case True
  then show ?thesis using compact_word_less [of c] by (simp add: SetCompact_value)
next
  case False
  let ?v = "compact_word c * 256 ^ (compact_exponent c - 3)"
  have lt: "?v < 2 ^ 256" using assms False by (simp add: SetCompact_overflow)
  have "even ?v" using False by simp
  have "?v \<noteq> 2 ^ 256 - 1"
  proof
    assume "?v = 2 ^ 256 - 1"
    then have "odd ?v" by (simp only:) simp
    with \<open>even ?v\<close> show False by (rule notE [rotated])
  qed
  with lt show ?thesis using False by (simp add: SetCompact_value)
qed

lemma GetBlockProof_value: "\<exists>w. GetBlockProof b = Some w \<and> wf_uint w \<and> uval w = block_work (bi_nBits b)"
proof -
  obtain t neg ovf where t: "SetCompact (bi_nBits b) = (t, neg, ovf)" by (cases "SetCompact (bi_nBits b)")
  have wf: "wf_uint t" using SetCompact_wf [of "bi_nBits b"] t by simp
  show ?thesis
  proof (cases "neg \<or> ovf \<or> uval t = 0")
    case True
    then show ?thesis by (auto simp: GetBlockProof_def block_work_def t EqualTo_0 [OF wf] uval_of_u64)
  next
    case False
    let ?d = "op_add t (base_uint_of_u64 1)"
    have lt: "uval t + 1 < 2 ^ 256" using target_not_max [of "bi_nBits b"] t False by simp
    have d: "wf_uint ?d" "uval ?d = uval t + 1"
      using lt by (simp_all add: wf_op_add uval_op_add uval_of_u64 wf)
    obtain q where q: "op_div (op_compl t) ?d = Some q" "wf_uint q" "uval q = uval (op_compl t) div uval ?d"
      using op_div_correct(2) [of "op_compl t" ?d] wf d by (auto simp: wf_uint_def)
    have "uval (op_compl t) div (uval t + 1) + 1 = 2 ^ 256 div (uval t + 1)"
    proof -
      have "(2::nat) ^ 256 = uval (op_compl t) + (uval t + 1)" using lt by (simp add: uval_op_compl_256 [OF wf])
      then show ?thesis by (metis Suc_eq_plus1 add.commute add_Suc_right div_add_self1 nat.distinct(1))
    qed
    then have "uval q + 1 = 2 ^ 256 div (uval t + 1)" using q(3) d(2) by simp
    moreover from this have "uval q + 1 < 2 ^ 256" using False by (simp add: div_less_dividend)
    ultimately show ?thesis
      using False q by (auto simp: GetBlockProof_def block_work_def t EqualTo_0 [OF wf] wf_op_add uval_op_add uval_of_u64)
  qed
qed

section \<open>The index is a forest\<close>

text \<open>The ancestor \<open>k\<close> steps back along \<open>pprev\<close>.\<close>

primrec up :: "index_store \<Rightarrow> ptr \<Rightarrow> nat \<Rightarrow> ptr option" where
  "up st p 0 = Some p"
| "up st p (Suc k) = do { b \<leftarrow> st p; q \<leftarrow> pprev b; up st q k }"

text \<open>What every entry owes to its predecessor. Addresses grow along the chain, which excludes cycles.\<close>

definition entry_ok :: "index_store \<Rightarrow> ptr \<Rightarrow> CBlockIndex \<Rightarrow> bool" where
  "entry_ok st p b \<longleftrightarrow> wf_uint (nChainWork b) \<and> 0 \<le> nHeight b \<and>
     (case pprev b of
        None \<Rightarrow> nHeight b = 0 \<and> pskip b = None \<and> nTimeMax b = bi_nTime b \<and> uval (nChainWork b) = block_work (bi_nBits b) mod 2 ^ 256
      | Some q \<Rightarrow> q < p \<and> (\<exists>c. st q = Some c \<and> nHeight b = nHeight c + 1 \<and> nTimeMax b = max (nTimeMax c) (bi_nTime b) \<and>
          uval (nChainWork b) = (uval (nChainWork c) + block_work (bi_nBits b)) mod 2 ^ 256) \<and>
          pskip b \<noteq> None \<and> pskip b = up st p (nat (nHeight b - GetSkipHeight (nHeight b))))"

definition store_ok :: "index_store \<Rightarrow> bool" where
  "store_ok st \<longleftrightarrow> (\<forall>p b. st p = Some b \<longrightarrow> entry_ok st p b)"

definition index_ok :: "index_state \<Rightarrow> bool" where
  "index_ok s \<longleftrightarrow> store_ok (objects s) \<and> (\<forall>p b. objects s p = Some b \<longrightarrow> p < next_free s) \<and>
     (\<forall>h p. mapBlockIndex s h = Some p \<longrightarrow> (\<exists>b. objects s p = Some b \<and> phashBlock b = Some h)) \<and>
     (\<forall>p. pindexBestHeader s = Some p \<longrightarrow> objects s p \<noteq> None) \<and>
     (\<forall>p b. objects s p = Some b \<longrightarrow> phashBlock b \<noteq> None)"

lemma up_add: "up st p (j + k) = do { q \<leftarrow> up st p j; up st q k }"
  by (induction j arbitrary: p) simp_all

lemma up_Suc_right: "up st p (Suc k) = do { q \<leftarrow> up st p k; b \<leftarrow> st q; pprev b }"
  using up_add [of st p k 1] by simp

lemma store_okD: "store_ok st \<Longrightarrow> st p = Some b \<Longrightarrow> entry_ok st p b"
  by (simp add: store_ok_def)

lemma entry_prev:
  assumes "store_ok st" "st p = Some b" "0 < nHeight b"
  obtains q c where "pprev b = Some q" "st q = Some c" "nHeight b = nHeight c + 1" "q < p"
    "nTimeMax b = max (nTimeMax c) (bi_nTime b)" "pskip b = up st p (nat (nHeight b - GetSkipHeight (nHeight b)))" "pskip b \<noteq> None"
  using assms unfolding store_ok_def entry_ok_def by (cases "pprev b") force+

lemma up_height:
  assumes "store_ok st"
  shows "st p = Some b \<Longrightarrow> int k \<le> nHeight b \<Longrightarrow> \<exists>q c. up st p k = Some q \<and> st q = Some c \<and> nHeight c = nHeight b - int k \<and> q \<le> p"
proof (induction k arbitrary: p b)
  case (Suc k)
  then have "0 < nHeight b" by simp
  from entry_prev [OF assms Suc.prems(1) this] obtain q c where
    q: "pprev b = Some q" "st q = Some c" "nHeight b = nHeight c + 1" "q < p" by metis
  then have "int k \<le> nHeight c" using Suc.prems by simp
  from Suc.IH [OF q(2) this] obtain r d where "up st q k = Some r" "st r = Some d" "nHeight d = nHeight c - int k" "r \<le> q" by blast
  then show ?case using Suc.prems q by auto
qed simp

lemma up_too_far:
  assumes "store_ok st"
  shows "st p = Some b \<Longrightarrow> nHeight b < int k \<Longrightarrow> up st p k = None"
proof (induction k arbitrary: p b)
  case 0
  then show ?case using store_okD [OF assms 0(1)] by (simp add: entry_ok_def)
next
  case (Suc k)
  show ?case
  proof (cases "pprev b")
    case (Some q)
    then obtain c where c: "st q = Some c" "nHeight b = nHeight c + 1" using store_okD [OF assms Suc.prems(1)] by (auto simp: entry_ok_def)
    then have "up st q k = None" using Suc.prems by (intro Suc.IH) simp_all
    then show ?thesis using Some Suc.prems by simp
  qed (use Suc.prems in simp)
qed

text \<open>The skip list walks to the ancestor, and never runs into a missing predecessor. The store may hold further entries.\<close>

lemma map_leD: "m \<subseteq>\<^sub>m m' \<Longrightarrow> m k = Some v \<Longrightarrow> m' k = Some v"
  by (auto simp: map_le_def dom_def)

lemma up_mono: "st \<subseteq>\<^sub>m st' \<Longrightarrow> up st p k = Some q \<Longrightarrow> up st' p k = Some q"
proof (induction k arbitrary: p)
  case (Suc k)
  then obtain b r where "st p = Some b" "pprev b = Some r" "up st r k = Some q" by (auto simp: Option.bind_eq_Some_conv)
  with Suc map_leD show ?case by fastforce
qed simp

lemma ancestor_walk_up:
  assumes "store_ok st" "st \<subseteq>\<^sub>m st'" "0 \<le> h"
  shows "st p = Some b \<Longrightarrow> h \<le> nHeight b \<Longrightarrow> ancestor_walk st' h p (nHeight b) = up st p (nat (nHeight b - h))"
proof (induction "nat (nHeight b)" arbitrary: p b rule: less_induct)
  case less
  have st': "st' p = Some b" using map_leD [OF assms(2) less.prems(1)] .
  show ?case
  proof (cases "h < nHeight b")
    case False
    then show ?thesis using less.prems by (subst ancestor_walk.simps) simp
  next
    case True
    then have pos: "0 < nHeight b" using assms(3) by simp
    let ?s = "GetSkipHeight (nHeight b)"
    from entry_prev [OF assms(1) less.prems(1) pos] obtain q c where
      q: "pprev b = Some q" "st q = Some c" "nHeight b = nHeight c + 1"
        "pskip b = up st p (nat (nHeight b - ?s))" "pskip b \<noteq> None" by metis
    have s: "0 \<le> ?s" "?s < nHeight b" using GetSkipHeight_bounds [OF pos] by auto
    show ?thesis
    proof (cases "follow_skip (nHeight b) h")
      case f: True
      then have hs: "h \<le> ?s" by (auto simp: follow_skip_def Let_def)
      obtain r d where r: "up st p (nat (nHeight b - ?s)) = Some r" "st r = Some d" "nHeight d = ?s"
        using up_height [OF assms(1) less.prems(1), of "nat (nHeight b - ?s)"] s by auto
      have "ancestor_walk st' h r (nHeight d) = up st r (nat (nHeight d - h))"
        using r s hs pos by (intro less.hyps) simp_all
      moreover have "nat (nHeight b - h) = nat (nHeight b - ?s) + nat (?s - h)" using s hs by simp
      ultimately show ?thesis using r q(4) f True assms(3) st'
        by (subst ancestor_walk.simps) (simp add: up_add)
    next
      case f: False
      have "ancestor_walk st' h q (nHeight c) = up st q (nat (nHeight c - h))"
        using q True pos by (intro less.hyps) simp_all
      moreover have "nat (nHeight b - h) = Suc (nat (nHeight c - h))" using q(3) True by simp
      ultimately show ?thesis using q f True assms(3) st' less.prems(1)
        by (subst ancestor_walk.simps) simp
    qed
  qed
qed

lemma GetAncestor_up:
  assumes "store_ok st" "st \<subseteq>\<^sub>m st'" "st p = Some b"
  shows "GetAncestor st' p h = Some (if 0 \<le> h \<and> h \<le> nHeight b then up st p (nat (nHeight b - h)) else None)"
proof (cases "0 \<le> h \<and> h \<le> nHeight b")
  case True
  then obtain q where "up st p (nat (nHeight b - h)) = Some q" using up_height [OF assms(1,3), of "nat (nHeight b - h)"] by auto
  then show ?thesis
    using True map_leD [OF assms(2,3)] ancestor_walk_up [OF assms(1,2) _ assms(3), of h] by (simp add: GetAncestor_def)
qed (use map_leD [OF assms(2,3)] in \<open>auto simp: GetAncestor_def\<close>)

section \<open>Adding headers keeps the index well-formed\<close>

lemma entry_ok_mono:
  assumes "entry_ok st p b" "st \<subseteq>\<^sub>m st'"
  shows "entry_ok st' p b"
proof (cases "pprev b")
  case None
  then show ?thesis using assms(1) by (simp add: entry_ok_def)
next
  case (Some q)
  then have "pskip b \<noteq> None" "pskip b = up st p (nat (nHeight b - GetSkipHeight (nHeight b)))"
    using assms(1) unfolding entry_ok_def \<open>pprev b = Some q\<close> option.case by blast+
  then obtain r where "pskip b = Some r" "up st p (nat (nHeight b - GetSkipHeight (nHeight b))) = Some r" by (metis option.exhaust)
  moreover from up_mono [OF assms(2) this(2)] have "up st' p (nat (nHeight b - GetSkipHeight (nHeight b))) = Some r" .
  ultimately show ?thesis using assms(1) Some map_leD [OF assms(2), of q] by (auto simp: entry_ok_def)
qed

lemma link_entry_ok:
  assumes "store_ok st" "st p = None" "\<forall>q c. st q = Some c \<longrightarrow> q < p" "\<forall>q. prev = Some q \<longrightarrow> st q \<noteq> None"
    and b: "nHeight b = 0" "pprev b = None" "pskip b = None"
  shows "\<exists>b'. link_entry (st(p \<mapsto> b)) prev b = Some b' \<and> phashBlock b' = phashBlock b \<and> pprev b' = prev \<and> nStatus b' = nStatus b \<and>
    bi_nBits b' = bi_nBits b \<and>
    (\<forall>x. entry_ok (st(p \<mapsto> b'\<lparr>nStatus := x\<rparr>)) p (b'\<lparr>nStatus := x\<rparr>))"
proof -
  have le: "st \<subseteq>\<^sub>m st(p \<mapsto> y)" for y using assms(2) by (auto simp: map_le_def)
  obtain w where w: "GetBlockProof b = Some w" "wf_uint w" "uval w = block_work (bi_nBits b)" using GetBlockProof_value by blast
  show ?thesis
  proof (cases prev)
    case None
    then show ?thesis using w b by (simp add: link_entry_def entry_ok_def wf_op_add uval_op_add uval_of_u64)
  next
    case (Some q)
    then obtain c where c: "st q = Some c" "q < p" using assms(3,4) by blast
    have cw: "wf_uint (nChainWork c)" "0 \<le> nHeight c" using store_okD [OF assms(1) c(1)] by (simp_all add: entry_ok_def)
    let ?h = "nHeight c + 1"
    have s: "0 \<le> GetSkipHeight ?h" "GetSkipHeight ?h < ?h" using GetSkipHeight_bounds [of ?h] cw by auto
    let ?k = "nat (nHeight c - GetSkipHeight ?h)"
    obtain r where r: "up st q ?k = Some r" using up_height [OF assms(1) c(1), of ?k] s by auto
    have anc: "GetAncestor (st(p \<mapsto> b)) q (GetSkipHeight ?h) = Some (Some r)"
      using GetAncestor_up [OF assms(1) le c(1)] s r by simp
    have w': "GetBlockProof (b\<lparr>pprev := x, nHeight := y, pskip := z\<rparr>) = Some w" for x y z using w(1) by (simp add: GetBlockProof_def)
    have k: "nat (?h - GetSkipHeight ?h) = Suc ?k" using s by simp
    have "up (st(p \<mapsto> y)) q ?k = Some r" for y using up_mono [OF le r] .
    then show ?thesis using c Some b anc w cw
      by (auto simp: link_entry_def BuildSkip_def w' entry_ok_def wf_op_add uval_op_add k max_def)
  qed
qed

lemma RaiseValidity_new: "nStatus b = 0 \<Longrightarrow> RaiseValidity b BLOCK_VALID_TREE = Some (True, b\<lparr>nStatus := BLOCK_VALID_TREE\<rparr>)"
  by (simp add: RaiseValidity_def)

lemma AddToBlockIndex_ok:
  assumes "index_ok s" "hashPrevBlock block \<noteq> header_GetHash block"
  shows "\<exists>p s'. AddToBlockIndex block s = Some (p, s') \<and> index_ok s' \<and> objects s \<subseteq>\<^sub>m objects s' \<and>
    mapBlockIndex s' (header_GetHash block) = Some p \<and>
    (mapBlockIndex s (header_GetHash block) = None \<longrightarrow>
       (\<exists>b. objects s' p = Some b \<and> pprev b = mapBlockIndex s (hashPrevBlock block) \<and> bi_nBits b = nBits block))"
proof (cases "mapBlockIndex s (header_GetHash block)")
  case (Some p)
  then show ?thesis using assms(1) by (auto simp: AddToBlockIndex_def)
next
  case None
  let ?st = "objects s" and ?p = "next_free s" and ?prev = "mapBlockIndex s (hashPrevBlock block)"
  let ?b = "(CBlockIndex_new block)\<lparr>nSequenceId := 0, phashBlock := Some (header_GetHash block)\<rparr>"
  have ok: "store_ok ?st" "\<forall>q c. ?st q = Some c \<longrightarrow> q < ?p"
    "\<forall>h p. mapBlockIndex s h = Some p \<longrightarrow> (\<exists>b. ?st p = Some b \<and> phashBlock b = Some h)"
    "\<forall>p. pindexBestHeader s = Some p \<longrightarrow> ?st p \<noteq> None" "\<forall>p b. ?st p = Some b \<longrightarrow> phashBlock b \<noteq> None" using assms(1) by (simp_all add: index_ok_def)
  have fresh: "?st ?p = None" using ok(2) by (metis not_None_eq order_less_irrefl)
  have "\<forall>q. ?prev = Some q \<longrightarrow> ?st q \<noteq> None" using ok(3) by fastforce
  from link_entry_ok [OF ok(1) fresh ok(2) this, of ?b] obtain b where
    b: "link_entry (?st(?p \<mapsto> ?b)) ?prev ?b = Some b" "phashBlock b = Some (header_GetHash block)" "pprev b = ?prev" "nStatus b = 0"
      "bi_nBits b = nBits block" "\<And>x. entry_ok (?st(?p \<mapsto> b\<lparr>nStatus := x\<rparr>)) ?p (b\<lparr>nStatus := x\<rparr>)"
    by (auto simp: CBlockIndex_new_def CBlockIndex_null_def)
  define b' where "b' = b\<lparr>nStatus := BLOCK_VALID_TREE\<rparr>"
  let ?st' = "?st(?p \<mapsto> b')"
  have le: "?st \<subseteq>\<^sub>m ?st'" using fresh by (auto simp: map_le_def)
  have st': "store_ok ?st'"
    unfolding store_ok_def using b(6) store_okD [OF ok(1)] entry_ok_mono [OF _ le] by (auto simp: b'_def)
  obtain better where better: "better_header ?st' (pindexBestHeader s) b' = Some better"
    using ok(4) map_leD [OF le] by (cases "pindexBestHeader s") (auto simp: better_header_def)
  let ?s' = "s\<lparr>objects := ?st', next_free := ?p + 1, mapBlockIndex := (mapBlockIndex s)(header_GetHash block \<mapsto> ?p),
     pindexBestHeader := (if better then Some ?p else pindexBestHeader s), setDirtyBlockIndex := insert ?p (setDirtyBlockIndex s)\<rparr>"
  have "AddToBlockIndex block s = Some (?p, ?s')"
    using None assms(2) b(1,4) better by (simp add: AddToBlockIndex_def Let_def RaiseValidity_new b'_def)
  moreover have "mapBlockIndex s h \<noteq> Some ?p" for h using ok(3) fresh by force
  then have "index_ok ?s'"
    using st' ok(2,3,4,5) fresh b(2) by (auto simp: index_ok_def b'_def less_SucI)
  ultimately show ?thesis using le b(3,5) by (intro exI [of _ ?p] exI [of _ ?s']) (simp add: b'_def)
qed

text \<open>The indexes that arise from the empty one. A header whose hash is its own predecessor would link to itself.\<close>

inductive reachable_index :: "index_state \<Rightarrow> bool" where
  reach_empty: "reachable_index index_empty"
| reach_add: "reachable_index s \<Longrightarrow> hashPrevBlock block \<noteq> header_GetHash block \<Longrightarrow>
    AddToBlockIndex (block :: CPureBlockHeader) s = Some (p, s') \<Longrightarrow> reachable_index s'"

inductive_cases reachable_indexE: "reachable_index s"

lemma reachable_ok: "reachable_index s \<Longrightarrow> index_ok s"
proof (induction rule: reachable_index.induct)
  case reach_empty
  show ?case by (simp add: index_ok_def index_empty_def store_ok_def)
next
  case (reach_add s block p s')
  then show ?case using AddToBlockIndex_ok [of s block] by auto
qed

text \<open>A header that starts a chain, for the witnesses below; its previous hash is the empty string, which is no hash.\<close>

definition root_header :: CPureBlockHeader where
  "root_header = CPureBlockHeader_null\<lparr>nVersion := 1, hashPrevBlock := [], nTime := 1386325540, nBits := 0x1e0ffff0, nNonce := 99943\<rparr>"

lemma root_header_starts: "hashPrevBlock root_header \<noteq> header_GetHash root_header"
proof -
  have "length (header_GetHash root_header) = 32" by (simp add: header_GetHash_def SerializeHash_eq length_sha256)
  then show ?thesis by (auto simp: root_header_def)
qed

lemma AddToBlockIndex_dom:
  "AddToBlockIndex block s = Some (p, s') \<Longrightarrow> dom (objects s') \<subseteq> insert p (dom (objects s))"
  by (auto simp: AddToBlockIndex_def Let_def Option.bind_eq_Some_conv split: option.splits if_splits)

lemma root_index_all:
  obtains s p b where "reachable_index s" "objects s p = Some b" "nHeight b = 0" "bi_nBits b = 0x1e0ffff0" "dom (objects s) = {p}"
proof -
  obtain p s' where s': "AddToBlockIndex root_header index_empty = Some (p, s')" "index_ok s'"
      "mapBlockIndex index_empty (header_GetHash root_header) = None \<longrightarrow>
         (\<exists>b. objects s' p = Some b \<and> pprev b = mapBlockIndex index_empty (hashPrevBlock root_header) \<and> bi_nBits b = nBits root_header)"
    using AddToBlockIndex_ok [OF reachable_ok [OF reach_empty] root_header_starts] by (elim exE conjE) (rule that)
  then obtain b where b: "objects s' p = Some b" "pprev b = None" "bi_nBits b = 0x1e0ffff0" by (auto simp: index_empty_def root_header_def)
  then have "nHeight b = 0" using s'(2) store_okD [of "objects s'" p b] by (simp add: index_ok_def entry_ok_def)
  moreover have "dom (objects s') = {p}" using AddToBlockIndex_dom [OF s'(1)] b(1) by (auto simp: index_empty_def dom_def)
  ultimately show thesis using that reach_add [OF reach_empty root_header_starts s'(1)] b(1,3) by blast
qed

lemma root_index_bits:
  obtains s p b where "reachable_index s" "objects s p = Some b" "nHeight b = 0" "bi_nBits b = 0x1e0ffff0"
  using root_index_all by metis

lemma root_index_only:
  obtains s p b where "reachable_index s" "objects s p = Some b" "nHeight b = 0" "dom (objects s) = {p}"
  using root_index_all by metis

lemma root_index:
  obtains s p b where "reachable_index s" "objects s p = Some b" "nHeight b = 0"
  using root_index_all by metis

section \<open>Properties\<close>

text \<open>C24: adding a header to a block index that arises from adding headers never fails an assertion: it returns an entry that
  the map holds under the hash of the header, keeps all earlier entries, links a new entry to the one of its previous hash, copies the target,
  and keeps the invariant that heights, maximal times, accumulated work and skip pointers agree with the predecessors.\<close>

theorem block_index_invariant:
  assumes "reachable_index s" "hashPrevBlock block \<noteq> header_GetHash block"
  shows "\<exists>p s'. AddToBlockIndex block s = Some (p, s') \<and> index_ok s' \<and> objects s \<subseteq>\<^sub>m objects s' \<and>
    mapBlockIndex s' (header_GetHash block) = Some p \<and>
    (mapBlockIndex s (header_GetHash block) = None \<longrightarrow>
       (\<exists>b. objects s' p = Some b \<and> pprev b = mapBlockIndex s (hashPrevBlock block) \<and> bi_nBits b = nBits block))"
  using AddToBlockIndex_ok [OF reachable_ok [OF assms(1)] assms(2)] .

theorem block_index_invariant_witness:
  "\<exists>p s'. AddToBlockIndex root_header index_empty = Some (p, s') \<and> index_ok s' \<and> mapBlockIndex s' (header_GetHash root_header) = Some p"
  using block_index_invariant [OF reach_empty root_header_starts] by blast

text \<open>C25: in every reachable index \<open>GetAncestor\<close> returns the entry reached by following \<open>pprev\<close> down to the wanted height, a null
  pointer exactly for heights outside the chain, and never fails its assertion, whatever mix of skip and previous pointers
  it follows.\<close>

theorem ancestor_correct:
  assumes "reachable_index s" "objects s p = Some b"
  shows "GetAncestor (objects s) p h = Some (if 0 \<le> h \<and> h \<le> nHeight b then up (objects s) p (nat (nHeight b - h)) else None) \<and>
    (0 \<le> h \<and> h \<le> nHeight b \<longrightarrow> (\<exists>q c. GetAncestor (objects s) p h = Some (Some q) \<and> objects s q = Some c \<and> nHeight c = h))"
proof -
  have ok: "store_ok (objects s)" using reachable_ok [OF assms(1)] by (simp add: index_ok_def)
  show ?thesis
    using GetAncestor_up [OF ok map_le_refl assms(2), of h] up_height [OF ok assms(2), of "nat (nHeight b - h)"] by auto
qed

theorem ancestor_correct_witness:
  "\<exists>s p. reachable_index s \<and> objects s p \<noteq> None \<and> GetAncestor (objects s) p 0 = Some (Some p)"
proof -
  obtain s p b where s: "reachable_index s" "objects s p = Some b" "nHeight b = 0" by (rule root_index)
  show ?thesis using ancestor_correct [OF s(1,2), of 0] s by auto
qed

text \<open>The work of a block is the expected number of hashes, \<open>2 ^ 256\<close> over the target plus one, computed without the
  256-bit arithmetic overflowing or dividing by zero; an invalid target has no work.\<close>

theorem block_proof_value:
  "\<exists>w. GetBlockProof b = Some w \<and> wf_uint w \<and>
     uval w = (let (t, neg, ovf) = SetCompact (bi_nBits b) in if neg \<or> ovf \<or> uval t = 0 then 0 else 2 ^ 256 div (uval t + 1))"
  using GetBlockProof_value [of b] unfolding block_work_def .

end
