(* ===== verification/Chain.thy ===== *)
theory Chain
  imports BlockIndex
begin

text \<open>
  \<^verbatim>\<open>CChain\<close> of \<^verbatim>\<open>src/chain.h\<close> and \<^verbatim>\<open>src/chain.cpp\<close>: the active chain as a vector of pointers to block index entries, with the
  operations that set its tip, find forks, build locators and search by time. Loops over the entries of an arbitrary store
  need not end, so they are partial functions; on a well-formed index they are shown to return.
\<close>

section \<open>The vector of entries\<close>

type_synonym vChain = "ptr option list"

definition Genesis :: "vChain \<Rightarrow> ptr option" where
  "Genesis v = (if length v > 0 then v ! 0 else None)"

definition Tip :: "vChain \<Rightarrow> ptr option" where
  "Tip v = (if length v > 0 then v ! (length v - 1) else None)"

definition chain_at :: "vChain \<Rightarrow> int \<Rightarrow> ptr option" where
  "chain_at v h = (if h < 0 \<or> h \<ge> int (length v) then None else v ! nat h)"

definition Contains :: "index_store \<Rightarrow> vChain \<Rightarrow> ptr \<Rightarrow> bool option" where
  "Contains st v p = do { b \<leftarrow> st p; Some (chain_at v (nHeight b) = Some p) }"

definition Next :: "index_store \<Rightarrow> vChain \<Rightarrow> ptr \<Rightarrow> ptr option option" where
  "Next st v p = do {
     c \<leftarrow> Contains st v p;
     b \<leftarrow> st p;
     Some (if c then chain_at v (nHeight b + 1) else None)
   }"

definition Height :: "vChain \<Rightarrow> int" where
  "Height v = int (length v) - 1"

definition resize :: "nat \<Rightarrow> vChain \<Rightarrow> vChain" where
  "resize n v = take n v @ replicate (n - length v) None"

text \<open>Indexing outside the vector is the error.\<close>

partial_function (option) settip_loop :: "index_store \<Rightarrow> vChain \<Rightarrow> ptr option \<Rightarrow> vChain option" where
  "settip_loop st v pindex =
     (case pindex of
        None \<Rightarrow> Some v
      | Some p \<Rightarrow>
          (case st p of
             None \<Rightarrow> None
           | Some b \<Rightarrow>
               if nHeight b < 0 \<or> nHeight b \<ge> int (length v) then None
               else if v ! nat (nHeight b) = Some p then Some v
               else settip_loop st (v[nat (nHeight b) := Some p]) (pprev b)))"

definition SetTip :: "index_store \<Rightarrow> vChain \<Rightarrow> ptr option \<Rightarrow> vChain option" where
  "SetTip st v pindex =
     (case pindex of
        None \<Rightarrow> Some []
      | Some p \<Rightarrow> do { b \<leftarrow> st p; settip_loop st (resize (nat (nHeight b + 1)) v) (Some p) })"

partial_function (option) fork_loop :: "index_store \<Rightarrow> vChain \<Rightarrow> ptr option \<Rightarrow> ptr option option" where
  "fork_loop st v pindex =
     (case pindex of
        None \<Rightarrow> Some None
      | Some p \<Rightarrow>
          (case Contains st v p of
             None \<Rightarrow> None
           | Some c \<Rightarrow>
               if c then Some (Some p)
               else (case st p of None \<Rightarrow> None | Some b \<Rightarrow> fork_loop st v (pprev b))))"

definition FindFork :: "index_store \<Rightarrow> vChain \<Rightarrow> ptr option \<Rightarrow> ptr option option" where
  "FindFork st v pindex =
     (case pindex of
        None \<Rightarrow> Some None
      | Some p \<Rightarrow> do {
          b \<leftarrow> st p;
          pindex \<leftarrow> (if nHeight b > Height v then GetAncestor st p (Height v) else Some (Some p));
          fork_loop st v pindex
        })"

partial_function (option) locator_loop :: "index_store \<Rightarrow> vChain \<Rightarrow> ptr option \<Rightarrow> int \<Rightarrow> bytes list \<Rightarrow> bytes list option" where
  "locator_loop st v pindex nStep vHave =
     (case pindex of
        None \<Rightarrow> Some vHave
      | Some p \<Rightarrow>
          (case st p of
             None \<Rightarrow> None
           | Some b \<Rightarrow>
               (case phashBlock b of
                  None \<Rightarrow> None
                | Some hash \<Rightarrow>
                    let vHave = vHave @ [hash]
                    in if nHeight b = 0 then Some vHave
                       else let h = max (nHeight b - nStep) 0
                            in case Contains st v p of
                                 None \<Rightarrow> None
                               | Some c \<Rightarrow>
                                   (case (if c then Some (chain_at v h) else GetAncestor st p h) of
                                      None \<Rightarrow> None
                                    | Some pindex \<Rightarrow> locator_loop st v pindex (if length vHave > 10 then nStep * 2 else nStep) vHave))))"

definition GetLocator :: "index_store \<Rightarrow> vChain \<Rightarrow> ptr option \<Rightarrow> bytes list option" where
  "GetLocator st v pindex = locator_loop st v (if pindex = None then Tip v else pindex) 1 []"

text \<open>The standard library's search for the first element for which a monotone predicate fails.\<close>

function lower_bound :: "(nat \<Rightarrow> bool option) \<Rightarrow> nat \<Rightarrow> nat \<Rightarrow> nat option" where
  "lower_bound before first count =
     (if count = 0 then Some first
      else let step = count div 2
           in case before (first + step) of
                None \<Rightarrow> None
              | Some b \<Rightarrow> if b then lower_bound before (first + step + 1) (count - (step + 1)) else lower_bound before first step)"
  by pat_completeness auto
termination
  by (relation "measure (\<lambda>(before, first, count). count)") auto

declare lower_bound.simps [simp del]

definition FindEarliestAtLeast :: "index_store \<Rightarrow> vChain \<Rightarrow> int \<Rightarrow> ptr option option" where
  "FindEarliestAtLeast st v t = do {
     lower \<leftarrow> lower_bound (\<lambda>i. do { p \<leftarrow> v ! i; b \<leftarrow> st p; Some (GetBlockTimeMax b < t) }) 0 (length v);
     Some (if lower = length v then None else v ! lower)
   }"

text \<open>The times of up to eleven blocks, newest first, and their median.\<close>

primrec median_times :: "index_store \<Rightarrow> ptr option \<Rightarrow> nat \<Rightarrow> int list option" where
  "median_times st pindex 0 = Some []"
| "median_times st pindex (Suc n) =
     (case pindex of
        None \<Rightarrow> Some []
      | Some p \<Rightarrow> do { b \<leftarrow> st p; ts \<leftarrow> median_times st (pprev b) n; Some (GetBlockTime b # ts) })"

definition GetMedianTimePast :: "index_store \<Rightarrow> ptr \<Rightarrow> int option" where
  "GetMedianTimePast st p = do {
     ts \<leftarrow> median_times st (Some p) 11;
     Some (sort ts ! (length ts div 2))
   }"

section \<open>Chains of a well-formed index\<close>

text \<open>The entries from height zero up to an entry.\<close>

definition path :: "index_store \<Rightarrow> ptr \<Rightarrow> CBlockIndex \<Rightarrow> vChain" where
  "path st p b = map (\<lambda>i. up st p (nat (nHeight b) - i)) [0..<nat (nHeight b) + 1]"

definition chain_ok :: "index_store \<Rightarrow> vChain \<Rightarrow> bool" where
  "chain_ok st v \<longleftrightarrow> v = [] \<or> (\<exists>p b. st p = Some b \<and> v = path st p b)"

lemma length_path [simp]: "length (path st p b) = nat (nHeight b) + 1"
  by (simp add: path_def)

lemma nth_path: "i \<le> nat (nHeight b) \<Longrightarrow> path st p b ! i = up st p (nat (nHeight b) - i)"
  unfolding path_def by (subst nth_map) (simp_all del: upt_Suc)

lemma nonneg_height: "store_ok st \<Longrightarrow> st p = Some b \<Longrightarrow> 0 \<le> nHeight b"
  using store_okD [of st p b] by (simp add: entry_ok_def)

lemma chain_entry:
  assumes "store_ok st" "chain_ok st v" "i < length v"
  obtains q c where "v ! i = Some q" "st q = Some c" "nHeight c = int i"
proof -
  obtain p b where p: "st p = Some b" "v = path st p b" using assms by (auto simp: chain_ok_def)
  have i: "i \<le> nat (nHeight b)" "0 \<le> nHeight b" using p assms(3) nonneg_height [OF assms(1) p(1)] by simp_all
  from up_height [OF assms(1) p(1), of "nat (nHeight b) - i"] i obtain q c where
    "up st p (nat (nHeight b) - i) = Some q" "st q = Some c" "nHeight c = int i" by auto
  then show thesis using that i p(2) by (simp add: nth_path)
qed

text \<open>Below an entry of a chain the chain is the path to that entry.\<close>

lemma chain_below:
  assumes "store_ok st" "chain_ok st v" "i < length v" "v ! i = Some q" "j \<le> i"
  shows "v ! j = up st q (i - j)"
proof -
  obtain p b where p: "st p = Some b" "v = path st p b" using assms by (auto simp: chain_ok_def)
  have i: "i \<le> nat (nHeight b)" using p assms(3) by simp
  have "v ! j = up st p ((nat (nHeight b) - i) + (i - j))" using p i assms(5) by (simp add: nth_path)
  also have "\<dots> = up st q (i - j)" using assms(4) p i unfolding up_add by (simp add: nth_path)
  finally show ?thesis .
qed

lemma Contains_iff:
  assumes "store_ok st" "chain_ok st v" "st p = Some b"
  shows "Contains st v p = Some (Some p \<in> set v)"
proof -
  have "chain_at v (nHeight b) = Some p \<longleftrightarrow> Some p \<in> set v"
  proof
    assume "chain_at v (nHeight b) = Some p"
    then have "nat (nHeight b) < length v" "v ! nat (nHeight b) = Some p"
      by (auto simp: chain_at_def nat_less_iff split: if_splits)
    then show "Some p \<in> set v" using nth_mem [of "nat (nHeight b)" v] by simp
  next
    assume "Some p \<in> set v"
    then obtain i where i: "i < length v" "v ! i = Some p" by (auto simp: in_set_conv_nth)
    from chain_entry [OF assms(1,2) i(1)] i(2) assms(3) have "nHeight b = int i" by force
    with i show "chain_at v (nHeight b) = Some p" by (simp add: chain_at_def)
  qed
  then show ?thesis using assms(3) by (simp add: Contains_def)
qed

subsection \<open>Setting the tip\<close>

text \<open>The vector while the loop runs: the positions above the current entry already hold the path.\<close>

definition settip_state :: "vChain \<Rightarrow> vChain \<Rightarrow> nat \<Rightarrow> vChain" where
  "settip_state w target k = map (\<lambda>i. if i < k then w ! i else target ! i) [0..<length target]"

lemma settip_loop_path:
  assumes ok: "store_ok st" "chain_ok st v" and p: "st p = Some b" and w: "w = resize (nat (nHeight b) + 1) v"
  shows "st q = Some c \<Longrightarrow> nHeight c = int k \<Longrightarrow> k \<le> nat (nHeight b) \<Longrightarrow> up st p (nat (nHeight b) - k) = Some q \<Longrightarrow>
    settip_loop st (settip_state w (path st p b) (Suc k)) (Some q) = Some (path st p b)"
proof (induction k arbitrary: q c)
  case (0 q c)
  let ?s = "settip_state w (path st p b)"
  have pq: "path st p b ! 0 = Some q" using 0 by (simp add: nth_path)
  have "pprev c = None" using store_okD [OF ok(1) 0(1)] 0(2) nonneg_height [OF ok(1)]
    by (cases "pprev c") (force simp: entry_ok_def)+
  moreover have "(?s 1)[0 := Some q] = path st p b" "?s 1 ! 0 = Some q \<Longrightarrow> ?s 1 = path st p b"
    using pq by (auto intro!: nth_equalityI simp: settip_state_def nth_list_update nth_Cons' simp del: upt_Suc)
  ultimately show ?case using 0
    by (subst settip_loop.simps) (auto simp: settip_loop.simps [of _ _ None] settip_state_def simp del: upt_Suc)
next
  case (Suc k q c)
  let ?H = "nat (nHeight b)" and ?s = "settip_state w (path st p b)"
  have pq: "path st p b ! Suc k = Some q" using Suc.prems by (simp add: nth_path)
  have upd: "(?s (Suc (Suc k)))[Suc k := Some q] = ?s (Suc k)"
    using pq by (auto intro!: nth_equalityI simp: settip_state_def nth_list_update simp del: upt_Suc)
  have len: "\<not> (nHeight c < 0 \<or> int (length (?s (Suc (Suc k)))) \<le> nHeight c)" using Suc.prems by (auto simp: settip_state_def)
  have hk: "nat (1 + int k) = Suc k" by simp
  have at: "?s (Suc (Suc k)) ! Suc k = w ! Suc k" using Suc.prems by (simp add: settip_state_def del: upt_Suc)
  show ?case
  proof (cases "w ! Suc k = Some q")
    case True
    have kv: "Suc k < length v" "v ! Suc k = Some q"
      using True Suc.prems(3) by (auto simp: w resize_def nth_append split: if_splits)
    have "w ! i = path st p b ! i" if "i \<le> Suc k" for i
    proof -
      have "w ! i = v ! i" using that kv Suc.prems(3) by (simp add: w resize_def nth_append)
      also have "\<dots> = up st q (Suc k - i)" using chain_below [OF ok kv that] .
      also have "\<dots> = up st p ((?H - Suc k) + (Suc k - i))" unfolding up_add using Suc.prems(4) by simp
      finally show ?thesis using that Suc.prems(3) by (simp add: nth_path)
    qed
    then have "?s (Suc (Suc k)) = path st p b"
      by (auto intro!: nth_equalityI simp: settip_state_def less_Suc_eq_le simp del: upt_Suc)
    then show ?thesis using True at len hk Suc.prems(1,2) by (subst settip_loop.simps) simp
  next
    case False
    have "0 < nHeight c" using Suc.prems(2) by simp
    from entry_prev [OF ok(1) Suc.prems(1) this] obtain r d where
      r: "pprev c = Some r" "st r = Some d" "nHeight c = nHeight d + 1" by metis
    have "up st p (?H - k) = Some r"
      using up_Suc_right [of st p "?H - Suc k"] Suc.prems r by (simp add: Suc_diff_Suc)
    then have "settip_loop st (?s (Suc k)) (Some r) = Some (path st p b)"
      using r Suc.prems by (intro Suc.IH [OF r(2)]) simp_all
    then show ?thesis using False at len hk Suc.prems(1,2) r(1) upd by (subst settip_loop.simps) simp
  qed
qed

lemma SetTip_path:
  assumes "store_ok st" "chain_ok st v" "st p = Some b"
  shows "SetTip st v (Some p) = Some (path st p b)"
proof -
  let ?H = "nat (nHeight b)"
  have h: "0 \<le> nHeight b" using nonneg_height [OF assms(1,3)] .
  have "settip_state (resize (?H + 1) v) (path st p b) (Suc ?H) = resize (?H + 1) v"
    by (auto intro!: nth_equalityI simp: settip_state_def resize_def simp del: upt_Suc)
  then show ?thesis
    using settip_loop_path [OF assms refl assms(3), of ?H] h assms(3) by (simp add: SetTip_def nat_add_distrib)
qed

subsection \<open>Forks\<close>

lemma fork_loop_found:
  assumes ok: "store_ok st" "chain_ok st v"
  shows "st p = Some b \<Longrightarrow> \<exists>r. fork_loop st v (Some p) = Some r \<and>
    (case r of
       None \<Rightarrow> \<forall>k a. up st p k = Some a \<longrightarrow> Some a \<notin> set v
     | Some a \<Rightarrow> \<exists>k. up st p k = Some a \<and> Some a \<in> set v \<and> (\<forall>j a'. j < k \<longrightarrow> up st p j = Some a' \<longrightarrow> Some a' \<notin> set v))"
proof (induction p arbitrary: b rule: less_induct)
  case (less p)
  have loop: "fork_loop st v (Some p) = (if Some p \<in> set v then Some (Some p) else fork_loop st v (pprev b))"
    using less.prems by (subst fork_loop.simps) (simp add: Contains_iff [OF ok less.prems])
  show ?case
  proof (cases "Some p \<in> set v")
    case True
    then show ?thesis using loop by (auto intro!: exI [of _ 0])
  next
    case False
    show ?thesis
    proof (cases "pprev b")
      case None
      have "up st p k = Some a \<Longrightarrow> Some a \<notin> set v" for k a
        using False None less.prems by (cases k) auto
      then show ?thesis using loop False None by (simp add: fork_loop.simps [of _ _ None])
    next
      case (Some q)
      then obtain c where q: "q < p" "st q = Some c" using store_okD [OF ok(1) less.prems] by (auto simp: entry_ok_def)
      have up: "up st p (Suc k) = up st q k" for k using less.prems Some by simp
      from less.IH [OF q] obtain r where r: "fork_loop st v (Some q) = Some r"
        "case r of None \<Rightarrow> \<forall>k a. up st q k = Some a \<longrightarrow> Some a \<notin> set v
         | Some a \<Rightarrow> \<exists>k. up st q k = Some a \<and> Some a \<in> set v \<and> (\<forall>j a'. j < k \<longrightarrow> up st q j = Some a' \<longrightarrow> Some a' \<notin> set v)"
        by blast
      have none: "(\<forall>k a. up st q k = Some a \<longrightarrow> Some a \<notin> set v) \<Longrightarrow> up st p k = Some a \<Longrightarrow> Some a \<notin> set v" for k a
        using False up by (cases k) (auto simp del: up.simps(2))
      have some: "up st q k = Some a \<Longrightarrow> \<forall>j a'. j < k \<longrightarrow> up st q j = Some a' \<longrightarrow> Some a' \<notin> set v \<Longrightarrow>
          up st p (Suc k) = Some a \<and> (\<forall>j a'. j < Suc k \<longrightarrow> up st p j = Some a' \<longrightarrow> Some a' \<notin> set v)" for k a
        using False up by (auto simp del: up.simps(2) simp: less_Suc_eq_0_disj)
      have eq: "fork_loop st v (Some p) = Some r" using loop False Some r(1) by simp
      show ?thesis
      proof (cases r)
        case None
        then show ?thesis using eq r(2) none by auto
      next
        case (Some a)
        then obtain k where "up st q k = Some a" "Some a \<in> set v" "\<forall>j a'. j < k \<longrightarrow> up st q j = Some a' \<longrightarrow> Some a' \<notin> set v"
          using r(2) by auto
        with some [of k a] show ?thesis using eq Some by (auto simp del: up.simps(2) intro!: exI [of _ "Suc k"])
      qed
    qed
  qed
qed

lemma chain_heights:
  assumes "store_ok st" "chain_ok st v" "Some a \<in> set v"
  shows "\<exists>c. st a = Some c \<and> nHeight c \<le> Height v"
proof -
  obtain i where i: "i < length v" "v ! i = Some a" using assms(3) by (auto simp: in_set_conv_nth)
  from chain_entry [OF assms(1,2) i(1)] i show ?thesis by (force simp: Height_def)
qed

lemma FindFork_found:
  assumes ok: "store_ok st" "chain_ok st v" and p: "st p = Some b"
  shows "\<exists>r. FindFork st v (Some p) = Some r \<and>
    (case r of
       None \<Rightarrow> \<forall>k a. up st p k = Some a \<longrightarrow> Some a \<notin> set v
     | Some a \<Rightarrow> \<exists>k. up st p k = Some a \<and> Some a \<in> set v \<and> (\<forall>j a'. j < k \<longrightarrow> up st p j = Some a' \<longrightarrow> Some a' \<notin> set v))"
proof (cases "nHeight b > Height v")
  case False
  then show ?thesis using fork_loop_found [OF ok p] p by (simp add: FindFork_def)
next
  case True
  define d where "d = nat (nHeight b - Height v)"
  have above: "up st p j = Some a \<Longrightarrow> int j < nHeight b - Height v \<Longrightarrow> Some a \<notin> set v" for j a
    using up_height [OF ok(1) p, of j] up_too_far [OF ok(1) p, of j] chain_heights [OF ok, of a] by fastforce
  show ?thesis
  proof (cases "v = []")
    case True
    then show ?thesis using p GetAncestor_up [OF ok(1) map_le_refl p, of "- 1"] nonneg_height [OF ok(1) p]
      by (simp add: FindFork_def Height_def fork_loop.simps [of _ _ None])
  next
    case False
    then have hv: "0 \<le> Height v" by (simp add: Height_def Suc_le_eq)
    obtain q c where q: "up st p d = Some q" "st q = Some c"
      using up_height [OF ok(1) p, of d] hv True by (auto simp: d_def)
    from fork_loop_found [OF ok q(2)] obtain r where r: "fork_loop st v (Some q) = Some r"
        "case r of None \<Rightarrow> \<forall>k a. up st q k = Some a \<longrightarrow> Some a \<notin> set v
         | Some a \<Rightarrow> \<exists>k. up st q k = Some a \<and> Some a \<in> set v \<and> (\<forall>j a'. j < k \<longrightarrow> up st q j = Some a' \<longrightarrow> Some a' \<notin> set v)"
      by blast
    have eq: "FindFork st v (Some p) = Some r"
      using p True hv GetAncestor_up [OF ok(1) map_le_refl p, of "Height v"] q r(1) by (simp add: FindFork_def d_def)
    have far: "up st p j = Some a \<Longrightarrow> \<not> j < d \<Longrightarrow> up st q (j - d) = Some a" for j a
      using up_add [of st p d "j - d"] q(1) by simp
    have near: "up st p j = Some a \<Longrightarrow> j < d \<Longrightarrow> Some a \<notin> set v" for j a using above [of j a] by (simp add: d_def zless_nat_eq_int_zless)
    show ?thesis
    proof (cases r)
      case None
      then have "up st p k = Some a \<Longrightarrow> Some a \<notin> set v" for k a using r(2) far [of k a] near [of k a] by auto
      then show ?thesis using eq None by auto
    next
      case (Some a)
      then obtain k where k: "up st q k = Some a" "Some a \<in> set v" "\<forall>j a'. j < k \<longrightarrow> up st q j = Some a' \<longrightarrow> Some a' \<notin> set v"
        using r(2) by auto
      have "up st p (d + k) = Some a" using k(1) q(1) by (simp add: up_add)
      moreover have "Some a' \<notin> set v" if "j < d + k" "up st p j = Some a'" for j a'
        using near [OF that(2)] far [OF that(2)] k(3) less_diff_conv2 [of d j k] that(1)
        by (cases "j < d") (auto simp: add.commute)
      ultimately show ?thesis using eq Some k(2) by auto
    qed
  qed
qed

subsection \<open>Locators\<close>

text \<open>The heights a locator visits: steps of one for the first entries, then doubling.\<close>

function locator_heights :: "nat \<Rightarrow> nat \<Rightarrow> nat \<Rightarrow> nat list" where
  "locator_heights h step n =
     (if h = 0 \<or> step = 0 then [h] else h # locator_heights (h - step) (if n + 1 > 10 then 2 * step else step) (n + 1))"
  by pat_completeness auto
termination
  by (relation "measure (\<lambda>(h, step, n). h)") auto

declare locator_heights.simps [simp del]

lemma hd_locator_heights: "locator_heights h step n \<noteq> []" "hd (locator_heights h step n) = h"
  by (subst locator_heights.simps, simp)+

lemma locator_heights_sorted: "sorted_wrt (>) (locator_heights h step n) \<and> (\<forall>x \<in> set (locator_heights h step n). x \<le> h)"
proof (induction h step n rule: locator_heights.induct)
  case (1 h step n)
  show ?case
  proof (cases "h = 0 \<or> step = 0")
    case True
    then show ?thesis by (subst (1 2) locator_heights.simps) auto
  next
    case False
    then have "x \<le> h - step \<Longrightarrow> x < h" for x by linarith
    with False show ?thesis using "1.IH" by (subst (1 2) locator_heights.simps) (auto intro: less_imp_le)
  qed
qed

lemma locator_heights_last: "0 < step \<Longrightarrow> last (locator_heights h step n) = 0"
proof (induction h step n rule: locator_heights.induct)
  case (1 h step n)
  then show ?case by (cases "h = 0") (subst locator_heights.simps, simp add: hd_locator_heights(1))+
qed

lemma locator_heights_doubling: "10 \<le> n \<Longrightarrow> h \<le> step * (2 ^ m - 1) \<Longrightarrow> length (locator_heights h step n) \<le> m + 1"
proof (induction m arbitrary: h step n)
  case 0
  then show ?case by (subst locator_heights.simps) simp
next
  case (Suc m)
  show ?case
  proof (cases "h = 0 \<or> step = 0")
    case True
    then show ?thesis by (subst locator_heights.simps) auto
  next
    case False
    obtain t where "(2::nat) ^ m = Suc t" using not0_implies_Suc [of "2 ^ m"] by auto
    then have "step * (2 ^ Suc m - 1) = step + 2 * step * (2 ^ m - 1)" by (simp add: algebra_simps)
    then have "h - step \<le> 2 * step * (2 ^ m - 1)" using Suc.prems(2) by linarith
    then have "length (locator_heights (h - step) (2 * step) (n + 1)) \<le> m + 1" using Suc.prems(1) by (intro Suc.IH) simp_all
    then show ?thesis using False Suc.prems(1) by (subst locator_heights.simps) simp
  qed
qed

lemma locator_heights_length: "n \<le> 10 \<Longrightarrow> h < 2 ^ m \<Longrightarrow> length (locator_heights h 1 n) \<le> (10 - n) + m + 1"
proof (induction "10 - n" arbitrary: n h)
  case 0
  then show ?case using locator_heights_doubling [of n h 1 m] by simp
next
  case (Suc d)
  have "length (locator_heights (h - 1) 1 (n + 1)) \<le> (10 - (n + 1)) + m + 1" using Suc by (intro Suc.hyps) simp_all
  moreover have "n < 10" using Suc.hyps(2) by simp
  ultimately show ?case by (cases "h = 0"; subst locator_heights.simps) auto
qed

text \<open>The entry of the chain of \<open>p\<close> at a height, and its hash.\<close>

definition hash_at :: "index_store \<Rightarrow> ptr \<Rightarrow> CBlockIndex \<Rightarrow> nat \<Rightarrow> bytes" where
  "hash_at st p b h = the (phashBlock (the (st (the (up st p (nat (nHeight b) - h))))))"

definition hashes_ok :: "index_store \<Rightarrow> bool" where
  "hashes_ok st \<longleftrightarrow> (\<forall>p b. st p = Some b \<longrightarrow> phashBlock b \<noteq> None)"

lemma locator_loop_heights:
  assumes ok: "store_ok st" "chain_ok st v" "hashes_ok st" and p: "st p = Some b"
  shows "k \<le> nat (nHeight b) \<Longrightarrow> up st p (nat (nHeight b) - k) = Some q \<Longrightarrow> 0 < step \<Longrightarrow>
    locator_loop st v (Some q) (int step) vs = Some (vs @ map (hash_at st p b) (locator_heights k step (length vs)))"
proof (induction k arbitrary: q step vs rule: less_induct)
  case (less k)
  have b0: "0 \<le> nHeight b" using nonneg_height [OF ok(1) p] .
  obtain c where c: "st q = Some c" "nHeight c = int k"
    using up_height [OF ok(1) p, of "nat (nHeight b) - k"] less.prems b0 by auto
  obtain x where x: "phashBlock c = Some x" using ok(3) c(1) by (auto simp: hashes_ok_def)
  have hx: "hash_at st p b k = x" using less.prems(2) c x by (simp add: hash_at_def)
  show ?case
  proof (cases "k = 0")
    case True
    then show ?thesis using c x hx by (subst locator_loop.simps, subst locator_heights.simps) simp
  next
    case False
    let ?k = "k - step"
    have k: "?k < k" "max (int k - int step) 0 = int ?k" using False less.prems(3) by auto
    have anc: "up st q (k - ?k) = up st p (nat (nHeight b) - ?k)"
      using up_add [of st p "nat (nHeight b) - k" "k - ?k"] less.prems(1,2) k(1) by simp
    obtain r where r: "up st p (nat (nHeight b) - ?k) = Some r"
      using up_height [OF ok(1) p, of "nat (nHeight b) - ?k"] b0 by (fastforce simp: le_nat_iff)
    have "(if Some q \<in> set v then Some (chain_at v (int ?k)) else GetAncestor st q (int ?k)) = Some (Some r)"
    proof (cases "Some q \<in> set v")
      case True
      then have kv: "k < length v" "v ! k = Some q" using Contains_iff [OF ok(1,2) c(1)] c by (auto simp: Contains_def chain_at_def split: if_splits)
      then show ?thesis using True chain_below [OF ok(1,2) kv, of ?k] k(1) anc r by (simp add: chain_at_def)
    next
      case False
      then show ?thesis using GetAncestor_up [OF ok(1) map_le_refl c(1), of "int ?k"] c k(1) anc r by (simp add: nat_diff_distrib')
    qed
    then have "locator_loop st v (Some q) (int step) vs =
        locator_loop st v (Some r) (int (if length vs + 1 > 10 then 2 * step else step)) (vs @ [x])"
      using False c x k(2) by (subst locator_loop.simps) (simp add: Contains_iff [OF ok(1,2) c(1)] Let_def mult.commute)
    also have "\<dots> = Some ((vs @ [x]) @ map (hash_at st p b) (locator_heights ?k (if length vs + 1 > 10 then 2 * step else step) (length (vs @ [x]))))"
      using less.prems k(1) r by (intro less.IH) simp_all
    finally show ?thesis using False less.prems(3) hx by (subst locator_heights.simps) simp
  qed
qed

lemma GetLocator_heights:
  assumes ok: "store_ok st" "chain_ok st v" "hashes_ok st" and p: "st p = Some b"
  shows "GetLocator st v (Some p) = Some (map (hash_at st p b) (locator_heights (nat (nHeight b)) 1 0))"
  using locator_loop_heights [OF assms, of "nat (nHeight b)" p 1 "[]"] by (simp add: GetLocator_def)

subsection \<open>Searching by time\<close>

lemma lower_bound_first:
  assumes before: "\<And>i. lo \<le> i \<Longrightarrow> i < hi \<Longrightarrow> before i = Some (P i)" and mono: "\<And>i j. lo \<le> i \<Longrightarrow> i \<le> j \<Longrightarrow> j < hi \<Longrightarrow> P j \<Longrightarrow> P i"
  shows "lo \<le> first \<Longrightarrow> first + count \<le> hi \<Longrightarrow>
    \<exists>r. lower_bound before first count = Some r \<and> first \<le> r \<and> r \<le> first + count \<and> (\<forall>i. first \<le> i \<longrightarrow> i < r \<longrightarrow> P i) \<and> (r < first + count \<longrightarrow> \<not> P r)"
proof (induction count arbitrary: first rule: less_induct)
  case (less count)
  show ?case
  proof (cases "count = 0")
    case True
    then show ?thesis by (subst lower_bound.simps) simp
  next
    case False
    let ?m = "first + count div 2"
    have m: "count div 2 < count" "?m < hi" using False less.prems by linarith+
    have bm: "before ?m = Some (P ?m)" using less.prems m by (intro before) simp_all
    show ?thesis
    proof (cases "P ?m")
      case True
      have "\<exists>r. lower_bound before (?m + 1) (count - (count div 2 + 1)) = Some r \<and> ?m + 1 \<le> r \<and> r \<le> ?m + 1 + (count - (count div 2 + 1)) \<and>
          (\<forall>i. ?m + 1 \<le> i \<longrightarrow> i < r \<longrightarrow> P i) \<and> (r < ?m + 1 + (count - (count div 2 + 1)) \<longrightarrow> \<not> P r)"
        using less.prems False by (intro less.IH) linarith+
      then obtain r where r: "lower_bound before (?m + 1) (count - (count div 2 + 1)) = Some r" "?m + 1 \<le> r" "r \<le> first + count"
          "\<And>i. ?m + 1 \<le> i \<Longrightarrow> i < r \<Longrightarrow> P i" "r < first + count \<Longrightarrow> \<not> P r"
        using m(1) by auto
      have "P i" if "first \<le> i" "i < r" for i
        using r(4) [of i] that mono [of i ?m] True less.prems(1) m(2) by (cases "?m + 1 \<le> i") simp_all
      then show ?thesis using r False bm True by (subst lower_bound.simps) (simp add: Let_def)
    next
      case f: False
      have "\<exists>r. lower_bound before first (count div 2) = Some r \<and> first \<le> r \<and> r \<le> first + count div 2 \<and>
          (\<forall>i. first \<le> i \<longrightarrow> i < r \<longrightarrow> P i) \<and> (r < first + count div 2 \<longrightarrow> \<not> P r)"
        using less.prems m by (intro less.IH) simp_all
      then obtain r where r: "lower_bound before first (count div 2) = Some r" "first \<le> r" "r \<le> ?m"
          "\<forall>i. first \<le> i \<longrightarrow> i < r \<longrightarrow> P i" "r < ?m \<longrightarrow> \<not> P r" by blast
      have "\<not> P r" using r(3,5) f by (cases "r = ?m") simp_all
      then show ?thesis using r False bm f by (subst lower_bound.simps) (simp add: Let_def)
    qed
  qed
qed

definition chain_entry_at :: "index_store \<Rightarrow> vChain \<Rightarrow> nat \<Rightarrow> CBlockIndex" where
  "chain_entry_at st v i = the (st (the (v ! i)))"

lemma chain_entry_at:
  assumes "store_ok st" "chain_ok st v" "i < length v"
  obtains q where "v ! i = Some q" "st q = Some (chain_entry_at st v i)" "nHeight (chain_entry_at st v i) = int i"
proof -
  from chain_entry [OF assms] obtain q c where "v ! i = Some q" "st q = Some c" "nHeight c = int i" .
  then show thesis by (intro that [of q]) (simp_all add: chain_entry_at_def)
qed

lemma time_max_Suc:
  assumes "store_ok st" "chain_ok st v" "Suc i < length v"
  shows "nTimeMax (chain_entry_at st v (Suc i)) = max (nTimeMax (chain_entry_at st v i)) (bi_nTime (chain_entry_at st v (Suc i)))"
proof -
  let ?c = "chain_entry_at st v"
  from chain_entry_at [OF assms] obtain q where q: "v ! Suc i = Some q" "st q = Some (?c (Suc i))" "nHeight (?c (Suc i)) = int (Suc i)" .
  have "0 < nHeight (?c (Suc i))" using q(3) by simp
  from entry_prev [OF assms(1) q(2) this] obtain r d where
    r: "pprev (?c (Suc i)) = Some r" "st r = Some d" "nTimeMax (?c (Suc i)) = max (nTimeMax d) (bi_nTime (?c (Suc i)))" by metis
  have "v ! i = Some r" using chain_below [OF assms q(1), of i] q(2) r(1) by simp
  then show ?thesis using r by (simp add: chain_entry_at_def)
qed

lemma time_max_0:
  assumes "store_ok st" "chain_ok st v" "0 < length v"
  shows "nTimeMax (chain_entry_at st v 0) = bi_nTime (chain_entry_at st v 0)"
proof -
  from chain_entry_at [OF assms] obtain q where q: "st q = Some (chain_entry_at st v 0)" "nHeight (chain_entry_at st v 0) = int 0" .
  show ?thesis
  proof (cases "pprev (chain_entry_at st v 0)")
    case None
    then show ?thesis using store_okD [OF assms(1) q(1)] by (simp add: entry_ok_def)
  next
    case (Some r)
    then obtain c where "st r = Some c" "nHeight (chain_entry_at st v 0) = nHeight c + 1"
      using store_okD [OF assms(1) q(1)] by (auto simp: entry_ok_def)
    then show ?thesis using q(2) nonneg_height [OF assms(1), of r c] by simp
  qed
qed

lemma time_max_less:
  assumes "store_ok st" "chain_ok st v"
  shows "i < length v \<Longrightarrow> GetBlockTimeMax (chain_entry_at st v i) < t \<longleftrightarrow> (\<forall>j \<le> i. GetBlockTime (chain_entry_at st v j) < t)"
proof (induction i)
  case 0
  then show ?case using time_max_0 [OF assms] by (simp add: GetBlockTimeMax_def GetBlockTime_def)
next
  case (Suc i)
  have "uint (max a b) < t \<longleftrightarrow> uint a < t \<and> uint b < t" for a b :: u32
    by (auto simp: max_def word_le_def)
  then show ?case using Suc time_max_Suc [OF assms Suc.prems]
    by (auto simp: GetBlockTimeMax_def GetBlockTime_def le_Suc_eq)
qed

lemma FindEarliest_first:
  assumes ok: "store_ok st" "chain_ok st v"
  shows "\<exists>r. FindEarliestAtLeast st v t = Some r \<and>
    (case r of
       None \<Rightarrow> \<forall>i < length v. GetBlockTime (chain_entry_at st v i) < t
     | Some q \<Rightarrow> \<exists>i < length v. v ! i = Some q \<and> t \<le> GetBlockTime (chain_entry_at st v i) \<and> (\<forall>j < i. GetBlockTime (chain_entry_at st v j) < t))"
proof -
  let ?P = "\<lambda>i. GetBlockTimeMax (chain_entry_at st v i) < t"
  let ?f = "\<lambda>i. do { p \<leftarrow> v ! i; b \<leftarrow> st p; Some (GetBlockTimeMax b < t) }"
  have f: "?f i = Some (?P i)" if "i < length v" for i
    using chain_entry_at [OF ok that] by (metis Option.bind.bind_lunit)
  have mono: "?P i" if "i \<le> j" "j < length v" "?P j" for i j
    using that time_max_less [OF ok, of i t] time_max_less [OF ok, of j t] by auto
  have "\<exists>r. lower_bound ?f 0 (length v) = Some r \<and> 0 \<le> r \<and> r \<le> 0 + length v \<and> (\<forall>i. 0 \<le> i \<longrightarrow> i < r \<longrightarrow> ?P i) \<and> (r < 0 + length v \<longrightarrow> \<not> ?P r)"
    by (rule lower_bound_first [where lo = 0 and hi = "length v"]) (simp_all add: f, blast intro: mono)
  then obtain r where r: "lower_bound ?f 0 (length v) = Some r" "r \<le> length v" "\<forall>i < r. ?P i" "r < length v \<longrightarrow> \<not> ?P r" by auto
  have before: "GetBlockTime (chain_entry_at st v i) < t" if "i < r" for i
    using r(2,3) that time_max_less [OF ok, of i t] by auto
  show ?thesis
  proof (cases "r = length v")
    case True
    then show ?thesis using r(1) before by (auto simp: FindEarliestAtLeast_def)
  next
    case False
    then have lt: "r < length v" using r(2) by simp
    then obtain j where "j \<le> r" "\<not> GetBlockTime (chain_entry_at st v j) < t" using r(4) time_max_less [OF ok lt, of t] by auto
    with before [of j] have "t \<le> GetBlockTime (chain_entry_at st v r)" by (cases "j = r") auto
    moreover from chain_entry_at [OF ok lt] obtain q where "v ! r = Some q" .
    ultimately show ?thesis using r(1) lt before by (auto simp: FindEarliestAtLeast_def)
  qed
qed

lemma reachable_store: "reachable_index s \<Longrightarrow> store_ok (objects s) \<and> hashes_ok (objects s)"
  using reachable_ok [of s] by (simp add: index_ok_def hashes_ok_def)

lemma chain_ok_path: "st p = Some b \<Longrightarrow> chain_ok st (path st p b)"
  by (auto simp: chain_ok_def)

section \<open>Properties\<close>

text \<open>From any chain of a reachable index, \<open>SetTip\<close> returns and leaves exactly the path from height zero to the new
  tip, although it stops as soon as it meets an entry that is already in place; the result is again a chain, its tip and
  height are those of the new entry, and it contains exactly the ancestors of the tip.\<close>

theorem set_tip_path:
  assumes "reachable_index s" "chain_ok (objects s) v" "objects s p = Some b"
  shows "\<exists>v'. SetTip (objects s) v (Some p) = Some v' \<and> chain_ok (objects s) v' \<and> Tip v' = Some p \<and> Height v' = nHeight b \<and>
    (\<forall>q. objects s q \<noteq> None \<longrightarrow> Contains (objects s) v' q = Some (\<exists>k. up (objects s) p k = Some q))"
proof -
  let ?st = "objects s" and ?H = "nat (nHeight b)"
  have ok: "store_ok ?st" and b0: "0 \<le> nHeight b" using reachable_store [OF assms(1)] nonneg_height [of ?st p b] assms(3) by auto
  have v': "chain_ok ?st (path ?st p b)" by (rule chain_ok_path) (rule assms)
  have "Some q \<in> set (path ?st p b) \<longleftrightarrow> (\<exists>k. up ?st p k = Some q)" for q
  proof
    show "Some q \<in> set (path ?st p b) \<Longrightarrow> \<exists>k. up ?st p k = Some q" unfolding path_def set_map by (metis imageE)
    assume "\<exists>k. up ?st p k = Some q"
    then obtain k where k: "up ?st p k = Some q" by blast
    then have "k \<le> ?H" using up_too_far [OF ok assms(3), of k] by (cases "nHeight b < int k") auto
    then have "path ?st p b ! (?H - k) = Some q" "?H - k < length (path ?st p b)" using k by (simp_all add: nth_path)
    then show "Some q \<in> set (path ?st p b)" by (metis nth_mem)
  qed
  moreover have "Tip (path ?st p b) = Some p" "Height (path ?st p b) = nHeight b" using b0 by (simp_all add: Tip_def Height_def nth_path)
  ultimately show ?thesis
    using SetTip_path [OF ok assms(2,3)] v' Contains_iff [OF ok v'] by (intro exI [of _ "path ?st p b"]) auto
qed

theorem set_tip_path_witness:
  "\<exists>s p v'. reachable_index s \<and> chain_ok (objects s) [] \<and> SetTip (objects s) [] (Some p) = Some v' \<and> Tip v' = Some p"
proof -
  obtain s p b where s: "reachable_index s" "objects s p = Some b" "nHeight b = 0" by (rule root_index)
  have "chain_ok (objects s) []" by (simp add: chain_ok_def)
  from set_tip_path [OF s(1) this s(2)] this s show ?thesis by blast
qed

text \<open>\<open>FindFork\<close> returns, and its result is the last ancestor of the given entry that lies in the chain, or the null pointer
  when no ancestor does.\<close>

theorem find_fork_last_common:
  assumes "reachable_index s" "chain_ok (objects s) v" "objects s p = Some b"
  shows "\<exists>r. FindFork (objects s) v (Some p) = Some r \<and>
    (case r of
       None \<Rightarrow> \<forall>k a. up (objects s) p k = Some a \<longrightarrow> Some a \<notin> set v
     | Some a \<Rightarrow> \<exists>k. up (objects s) p k = Some a \<and> Some a \<in> set v \<and>
         (\<forall>j a'. j < k \<longrightarrow> up (objects s) p j = Some a' \<longrightarrow> Some a' \<notin> set v))"
  using FindFork_found [OF _ assms(2,3)] reachable_store [OF assms(1)] by blast

theorem find_fork_last_common_witness:
  "\<exists>s p v r. reachable_index s \<and> objects s p \<noteq> None \<and> chain_ok (objects s) v \<and> FindFork (objects s) v (Some p) = Some r"
proof -
  obtain s p b where s: "reachable_index s" "objects s p = Some b" "nHeight b = 0" by (rule root_index)
  have "chain_ok (objects s) (path (objects s) p b)" by (rule chain_ok_path) (rule s)
  from find_fork_last_common [OF s(1) this s(2)] s this show ?thesis by blast
qed

text \<open>C26: \<open>GetLocator\<close> ends and lists hashes of ancestors at strictly decreasing heights, from the given entry down to height
  zero, one by one at first and then with doubling steps, whether it jumps through the chain or the skip list; below
  \<open>2 ^ m\<close> blocks a locator has at most \<open>m + 11\<close> hashes.\<close>

theorem locator_ends_at_root:
  assumes "reachable_index s" "chain_ok (objects s) v" "objects s p = Some b"
  shows "\<exists>heights. GetLocator (objects s) v (Some p) = Some (map (hash_at (objects s) p b) heights) \<and>
    hd heights = nat (nHeight b) \<and> last heights = 0 \<and> sorted_wrt (>) heights \<and>
    (\<forall>m. nHeight b < 2 ^ m \<longrightarrow> length heights \<le> m + 11)"
proof -
  let ?l = "locator_heights (nat (nHeight b)) 1 0"
  have ok: "store_ok (objects s)" "hashes_ok (objects s)" using reachable_store [OF assms(1)] by auto
  have b0: "0 \<le> nHeight b" using nonneg_height [OF ok(1) assms(3)] .
  have "length ?l \<le> m + 11" if "nHeight b < 2 ^ m" for m
    using locator_heights_length [of 0 "nat (nHeight b)" m] that b0 by (simp add: nat_less_iff)
  then show ?thesis
    using GetLocator_heights [OF ok(1) assms(2) ok(2) assms(3)] hd_locator_heights(2) locator_heights_last locator_heights_sorted
    by (intro exI [of _ ?l]) simp
qed

theorem locator_ends_at_root_witness:
  "\<exists>s p v b heights. reachable_index s \<and> chain_ok (objects s) v \<and> objects s p = Some b \<and> last heights = 0 \<and>
    GetLocator (objects s) v (Some p) = Some (map (hash_at (objects s) p b) heights)"
proof -
  obtain s p b where s: "reachable_index s" "objects s p = Some b" "nHeight b = 0" by (rule root_index)
  have "chain_ok (objects s) (path (objects s) p b)" by (rule chain_ok_path) (rule s)
  from locator_ends_at_root [OF s(1) this s(2)] s this show ?thesis by blast
qed

text \<open>\<open>FindEarliestAtLeast\<close> returns the lowest block of the chain whose own time is at least the given one, and the null
  pointer exactly when there is none, although it searches by the running maximum of the times.\<close>

theorem find_earliest_first:
  assumes "reachable_index s" "chain_ok (objects s) v"
  shows "\<exists>r. FindEarliestAtLeast (objects s) v t = Some r \<and>
    (case r of
       None \<Rightarrow> \<forall>i < length v. GetBlockTime (chain_entry_at (objects s) v i) < t
     | Some q \<Rightarrow> \<exists>i < length v. v ! i = Some q \<and> t \<le> GetBlockTime (chain_entry_at (objects s) v i) \<and>
         (\<forall>j < i. GetBlockTime (chain_entry_at (objects s) v j) < t))"
  using FindEarliest_first [OF _ assms(2)] reachable_store [OF assms(1)] by blast

theorem find_earliest_first_witness:
  "reachable_index index_empty \<and> chain_ok (objects index_empty) [] \<and> (\<exists>r. FindEarliestAtLeast (objects index_empty) [] 0 = Some r)"
  using find_earliest_first [OF reach_empty, of "[]" 0] reach_empty by (auto simp: chain_ok_def)

end
