(* ===== verification/Params.thy ===== *)
theory Params
  imports Transaction ArithUint256
begin

text \<open>
  \<^verbatim>\<open>src/consensus/params.h\<close>, \<^verbatim>\<open>src/chainparams.cpp\<close> and the hexadecimal form of \<^verbatim>\<open>src/uint256.cpp\<close>: the consensus parameters
  of the three networks and the search tree that selects them by height. The objects are static, so fields the constructors
  do not assign are zero. The hashes of the genesis blocks are the constants the constructors assert.
\<close>

section \<open>Hexadecimal form of a 256-bit blob\<close>

definition HexDigit :: "char \<Rightarrow> int" where
  "HexDigit c =
     (let n = of_char c :: int
      in if 48 \<le> n \<and> n \<le> 57 then n - 48
         else if 65 \<le> n \<and> n \<le> 70 then n - 55
         else if 97 \<le> n \<and> n \<le> 102 then n - 87
         else - 1)"

definition hexmap :: "nat \<Rightarrow> char" where
  "hexmap n = ''0123456789abcdef'' ! n"

text \<open>The bytes are printed from the last to the first, two digits each.\<close>

definition GetHex :: "bytes \<Rightarrow> string" where
  "GetHex h = concat (map (\<lambda>b. [hexmap (unat b div 16), hexmap (unat b mod 16)]) (rev h))"

definition is_space :: "char \<Rightarrow> bool" where
  "is_space c \<longleftrightarrow> (let n = of_char c :: nat in n = 32 \<or> 9 \<le> n \<and> n \<le> 13)"

fun skip_0x :: "string \<Rightarrow> string" where
  "skip_0x (c # d # s) = (if c = CHR ''0'' \<and> (d = CHR ''x'' \<or> d = CHR ''X'') then s else c # d # s)"
| "skip_0x s = s"

text \<open>The digits are consumed from the end; a digit left over at the start is the low half of its byte.\<close>

fun fill_hex :: "char list \<Rightarrow> bytes" where
  "fill_hex (lo # hi # ds) = (word_of_int (HexDigit lo) OR push_bit 4 (word_of_int (HexDigit hi))) # fill_hex ds"
| "fill_hex [lo] = [word_of_int (HexDigit lo)]"
| "fill_hex [] = []"

definition SetHex :: "string \<Rightarrow> bytes" where
  "SetHex str =
     (let psz = skip_0x (dropWhile is_space str);
          data = take 32 (fill_hex (rev (takeWhile (\<lambda>c. HexDigit c \<noteq> - 1) psz)))
      in data @ replicate (32 - length data) 0)"

definition uint256S :: "string \<Rightarrow> bytes" where
  "uint256S str = SetHex str"

text \<open>The text forms of the 256-bit integers go through the blob.\<close>

definition arith_SetHex :: "string \<Rightarrow> base_uint" where
  "arith_SetHex str = UintToArith256 (uint256S str)"

definition arith_GetHex :: "base_uint \<Rightarrow> string" where
  "arith_GetHex a = GetHex (ArithToUint256 a)"

section \<open>Parameters\<close>

datatype DeploymentPos = DEPLOYMENT_TESTDUMMY | DEPLOYMENT_CSV | DEPLOYMENT_SEGWIT

record BIP9Deployment =
  bip9_bit :: int
  nStartTime :: int
  nTimeout :: int

record consensus_params =
  hashGenesisBlock :: bytes
  nSubsidyHalvingInterval :: int
  nMajorityEnforceBlockUpgrade :: int
  nMajorityRejectBlockOutdated :: int
  nMajorityWindow :: int
  BIP34Height :: int
  BIP34Hash :: bytes
  BIP65Height :: int
  BIP66Height :: int
  nRuleChangeActivationThreshold :: nat
  nMinerConfirmationWindow :: nat
  vDeployments :: "DeploymentPos \<Rightarrow> BIP9Deployment"
  nCoinbaseMaturity :: nat
  powLimit :: bytes
  fPowAllowMinDifficultyBlocks :: bool
  fPowNoRetargeting :: bool
  nPowTargetSpacing :: int
  nPowTargetTimespan :: int
  fDigishieldDifficultyCalculation :: bool
  fPowAllowDigishieldMinDifficultyBlocks :: bool
  fSimplifiedRewards :: bool
  nMinimumChainWork :: bytes
  defaultAssumeValid :: bytes
  nAuxpowChainId :: int
  fStrictChainId :: bool
  fAllowLegacyBlocks :: bool
  nHeightEffective :: nat

definition DifficultyAdjustmentInterval :: "consensus_params \<Rightarrow> int" where
  "DifficultyAdjustmentInterval params = nPowTargetTimespan params sdiv nPowTargetSpacing params"

text \<open>The parameters with the links of the search tree.\<close>

datatype params_node = ParamsNode (node_params: consensus_params) (pLeft: "params_node option") (pRight: "params_node option")

fun GetConsensus :: "params_node \<Rightarrow> nat \<Rightarrow> consensus_params" where
  "GetConsensus (ParamsNode this left right) nTargetHeight =
     (case (nTargetHeight < nHeightEffective this, left) of
        (True, Some l) \<Rightarrow> GetConsensus l nTargetHeight
      | _ \<Rightarrow>
          (case (nTargetHeight > nHeightEffective this, right) of
             (True, Some r) \<Rightarrow>
               (let pCandidate = GetConsensus r nTargetHeight
                in if nHeightEffective pCandidate \<le> nTargetHeight then pCandidate else this)
           | _ \<Rightarrow> this))"

section \<open>The main network\<close>

definition main_deployments :: "DeploymentPos \<Rightarrow> BIP9Deployment" where
  "main_deployments d =
     (case d of
        DEPLOYMENT_TESTDUMMY \<Rightarrow> \<lparr>bip9_bit = 28, nStartTime = 1199145601, nTimeout = 1230767999\<rparr>
      | DEPLOYMENT_CSV \<Rightarrow> \<lparr>bip9_bit = 0, nStartTime = 1462060800, nTimeout = 1493596800\<rparr>
      | DEPLOYMENT_SEGWIT \<Rightarrow> \<lparr>bip9_bit = 1, nStartTime = 1479168000, nTimeout = 0\<rparr>)"

definition main_consensus :: consensus_params where
  "main_consensus =
     \<lparr>hashGenesisBlock = uint256S ''0x1a91e3dace36e2be3bf030a65679fe821aa1d6ef92e7c9902eb318182c355691'',
      nSubsidyHalvingInterval = 100000, nMajorityEnforceBlockUpgrade = 1500, nMajorityRejectBlockOutdated = 1900,
      nMajorityWindow = 2000, BIP34Height = 1034383,
      BIP34Hash = uint256S ''0x80d1364201e5df97e696c03bdd24dc885e8617b9de51e453c10a4f629b1e797a'',
      BIP65Height = 3464751, BIP66Height = 1034383,
      nRuleChangeActivationThreshold = 9576, nMinerConfirmationWindow = 10080, vDeployments = main_deployments,
      nCoinbaseMaturity = 30,
      powLimit = uint256S ''0x00000fffffffffffffffffffffffffffffffffffffffffffffffffffffffffff'',
      fPowAllowMinDifficultyBlocks = False, fPowNoRetargeting = False, nPowTargetSpacing = 60, nPowTargetTimespan = 4 * 60 * 60,
      fDigishieldDifficultyCalculation = False, fPowAllowDigishieldMinDifficultyBlocks = False, fSimplifiedRewards = False,
      nMinimumChainWork = uint256S ''0x000000000000000000000000000000000000000000000e993d2aa86cf246a49b'',
      defaultAssumeValid = uint256S ''0xe7d4577405223918491477db725a393bcfc349d8ee63b0a4fde23cbfbfd81dea'',
      nAuxpowChainId = 0x0062, fStrictChainId = True, fAllowLegacyBlocks = True, nHeightEffective = 0\<rparr>"

definition main_digishield :: consensus_params where
  "main_digishield = main_consensus
     \<lparr>nHeightEffective := 145000, fSimplifiedRewards := True, fDigishieldDifficultyCalculation := True,
      nPowTargetTimespan := 60, nCoinbaseMaturity := 240\<rparr>"

definition main_auxpow :: consensus_params where
  "main_auxpow = main_digishield\<lparr>nHeightEffective := 371337, fAllowLegacyBlocks := False\<rparr>"

definition main_root :: params_node where
  "main_root = ParamsNode main_digishield (Some (ParamsNode main_consensus None None)) (Some (ParamsNode main_auxpow None None))"

section \<open>The test network\<close>

definition test_deployments :: "DeploymentPos \<Rightarrow> BIP9Deployment" where
  "test_deployments d =
     (case d of
        DEPLOYMENT_TESTDUMMY \<Rightarrow> \<lparr>bip9_bit = 28, nStartTime = 1199145601, nTimeout = 1230767999\<rparr>
      | DEPLOYMENT_CSV \<Rightarrow> \<lparr>bip9_bit = 0, nStartTime = 1456790400, nTimeout = 1493596800\<rparr>
      | DEPLOYMENT_SEGWIT \<Rightarrow> \<lparr>bip9_bit = 1, nStartTime = 1462060800, nTimeout = 0\<rparr>)"

definition test_genesis :: bytes where
  "test_genesis = uint256S ''0xbb0a78264637406b6360aad926284d544d7049f45189db5664f3c4d07350559e''"

definition test_consensus :: consensus_params where
  "test_consensus =
     \<lparr>hashGenesisBlock = test_genesis,
      nSubsidyHalvingInterval = 100000, nMajorityEnforceBlockUpgrade = 501, nMajorityRejectBlockOutdated = 750,
      nMajorityWindow = 1000, BIP34Height = 708658,
      BIP34Hash = uint256S ''0x21b8b97dcdb94caa67c7f8f6dbf22e61e0cfe0e46e1fff3528b22864659e9b38'',
      BIP65Height = 1854705, BIP66Height = 708658,
      nRuleChangeActivationThreshold = 2880, nMinerConfirmationWindow = 10080, vDeployments = test_deployments,
      nCoinbaseMaturity = 30,
      powLimit = uint256S ''0x00000fffffffffffffffffffffffffffffffffffffffffffffffffffffffffff'',
      fPowAllowMinDifficultyBlocks = True, fPowNoRetargeting = False, nPowTargetSpacing = 60, nPowTargetTimespan = 4 * 60 * 60,
      fDigishieldDifficultyCalculation = False, fPowAllowDigishieldMinDifficultyBlocks = False, fSimplifiedRewards = False,
      nMinimumChainWork = uint256S ''0x00000000000000000000000000000000000000000000000000540f2f62ff9a26'',
      defaultAssumeValid = uint256S ''0x199bea6a442310589cbb50a193a30b097c228bd5a0f21af21e4e53dd57c382d3'',
      nAuxpowChainId = 0x0062, fStrictChainId = False, fAllowLegacyBlocks = True, nHeightEffective = 0\<rparr>"

definition test_digishield :: consensus_params where
  "test_digishield = test_consensus
     \<lparr>nHeightEffective := 145000, nPowTargetTimespan := 60, fDigishieldDifficultyCalculation := True, fSimplifiedRewards := True,
      fPowAllowMinDifficultyBlocks := False, nCoinbaseMaturity := 240\<rparr>"

definition test_min_difficulty :: consensus_params where
  "test_min_difficulty = test_digishield
     \<lparr>nHeightEffective := 157500, fPowAllowDigishieldMinDifficultyBlocks := True, fPowAllowMinDifficultyBlocks := True\<rparr>"

definition test_auxpow :: consensus_params where
  "test_auxpow = test_min_difficulty
     \<lparr>nHeightEffective := 158100, fPowAllowDigishieldMinDifficultyBlocks := True, fAllowLegacyBlocks := False\<rparr>"

definition test_root :: params_node where
  "test_root = ParamsNode test_digishield (Some (ParamsNode test_consensus None None))
     (Some (ParamsNode test_min_difficulty None (Some (ParamsNode test_auxpow None None))))"

section \<open>The regression test network\<close>

definition regtest_deployments :: "DeploymentPos \<Rightarrow> BIP9Deployment" where
  "regtest_deployments d =
     (case d of
        DEPLOYMENT_TESTDUMMY \<Rightarrow> \<lparr>bip9_bit = 28, nStartTime = 0, nTimeout = 999999999999\<rparr>
      | DEPLOYMENT_CSV \<Rightarrow> \<lparr>bip9_bit = 0, nStartTime = 0, nTimeout = 999999999999\<rparr>
      | DEPLOYMENT_SEGWIT \<Rightarrow> \<lparr>bip9_bit = 1, nStartTime = 0, nTimeout = 999999999999\<rparr>)"

definition regtest_consensus :: consensus_params where
  "regtest_consensus =
     \<lparr>hashGenesisBlock = uint256S ''0x3d2160a3b5dc4a9d62e7e66a295f70313ac808440ef7400d6c0772171ce973a5'',
      nSubsidyHalvingInterval = 150, nMajorityEnforceBlockUpgrade = 750, nMajorityRejectBlockOutdated = 950,
      nMajorityWindow = 1000, BIP34Height = 100000000, BIP34Hash = uint256_null, BIP65Height = 1351, BIP66Height = 1251,
      nRuleChangeActivationThreshold = 540, nMinerConfirmationWindow = 720, vDeployments = regtest_deployments,
      nCoinbaseMaturity = 60,
      powLimit = uint256S ''0x7fffffffffffffffffffffffffffffffffffffffffffffffffffffffffffffff'',
      fPowAllowMinDifficultyBlocks = True, fPowNoRetargeting = True, nPowTargetSpacing = 1, nPowTargetTimespan = 4 * 60 * 60,
      fDigishieldDifficultyCalculation = False, fPowAllowDigishieldMinDifficultyBlocks = False, fSimplifiedRewards = True,
      nMinimumChainWork = uint256S ''0x00'', defaultAssumeValid = uint256S ''0x00'',
      nAuxpowChainId = 0x0062, fStrictChainId = True, fAllowLegacyBlocks = True, nHeightEffective = 0\<rparr>"

definition regtest_digishield :: consensus_params where
  "regtest_digishield = regtest_consensus
     \<lparr>nHeightEffective := 10, nPowTargetTimespan := 1, fDigishieldDifficultyCalculation := True\<rparr>"

definition regtest_auxpow :: consensus_params where
  "regtest_auxpow = regtest_digishield\<lparr>fAllowLegacyBlocks := False, nHeightEffective := 20\<rparr>"

text \<open>The tree as a function of the base parameters, which \<open>UpdateBIP9Parameters\<close> changes after construction.\<close>

definition regtest_root :: "consensus_params \<Rightarrow> params_node" where
  "regtest_root consensus =
     ParamsNode regtest_digishield (Some (ParamsNode consensus None None)) (Some (ParamsNode regtest_auxpow None None))"

definition UpdateBIP9Parameters :: "DeploymentPos \<Rightarrow> int \<Rightarrow> int \<Rightarrow> consensus_params \<Rightarrow> consensus_params" where
  "UpdateBIP9Parameters d start timeout consensus =
     consensus\<lparr>vDeployments := (vDeployments consensus)(d := (vDeployments consensus d)\<lparr>nStartTime := start, nTimeout := timeout\<rparr>)\<rparr>"

section \<open>Attested snapshots\<close>

record AssumeutxoData =
  au_height :: int
  au_hash_serialized :: bytes

definition main_assumeutxo :: "int \<rightharpoonup> AssumeutxoData" where
  "main_assumeutxo =
     [6324519 \<mapsto> \<lparr>au_height = 6324519, au_hash_serialized = uint256S ''a2fde0b74a87138560c634382eca7837b559f8750221367514af75cfa3c6762a''\<rparr>,
      6325931 \<mapsto> \<lparr>au_height = 6325931, au_hash_serialized = uint256S ''c90b021eef3465ee89c37d58c39a8167ae286db0b07dee03b3782cf26ccd13ea''\<rparr>]"

definition AssumeutxoForHeight :: "(int \<rightharpoonup> AssumeutxoData) \<Rightarrow> int \<Rightarrow> AssumeutxoData option" where
  "AssumeutxoForHeight mapAssumeutxo height = mapAssumeutxo height"

definition IsAssumeutxoHeight :: "(int \<rightharpoonup> AssumeutxoData) \<Rightarrow> int \<Rightarrow> bool" where
  "IsAssumeutxoHeight mapAssumeutxo height \<longleftrightarrow> mapAssumeutxo height \<noteq> None"

text \<open>The networks by name; an unknown name is the exception.\<close>

definition Params_chain :: "string \<Rightarrow> params_node option" where
  "Params_chain chain =
     (if chain = ''main'' then Some main_root
      else if chain = ''test'' then Some test_root
      else if chain = ''regtest'' then Some (regtest_root regtest_consensus)
      else None)"

section \<open>Facts\<close>

lemma HexDigit_hexmap:
  assumes "n < 16"
  shows "HexDigit (hexmap n) = int n" and "\<not> is_space (hexmap n)" and "hexmap n \<noteq> CHR ''x''" and "hexmap n \<noteq> CHR ''X''"
proof -
  have "n \<in> set [0..<16]" using assms by simp
  then have "n \<in> {0, 1, 2, 3, 4, 5, 6, 7, 8, 9, 10, 11, 12, 13, 14, 15}" by (simp add: upt_rec) auto
  then have "HexDigit (hexmap n) = int n \<and> \<not> is_space (hexmap n) \<and> hexmap n \<noteq> CHR ''x'' \<and> hexmap n \<noteq> CHR ''X''"
    by (auto simp: hexmap_def HexDigit_def is_space_def)
  then show "HexDigit (hexmap n) = int n" and "\<not> is_space (hexmap n)" and "hexmap n \<noteq> CHR ''x''" and "hexmap n \<noteq> CHR ''X''"
    by simp_all
qed

lemma byte_halves: "word_of_nat (unat (b :: u8) mod 16) OR push_bit 4 (word_of_nat (unat b div 16)) = b"
proof -
  have b: "unat b < 256" using unsigned_less [of b, where ?'a = nat] by simp
  have "unat (word_of_nat (unat b mod 16) :: u8) = unat b mod 16" "unat (word_of_nat (unat b div 16) :: u8) = unat b div 16"
    using b by (simp_all add: unsigned_of_nat take_bit_nat_eq_self_iff)
  moreover have "unat (take_bit 4 b) = unat b mod 16" "unat (drop_bit 4 b) = unat b div 16"
    by (simp_all only: unsigned_take_bit_eq unsigned_drop_bit_eq) (simp_all add: take_bit_eq_mod drop_bit_eq_div b)
  ultimately have lo: "word_of_nat (unat b mod 16) = take_bit 4 b" and hi: "word_of_nat (unat b div 16) = drop_bit 4 b"
    by (simp_all only: word_unat_eq_iff)
  show ?thesis unfolding lo hi 
    by (rule bit_word_eqI, rename_tac n, case_tac "n < 4") (auto simp: bit_or_iff bit_take_bit_iff bit_push_bit_iff bit_drop_bit_eq)
qed

lemma fill_hex_GetHex: "fill_hex (rev (GetHex h)) = h"
proof -
  have "fill_hex (concat (map (\<lambda>b. [hexmap (unat b mod 16), hexmap (unat b div 16)]) xs)) = xs" for xs :: bytes
  proof (induction xs)
    case (Cons b xs)
    have "unat b div 16 < 16" using unsigned_less [of b, where ?'a = nat] by simp
    then show ?case using Cons by (simp add: HexDigit_hexmap byte_halves)
  qed simp
  moreover have "rev (GetHex h) = concat (map (\<lambda>b. [hexmap (unat b mod 16), hexmap (unat b div 16)]) h)"
    by (simp add: GetHex_def rev_concat rev_map comp_def)
  ultimately show ?thesis by simp
qed

lemma length_uint256S: "length (uint256S str) = 32"
  by (simp add: uint256S_def SetHex_def Let_def)

lemma uint256_powLimit:
  "bval (uint256S ''0x00000fffffffffffffffffffffffffffffffffffffffffffffffffffffffffff'') = 2 ^ 236 - 1"
  by (simp add: uint256S_def SetHex_def HexDigit_def is_space_def)

lemma uint256_powLimit_regtest:
  "bval (uint256S ''0x7fffffffffffffffffffffffffffffffffffffffffffffffffffffffffffffff'') = 2 ^ 255 - 1"
  by (simp add: uint256S_def SetHex_def HexDigit_def is_space_def)

text \<open>Printing a blob and reading it back.\<close>

lemma GetHex_digits: "set (GetHex h) \<subseteq> hexmap ` {..<16}"
proof
  fix c
  assume "c \<in> set (GetHex h)"
  then obtain b :: u8 where "c = hexmap (unat b div 16) \<or> c = hexmap (unat b mod 16)" by (auto simp: GetHex_def)
  moreover have "unat b div 16 < 16" using unsigned_less [of b, where ?'a = nat] by simp
  ultimately show "c \<in> hexmap ` {..<16}" by auto
qed

lemma hex_roundtrip:
  assumes "length h = 32"
  shows "SetHex (GetHex h) = h"
proof -
  have digit: "\<not> is_space c \<and> HexDigit c \<noteq> - 1 \<and> c \<noteq> CHR ''x'' \<and> c \<noteq> CHR ''X''" if c: "c \<in> set (GetHex h)" for c
  proof -
    obtain n where n: "n < 16" "c = hexmap n" using c GetHex_digits [of h] by blast
    from HexDigit_hexmap [OF n(1)] show ?thesis unfolding n(2) by simp
  qed
  have "dropWhile is_space (GetHex h) = GetHex h" using digit by (cases "GetHex h") auto
  moreover have "skip_0x (GetHex h) = GetHex h" using digit by (cases "GetHex h" rule: skip_0x.cases) auto
  moreover have "takeWhile (\<lambda>c. HexDigit c \<noteq> - 1) (GetHex h) = GetHex h" using digit by (simp add: takeWhile_eq_all_conv)
  ultimately show ?thesis using assms by (simp only: SetHex_def Let_def fill_hex_GetHex) simp
qed

lemma arith_hex_roundtrip: "wf_uint a \<Longrightarrow> arith_SetHex (arith_GetHex a) = a"
  by (simp add: arith_SetHex_def arith_GetHex_def uint256S_def hex_roundtrip length_ArithToUint256 UintToArith256_ArithToUint256)

lemma heights_effective:
  "nHeightEffective main_consensus = 0" "nHeightEffective main_digishield = 145000" "nHeightEffective main_auxpow = 371337"
  "nHeightEffective test_consensus = 0" "nHeightEffective test_digishield = 145000" "nHeightEffective test_min_difficulty = 157500"
  "nHeightEffective test_auxpow = 158100" "nHeightEffective regtest_consensus = 0" "nHeightEffective regtest_digishield = 10"
  "nHeightEffective regtest_auxpow = 20"
  by (simp_all add: main_consensus_def main_digishield_def main_auxpow_def test_consensus_def test_digishield_def test_min_difficulty_def
      test_auxpow_def regtest_consensus_def regtest_digishield_def regtest_auxpow_def)

lemma consensus_main:
  "GetConsensus main_root h = (if h < 145000 then main_consensus else if h < 371337 then main_digishield else main_auxpow)"
  by (simp add: main_root_def heights_effective split: bool.split)

section \<open>Properties\<close>

text \<open>C27: on each network the search tree selects, for every height, the parameter set in force at that height: the last one
  whose first effective height is not above it. Changing the deployment times of the regression test network changes the
  base parameters only: from height ten on the copies made at construction are selected.\<close>

theorem consensus_by_height:
  "GetConsensus main_root h = (if h < 145000 then main_consensus else if h < 371337 then main_digishield else main_auxpow) \<and>
   GetConsensus test_root h =
     (if h < 145000 then test_consensus else if h < 157500 then test_digishield else if h < 158100 then test_min_difficulty else test_auxpow) \<and>
   GetConsensus (regtest_root regtest_consensus) h =
     (if h < 10 then regtest_consensus else if h < 20 then regtest_digishield else regtest_auxpow) \<and>
   GetConsensus (regtest_root (UpdateBIP9Parameters d start timeout regtest_consensus)) h =
     (if h < 10 then UpdateBIP9Parameters d start timeout regtest_consensus else if h < 20 then regtest_digishield else regtest_auxpow)"
proof -
  note consensus_main
  moreover have "GetConsensus test_root h =
     (if h < 145000 then test_consensus else if h < 157500 then test_digishield else if h < 158100 then test_min_difficulty else test_auxpow)"
    by (simp add: test_root_def heights_effective split: bool.split)
  moreover have "GetConsensus (regtest_root c) h = (if h < 10 then c else if h < 20 then regtest_digishield else regtest_auxpow)" for c
    by (simp add: regtest_root_def heights_effective split: bool.split)
  ultimately show ?thesis by blast
qed

end
