(* ===== verification/Pow.thy ===== *)
theory Pow
  imports Chain Params
begin

text \<open>
  \<^verbatim>\<open>src/pow.cpp\<close> and \<^verbatim>\<open>src/dogecoin.cpp\<close>: proof of work, the difficulty adjustments and the block subsidy. Times and time spans
  are 64-bit integers far from overflow. The factor \<open>nModulatedTimespan\<close> selects the 32-bit multiplication of the 256-bit
  integer class, the divisor its 64-bit constructor. A failed assertion or a division by zero is None.
\<close>

section \<open>Checking a hash against a target\<close>

definition CheckProofOfWork :: "bytes \<Rightarrow> u32 \<Rightarrow> consensus_params \<Rightarrow> bool" where
  "CheckProofOfWork hash nbits params =
     (let (bnTarget, fNegative, fOverflow) = SetCompact nbits
      in if fNegative \<or> EqualTo bnTarget 0 \<or> fOverflow \<or> op_gt bnTarget (UintToArith256 (powLimit params)) then False
         else if op_gt (UintToArith256 hash) bnTarget then False
         else True)"

section \<open>Difficulty\<close>

definition AllowMinDifficultyForBlock :: "CBlockIndex \<Rightarrow> 'a CPureBlockHeader_scheme \<Rightarrow> consensus_params \<Rightarrow> bool" where
  "AllowMinDifficultyForBlock pindexLast pblock params =
     (if \<not> fPowAllowMinDifficultyBlocks params then False
      else if nHeight pindexLast < 157500 then False
      else header_GetBlockTime pblock > GetBlockTime pindexLast + nPowTargetSpacing params * 2)"

definition AllowDigishieldMinDifficultyForBlock :: "CBlockIndex \<Rightarrow> 'a CPureBlockHeader_scheme \<Rightarrow> consensus_params \<Rightarrow> bool" where
  "AllowDigishieldMinDifficultyForBlock pindexLast pblock params =
     (if \<not> fPowAllowMinDifficultyBlocks params then False
      else if nHeight pindexLast < 157500 then False
      else header_GetBlockTime pblock > GetBlockTime pindexLast + nPowTargetSpacing params * 2)"

text \<open>The time span after filtering, and its limits.\<close>

definition timespan_limits :: "int \<Rightarrow> consensus_params \<Rightarrow> int \<times> int" where
  "timespan_limits height params =
     (let retargetTimespan = nPowTargetTimespan params
      in if fDigishieldDifficultyCalculation params
         then (retargetTimespan - retargetTimespan sdiv 4, retargetTimespan + retargetTimespan sdiv 2)
         else if height > 10000 then (retargetTimespan sdiv 4, retargetTimespan * 4)
         else if height > 5000 then (retargetTimespan sdiv 8, retargetTimespan * 4)
         else (retargetTimespan sdiv 16, retargetTimespan * 4))"

definition modulated_timespan :: "int \<Rightarrow> int \<Rightarrow> consensus_params \<Rightarrow> int" where
  "modulated_timespan height nActualTimespan params =
     (let retargetTimespan = nPowTargetTimespan params;
          nModulatedTimespan =
            (if fDigishieldDifficultyCalculation params
             then retargetTimespan + (nActualTimespan - retargetTimespan) sdiv 8 else nActualTimespan);
          (nMinTimespan, nMaxTimespan) = timespan_limits height params
      in if nModulatedTimespan < nMinTimespan then nMinTimespan
         else if nModulatedTimespan > nMaxTimespan then nMaxTimespan
         else nModulatedTimespan)"

definition CalculateDogecoinNextWorkRequired :: "CBlockIndex \<Rightarrow> int \<Rightarrow> consensus_params \<Rightarrow> u32 option" where
  "CalculateDogecoinNextWorkRequired pindexLast nFirstBlockTime params =
     (let height = nHeight pindexLast + 1;
          retargetTimespan = nPowTargetTimespan params;
          nActualTimespan = GetBlockTime pindexLast - nFirstBlockTime;
          nModulatedTimespan = modulated_timespan height nActualTimespan params;
          bnPowLimit = UintToArith256 (powLimit params);
          bnNew = fst (SetCompact (bi_nBits pindexLast));
          bnNew = op_mul32 bnNew (word_of_int nModulatedTimespan)
      in do {
        bnNew \<leftarrow> op_div bnNew (base_uint_of_u64 (word_of_int retargetTimespan));
        let bnNew = (if op_gt bnNew bnPowLimit then bnPowLimit else bnNew) in GetCompact bnNew False
      })"

text \<open>The adjustment inherited from Bitcoin, which the Dogecoin rules do not call.\<close>

definition CalculateNextWorkRequired :: "CBlockIndex \<Rightarrow> int \<Rightarrow> consensus_params \<Rightarrow> u32 option" where
  "CalculateNextWorkRequired pindexLast nFirstBlockTime params =
     (if fPowNoRetargeting params then Some (bi_nBits pindexLast)
      else let nActualTimespan = GetBlockTime pindexLast - nFirstBlockTime;
               nActualTimespan = (if nActualTimespan < nPowTargetTimespan params sdiv 4 then nPowTargetTimespan params sdiv 4 else nActualTimespan);
               nActualTimespan = (if nActualTimespan > nPowTargetTimespan params * 4 then nPowTargetTimespan params * 4 else nActualTimespan);
               bnPowLimit = UintToArith256 (powLimit params);
               bnNew = op_mul32 (fst (SetCompact (bi_nBits pindexLast))) (word_of_int nActualTimespan)
           in do {
             bnNew \<leftarrow> op_div bnNew (base_uint_of_u64 (word_of_int (nPowTargetTimespan params)));
             let bnNew = (if op_gt bnNew bnPowLimit then bnPowLimit else bnNew) in GetCompact bnNew False
           })"

text \<open>The search for the last block that did not use the minimum difficulty rule.\<close>

partial_function (option) last_regular :: "index_store \<Rightarrow> consensus_params \<Rightarrow> u32 \<Rightarrow> ptr \<Rightarrow> u32 option" where
  "last_regular st params limit p =
     (case st p of
        None \<Rightarrow> None
      | Some b \<Rightarrow>
          (case pprev b of
             None \<Rightarrow> Some (bi_nBits b)
           | Some q \<Rightarrow>
               if nHeight b smod DifficultyAdjustmentInterval params \<noteq> 0 \<and> bi_nBits b = limit then last_regular st params limit q
               else Some (bi_nBits b)))"

definition GetNextWorkRequired :: "index_store \<Rightarrow> ptr option \<Rightarrow> 'a CPureBlockHeader_scheme \<Rightarrow> consensus_params \<Rightarrow> u32 option" where
  "GetNextWorkRequired st pindexLast pblock params = do {
     nProofOfWorkLimit \<leftarrow> GetCompact (UintToArith256 (powLimit params)) False;
     (case pindexLast of
        None \<Rightarrow> Some nProofOfWorkLimit
      | Some p \<Rightarrow> do {
          tip \<leftarrow> st p;
          if AllowDigishieldMinDifficultyForBlock tip pblock params then Some nProofOfWorkLimit
          else
            let fNewDifficultyProtocol = (nHeight tip \<ge> 145000);
                difficultyAdjustmentInterval = (if fNewDifficultyProtocol then 1 else DifficultyAdjustmentInterval params)
            in if (nHeight tip + 1) smod difficultyAdjustmentInterval \<noteq> 0
               then if fPowAllowMinDifficultyBlocks params
                    then if header_GetBlockTime pblock > GetBlockTime tip + nPowTargetSpacing params * 2
                         then Some nProofOfWorkLimit
                         else last_regular st params nProofOfWorkLimit p
                    else Some (bi_nBits tip)
               else let blockstogoback = (if nHeight tip + 1 \<noteq> difficultyAdjustmentInterval then difficultyAdjustmentInterval
                                          else difficultyAdjustmentInterval - 1);
                        nHeightFirst = nHeight tip - blockstogoback
                    in if nHeightFirst < 0 then None
                       else do {
                         r \<leftarrow> GetAncestor st p nHeightFirst;
                         pindexFirst \<leftarrow> r;
                         first \<leftarrow> st pindexFirst;
                         CalculateDogecoinNextWorkRequired tip (GetBlockTime first) params
                       }
        })
   }"

section \<open>The subsidy\<close>

text \<open>
  The pseudo-random generator belongs to Boost and is a parameter: given a seed and a range, a number of the range.
  The seed is seven hexadecimal digits of the previous block hash.
\<close>

definition strtol16 :: "string \<Rightarrow> int" where
  "strtol16 s = foldl (\<lambda>n c. 16 * n + HexDigit c) 0 (takeWhile (\<lambda>c. HexDigit c \<noteq> - 1) s)"

definition GetDogecoinBlockSubsidy :: "(u32 \<Rightarrow> int \<Rightarrow> int) \<Rightarrow> int \<Rightarrow> consensus_params \<Rightarrow> bytes \<Rightarrow> int" where
  "GetDogecoinBlockSubsidy generateMTRandom height consensusParams prevHash =
     (let halvings = height sdiv nSubsidyHalvingInterval consensusParams
      in if \<not> fSimplifiedRewards consensusParams
         then let cseed = take 7 (drop 7 (GetHex prevHash));
                  seed = strtol16 cseed;
                  maxReward = drop_bit (nat halvings) (1000000 :: int) - 1;
                  rand = generateMTRandom (word_of_int seed) maxReward
              in (1 + rand) * COIN
         else if height < 6 * nSubsidyHalvingInterval consensusParams
         then drop_bit (nat halvings) (500000 * COIN)
         else 10000 * COIN)"

section \<open>Facts\<close>

lemma main_facts:
  assumes "params = GetConsensus main_root h"
  shows "powLimit params = powLimit main_consensus" and "nPowTargetSpacing params = 60" and "\<not> fPowAllowMinDifficultyBlocks params"
    and "nPowTargetTimespan params = (if h < 145000 then 14400 else 60)"
    and "fDigishieldDifficultyCalculation params \<longleftrightarrow> \<not> h < 145000"
    and "fSimplifiedRewards params \<longleftrightarrow> \<not> h < 145000" and "nSubsidyHalvingInterval params = 100000"
proof -
  have p: "params = (if h < 145000 then main_consensus else if h < 371337 then main_digishield else main_auxpow)"
    using consensus_main [of h] assms by simp
  show "powLimit params = powLimit main_consensus" by (simp add: p main_digishield_def main_auxpow_def)
  show "nPowTargetSpacing params = 60" "\<not> fPowAllowMinDifficultyBlocks params"
    "nPowTargetTimespan params = (if h < 145000 then 14400 else 60)"
    "fDigishieldDifficultyCalculation params \<longleftrightarrow> \<not> h < 145000"
    "fSimplifiedRewards params \<longleftrightarrow> \<not> h < 145000" "nSubsidyHalvingInterval params = 100000"
    by (simp_all add: p main_consensus_def main_digishield_def main_auxpow_def)
qed

lemma main_limit: "uval (UintToArith256 (powLimit main_consensus)) = 2 ^ 236 - 1"
proof -
  have "length (powLimit main_consensus) = 32" unfolding main_consensus_def consensus_params.select_convs by (rule length_uint256S)
  then have "uval (UintToArith256 (powLimit main_consensus)) = bval (powLimit main_consensus)" by (rule uval_UintToArith256)
  also have "\<dots> = 2 ^ 236 - 1" unfolding main_consensus_def consensus_params.select_convs by (rule uint256_powLimit)
  finally show ?thesis .
qed

text \<open>A retarget multiplies the target by a factor, divides it, caps it and rounds it to the compact form.\<close>

lemma retarget:
  assumes "SetCompact (bi_nBits b) = (t, neg, ovf)"
    and m: "m = modulated_timespan (nHeight b + 1) (GetBlockTime b - first) params" "0 \<le> m" "m < 2 ^ 32"
    and span: "0 < nPowTargetTimespan params" "nPowTargetTimespan params < 2 ^ 32"
    and fits: "uval t * nat m < 2 ^ 256"
  shows "CalculateDogecoinNextWorkRequired b first params =
    Some (word_of_nat (compact_of (min (uval t * nat m div nat (nPowTargetTimespan params)) (uval (UintToArith256 (powLimit params))))))"
proof -
  let ?span = "nPowTargetTimespan params" and ?limit = "UintToArith256 (powLimit params)"
  have wt: "wf_uint t" using SetCompact_wf [of "bi_nBits b"] assms(1) by simp
  have um: "unat (word_of_int m :: u32) = nat m" using m(2,3) by (simp add: unsigned_of_int take_bit_int_eq_self nat_less_iff)
  have us: "unat (word_of_int ?span :: u64) = nat ?span" using span by (simp add: unsigned_of_int take_bit_int_eq_self)
  let ?n = "op_mul32 t (word_of_int m)"
  have n: "wf_uint ?n" "uval ?n = uval t * nat m" using wt fits by (simp_all add: wf_op_mul32 uval_op_mul32 um)
  have d: "uval (base_uint_of_u64 (word_of_int ?span)) = nat ?span" by (simp add: uval_of_u64 us)
  obtain q where q: "op_div ?n (base_uint_of_u64 (word_of_int ?span)) = Some q" "wf_uint q" "uval q = uval t * nat m div nat ?span"
    using op_div_correct(2) [OF n(1) wf_of_u64, of "word_of_int ?span"] d n(2) span by auto
  let ?r = "if op_gt q ?limit then ?limit else q"
  have r: "wf_uint ?r" "uval ?r = min (uval t * nat m div nat ?span) (uval ?limit)" using q(2,3) by (auto simp: min_def)
  have "CalculateDogecoinNextWorkRequired b first params = GetCompact ?r False"
    unfolding CalculateDogecoinNextWorkRequired_def Let_def assms(1) fst_conv m(1) [symmetric] q(1) Option.bind.bind_lunit ..
  also have "\<dots> = Some (word_of_nat (compact_of (uval ?r)))" by (rule GetCompact_value(1) [OF r(1)])
  finally show ?thesis unfolding r(2) .
qed

text \<open>
  The rules of the main network. Before block 145000 the work is adjusted every 240 blocks, for the time the last 240 blocks took, against
  a goal of four hours and within a factor of four below and of four, eight or sixteen above; from then on at each block, for the time of the last
  block, of whose deviation from a minute only an eighth counts.
\<close>

definition main_look_back :: "int \<Rightarrow> nat" where
  "main_look_back height = (if height < 145000 then if height = 240 then 239 else 240 else 1)"

definition main_goal :: "int \<Rightarrow> nat" where
  "main_goal height = (if height < 145000 then 14400 else 60)"

definition main_span :: "int \<Rightarrow> int \<Rightarrow> int" where
  "main_span height taken =
     (if height < 145000 then max (14400 div (if height > 10000 then 4 else if height > 5000 then 8 else 16)) (min taken 57600)
      else max 45 (min (60 + (taken - 60) sdiv 8) 90))"

lemma main_timespan:
  assumes "params = GetConsensus main_root (nat h)" "0 < h"
  shows "modulated_timespan h a params = main_span h a"
proof -
  note f = main_facts [OF assms(1)]
  have early: "nat h < 145000 \<longleftrightarrow> h < 145000" using assms(2) by (simp add: nat_less_iff)
  with f have "timespan_limits h params =
      (if h < 145000 then if h > 10000 then (3600, 57600) else if h > 5000 then (1800, 57600) else (900, 57600) else (45, 90))"
    by (simp add: timespan_limits_def Let_def sdiv_nonneg)
  then show ?thesis using f(4,5) early by (auto simp: modulated_timespan_def main_span_def Let_def max_def min_def)
qed

lemma main_span_bounds: "0 \<le> main_span h a \<and> main_span h a \<le> 57600"
  unfolding main_span_def by (auto simp: max_def min_def)

lemma first_target:
  obtains t where "SetCompact 0x1e0ffff0 = (t, False, False)" "uval t = 0x0ffff0 * 256 ^ 27"
proof -
  have e: "compact_exponent 0x1e0ffff0 = 30" and w: "compact_word 0x1e0ffff0 = 0x0ffff0"
    by (simp_all add: compact_exponent_def compact_word_def compact_mantissa_def)
  obtain t neg ovf where t: "SetCompact 0x1e0ffff0 = (t, neg, ovf)" by (cases "SetCompact 0x1e0ffff0")
  have "\<not> neg" "\<not> ovf" "uval t = 0x0ffff0 * 256 ^ 27"
    using SetCompact_negative [of "0x1e0ffff0"] SetCompact_overflow [of "0x1e0ffff0"] SetCompact_value [of "0x1e0ffff0"] t e w by simp_all
  then show thesis using that t by simp
qed

lemma bval_replicate: "bval (replicate n 0) = 0"
  by (induction n) simp_all

text \<open>Which block a retarget on the main network looks back to.\<close>

lemma main_retarget_height:
  fixes h :: int
  assumes "0 \<le> h" "interval = (if h \<ge> 145000 then 1 else if h + 1 < 145000 then 240 else 1)" "(h + 1) mod interval = 0"
  shows "0 \<le> h - (if h + 1 \<noteq> interval then interval else interval - 1)"
proof (cases "h + 1 < 145000")
  case True
  then have i: "interval = 240" using assms(2) by simp
  then obtain k where k: "h + 1 = 240 * k" using assms(3) by (auto elim: dvdE)
  then have "k \<noteq> 0" "0 \<le> k" using assms(1) by auto
  then show ?thesis using k i by (cases "k = 1") auto
qed (use assms in auto)

lemma main_next_work:
  assumes "store_ok st" "st p = Some b" and params: "params = GetConsensus main_root (nat (nHeight b + 1))"
    and t: "SetCompact (bi_nBits b) = (t, neg, ovf)" "uval t < 2 ^ 236"
  defines "h \<equiv> nHeight b + 1"
  shows "if h < 145000 \<and> h mod 240 \<noteq> 0 then GetNextWorkRequired st (Some p) blk params = Some (bi_nBits b)
    else \<exists>q first. up st p (main_look_back h) = Some q \<and> st q = Some first \<and>
      GetNextWorkRequired st (Some p) blk params = Some (word_of_nat (compact_of
        (min (uval t * nat (main_span h (GetBlockTime b - GetBlockTime first)) div main_goal h) (2 ^ 236 - 1))))"
proof -
  have b0: "0 \<le> nHeight b" using nonneg_height [OF assms(1,2)] .
  note f = main_facts [OF params [folded h_def]]
  have early: "nat h < 145000 \<longleftrightarrow> h < 145000" using b0 by (simp add: nat_less_iff h_def)
  define interval where "interval = (if nHeight b \<ge> 145000 then 1 else if h < 145000 then 240 else (1::int))"
  have int: "(if 145000 \<le> nHeight b then 1 else DifficultyAdjustmentInterval params) = interval"
    using f(2,4) early by (simp add: DifficultyAdjustmentInterval_def interval_def sdiv_nonneg)
  have pos: "0 < interval" by (simp add: interval_def)
  obtain lim where lim: "GetCompact (UintToArith256 (powLimit params)) False = Some lim"
    using SetCompact_GetCompact [OF wf_UintToArith256] by blast
  have dig: "\<not> AllowDigishieldMinDifficultyForBlock b blk params" using f(3) by (simp add: AllowDigishieldMinDifficultyForBlock_def)
  have smod: "h smod interval = h mod interval" using b0 pos by (simp add: smod_nonneg h_def)
  have cond: "h mod interval \<noteq> 0 \<longleftrightarrow> h < 145000 \<and> h mod 240 \<noteq> 0" by (auto simp: interval_def h_def)
  show ?thesis
  proof (cases "h mod interval = 0")
    case False
    then show ?thesis using lim dig assms(2) int smod f(3) cond by (simp add: GetNextWorkRequired_def Let_def h_def)
  next
    case True
    define low where "low = nHeight b - (if h \<noteq> interval then interval else interval - 1)"
    have low: "0 \<le> low" "low \<le> nHeight b"
      using main_retarget_height [OF b0 interval_def [unfolded h_def]] True pos by (simp_all add: low_def h_def)
    have steps: "nat (nHeight b - low) = main_look_back h"
      using b0 low(1) by (auto simp: low_def interval_def main_look_back_def h_def split: if_splits)
    obtain q first where q: "up st p (main_look_back h) = Some q" "GetAncestor st p low = Some (Some q)" "st q = Some first"
      using GetAncestor_up [OF assms(1) map_le_refl assms(2), of low] up_height [OF assms(1,2), of "nat (nHeight b - low)"] low
      by (auto simp: steps [symmetric])
    define m where "m = modulated_timespan (nHeight b + 1) (GetBlockTime b - GetBlockTime first) params"
    have m: "m = main_span h (GetBlockTime b - GetBlockTime first)"
      using main_timespan [OF params] b0 by (simp add: m_def h_def)
    then have m': "0 \<le> m" "m < 2 ^ 16" "m < 2 ^ 32" using main_span_bounds [of h "GetBlockTime b - GetBlockTime first"] by auto
    have "uval t * nat m < 2 ^ 236 * 2 ^ 16" using t(2) m' by (intro mult_strict_mono') (simp_all add: nat_less_iff)
    then have fits: "uval t * nat m < 2 ^ 256" by simp
    have span: "0 < nPowTargetTimespan params" "nPowTargetTimespan params < 2 ^ 32" by (simp_all add: f(4))
    have goal: "nat (nPowTargetTimespan params) = main_goal h" using f(4) early by (simp add: main_goal_def)
    have "GetNextWorkRequired st (Some p) blk params = CalculateDogecoinNextWorkRequired b (GetBlockTime first) params"
      using lim dig assms(2) int smod True low(1) q
      by (cases "h = interval") (simp_all add: GetNextWorkRequired_def Let_def low_def h_def)
    then show ?thesis using q(1,3) cond True retarget [OF t(1) m_def m'(1,3) span fits] unfolding f(1) main_limit goal m by auto
  qed
qed

section \<open>Properties\<close>

text \<open>C20: a hash passes the proof-of-work check exactly when the compact target decodes to a positive number without sign or
  overflow, the target is not above the limit of the network, and the hash read as a number is not above the target.\<close>

theorem proof_of_work_check:
  assumes "length hash = 32" "length (powLimit params) = 32"
  shows "CheckProofOfWork hash c params \<longleftrightarrow>
    (\<exists>t. SetCompact c = (t, False, False) \<and> 0 < uval t \<and> uval t \<le> bval (powLimit params) \<and> bval hash \<le> uval t)"
proof -
  obtain t neg ovf where t: "SetCompact c = (t, neg, ovf)" by (cases "SetCompact c")
  have wf: "wf_uint t" using SetCompact_wf [of c] t by simp
  have "uval (UintToArith256 hash) = bval hash" "uval (UintToArith256 (powLimit params)) = bval (powLimit params)"
    using assms by (simp_all add: uval_UintToArith256)
  then show ?thesis using wf by (auto simp: CheckProofOfWork_def t EqualTo_0 not_less)
qed

theorem proof_of_work_check_witness:
  "length uint256_null = 32 \<and> length (powLimit main_consensus) = 32 \<and> CheckProofOfWork uint256_null 0x1e0ffff0 main_consensus"
proof -
  have len: "length uint256_null = 32" "length (powLimit main_consensus) = 32"
    by (simp add: uint256_null_def) (unfold main_consensus_def consensus_params.select_convs, rule length_uint256S)
  have pl: "bval (powLimit main_consensus) = 2 ^ 236 - 1" unfolding main_consensus_def consensus_params.select_convs by (rule uint256_powLimit)
  have z: "bval uint256_null = 0" unfolding uint256_null_def by (rule bval_replicate)
  obtain t where t: "SetCompact 0x1e0ffff0 = (t, False, False)" "uval t = 0x0ffff0 * 256 ^ 27" by (rule first_target)
  have "\<exists>t. SetCompact 0x1e0ffff0 = (t, False, False) \<and> 0 < uval t \<and> uval t \<le> bval (powLimit main_consensus) \<and> bval uint256_null \<le> uval t"
    using t pl z by simp
  then show ?thesis using proof_of_work_check [OF len, of "0x1e0ffff0"] len by blast
qed

text \<open>C19: on the main network the required work after any block of a reachable index whose target is below 2 to the 236, the limit of the
  network, is computed without a failed assertion or an overflow. Before block 145000 and away from the multiples of 240 it is that of the block.
  Otherwise it is the compact form of the block's target scaled by the time since the block 240 back (239 at block 240, one from block
  145000 on), filtered and kept within the limits of \<open>main_span\<close>, over the goal of four hours or one minute, and capped at the limit.\<close>

theorem main_next_work_required:
  assumes "reachable_index s" "objects s p = Some b" "params = GetConsensus main_root (nat (nHeight b + 1))"
    and "SetCompact (bi_nBits b) = (t, neg, ovf)" "uval t < 2 ^ 236" "h = nHeight b + 1"
  shows "if h < 145000 \<and> h mod 240 \<noteq> 0 then GetNextWorkRequired (objects s) (Some p) blk params = Some (bi_nBits b)
    else \<exists>q first. up (objects s) p (main_look_back h) = Some q \<and> objects s q = Some first \<and>
      GetNextWorkRequired (objects s) (Some p) blk params = Some (word_of_nat (compact_of
        (min (uval t * nat (main_span h (GetBlockTime b - GetBlockTime first)) div main_goal h) (2 ^ 236 - 1))))"
  unfolding assms(6) by (rule main_next_work [OF conjunct1 [OF reachable_store [OF assms(1)]] assms(2-5)])

theorem main_next_work_required_witness:
  "\<exists>s p b t. reachable_index s \<and> objects s p = Some b \<and> SetCompact (bi_nBits b) = (t, False, False) \<and> uval t < 2 ^ 236 \<and>
     GetNextWorkRequired (objects s) (Some p) root_header (GetConsensus main_root (nat (nHeight b + 1))) = Some (bi_nBits b)"
proof -
  obtain s p b where s: "reachable_index s" "objects s p = Some b" "nHeight b = 0" "bi_nBits b = 0x1e0ffff0" by (rule root_index_bits)
  obtain t where t: "SetCompact 0x1e0ffff0 = (t, False, False)" "uval t = 0x0ffff0 * 256 ^ 27" by (rule first_target)
  have less: "uval t < 2 ^ 236" using t(2) by simp
  have "GetNextWorkRequired (objects s) (Some p) root_header (GetConsensus main_root (nat (nHeight b + 1))) = Some (bi_nBits b)"
    using main_next_work_required [OF s(1,2) refl, of t False False _ root_header] t(1) less s(3,4) by simp
  then show ?thesis using s t(1) less by metis
qed

text \<open>C21: the block subsidy on the main network stays in the money range at every height. From block 145000 it is 500000 coins
  halved every 100000 blocks, and 10000 coins from block 600000 on. Before, it is a number of coins from 2 to 1000000 in the
  first 100000 blocks and to 500000 in the next ones, if the random generator returns numbers of the range it is given.\<close>

theorem main_subsidy:
  assumes "0 \<le> h" "params = GetConsensus main_root (nat h)"
    and range: "\<And>seed range. 1 \<le> range \<Longrightarrow> 1 \<le> gen seed range \<and> gen seed range \<le> range"
  shows "MoneyRange (GetDogecoinBlockSubsidy gen h params prev) \<and>
    (if 600000 \<le> h then GetDogecoinBlockSubsidy gen h params prev = 10000 * COIN
     else if 145000 \<le> h then GetDogecoinBlockSubsidy gen h params prev = 500000 * COIN div 2 ^ nat (h div 100000)
     else 2 * COIN \<le> GetDogecoinBlockSubsidy gen h params prev \<and>
       GetDogecoinBlockSubsidy gen h params prev \<le> (if h < 100000 then 1000000 else 500000) * COIN)"
proof -
  note f = main_facts [OF assms(2)]
  have early: "nat h < 145000 \<longleftrightarrow> h < 145000" using assms(1) by (simp add: nat_less_iff)
  have halv: "h sdiv 100000 = h div 100000" using assms(1) by (simp add: sdiv_nonneg)
  consider "600000 \<le> h" | "145000 \<le> h" "h < 600000" | "100000 \<le> h" "h < 145000" | "h < 100000" by linarith
  then show ?thesis
  proof cases
    case 1
    then show ?thesis using f early by (simp add: GetDogecoinBlockSubsidy_def MoneyRange_def MAX_MONEY_def COIN_def)
  next
    case 2
    define k where "k = nat (h div 100000)"
    have v: "GetDogecoinBlockSubsidy gen h params prev = 500000 * COIN div 2 ^ k"
      using 2 f early halv by (simp add: GetDogecoinBlockSubsidy_def Let_def drop_bit_eq_div k_def)
    have "0 \<le> 500000 * COIN div 2 ^ k" "500000 * COIN div 2 ^ k \<le> 500000 * COIN"
      using zdiv_mono2 [of "500000 * COIN" 1 "2 ^ k"] by (simp_all add: COIN_def pos_imp_zdiv_nonneg_iff)
    then show ?thesis using 2 v by (simp add: MoneyRange_def MAX_MONEY_def COIN_def k_def)
  next
    case 3
    then have "h div 100000 = 1" by linarith
    then have "\<exists>r. GetDogecoinBlockSubsidy gen h params prev = (1 + r) * COIN \<and> 1 \<le> r \<and> r \<le> 499999"
      using 3 f early halv range [of 499999] by (auto simp: GetDogecoinBlockSubsidy_def Let_def drop_bit_eq_div)
    then show ?thesis using 3 by (auto simp: MoneyRange_def MAX_MONEY_def COIN_def)
  next
    case 4
    then have "h div 100000 = 0" using assms(1) by simp
    then have "\<exists>r. GetDogecoinBlockSubsidy gen h params prev = (1 + r) * COIN \<and> 1 \<le> r \<and> r \<le> 999999"
      using 4 f early halv range [of 999999] by (auto simp: GetDogecoinBlockSubsidy_def Let_def drop_bit_eq_div)
    then show ?thesis using 4 by (auto simp: MoneyRange_def MAX_MONEY_def COIN_def)
  qed
qed

theorem main_subsidy_witness:
  "GetDogecoinBlockSubsidy (\<lambda>_ r. r) 0 (GetConsensus main_root (nat 0)) uint256_null \<le> 1000000 * COIN \<and>
   GetDogecoinBlockSubsidy (\<lambda>_ r. r) 6000000 (GetConsensus main_root (nat 6000000)) uint256_null = 10000 * COIN"
  using main_subsidy [OF _ refl, of 0 "\<lambda>_ r. r" uint256_null] main_subsidy [OF _ refl, of 6000000 "\<lambda>_ r. r" uint256_null] by simp

end
