(* ===== verification/AuxPow.thy ===== *)
theory AuxPow
  imports Pow PartialMerkle Script "HOL-Library.Sublist"
begin

text \<open>
  \<^verbatim>\<open>src/auxpow.h\<close>, \<^verbatim>\<open>src/auxpow.cpp\<close>, \<^verbatim>\<open>src/primitives/block.h\<close> and the check of merge-mined blocks in \<^verbatim>\<open>src/dogecoin.cpp\<close>:
  a block may carry, in place of work of its own, the header of a block of another chain whose coinbase commits to it. The
  commitment is the root of a tree of merge-mined blocks, found in the script of the coinbase, with the size of the tree and a
  nonce behind it that fix the leaf at which our chain must be. Failed assertions and dereferenced null pointers are None.
\<close>

section \<open>Data\<close>

record CMerkleTx =
  tx_ref :: CTransaction
  hashBlock :: bytes
  vMerkleBranch :: "bytes list"
  nIndex :: int

record CAuxPow = CMerkleTx +
  vChainMerkleBranch :: "bytes list"
  nChainIndex :: int
  parentBlock :: CPureBlockHeader

record CBlockHeader = CPureBlockHeader +
  auxpow :: "CAuxPow option"

record CBlock = CBlockHeader +
  vtx :: "CTransaction list"
  fChecked :: bool

definition CMerkleTx_Init :: "'a CMerkleTx_scheme \<Rightarrow> 'a CMerkleTx_scheme" where
  "CMerkleTx_Init m = m\<lparr>hashBlock := uint256_null, nIndex := -1\<rparr>"

text \<open>The constructor leaves the chain index as it finds it in memory.\<close>

definition CAuxPow_new :: "int \<Rightarrow> CTransaction \<Rightarrow> CAuxPow" where
  "CAuxPow_new uninitialised t =
     CMerkleTx_Init \<lparr>tx_ref = t, hashBlock = uint256_null, vMerkleBranch = [], nIndex = 0,
       vChainMerkleBranch = [], nChainIndex = uninitialised, parentBlock = CPureBlockHeader_null\<rparr>"

definition SetAuxpow :: "'a CBlockHeader_scheme \<Rightarrow> CAuxPow option \<Rightarrow> 'a CBlockHeader_scheme" where
  "SetAuxpow h apow =
     (case apow of
        Some a \<Rightarrow> SetAuxpowFlag (h\<lparr>auxpow := Some a\<rparr>) True
      | None \<Rightarrow> SetAuxpowFlag (h\<lparr>auxpow := None\<rparr>) False)"

definition GetBlockHeader :: "'a CBlock_scheme \<Rightarrow> CBlockHeader" where
  "GetBlockHeader b =
     \<lparr>nVersion = nVersion b, hashPrevBlock = hashPrevBlock b, hashMerkleRoot = hashMerkleRoot b, nTime = nTime b, nBits = nBits b,
      nNonce = nNonce b, auxpow = auxpow b\<rparr>"

definition CBlock_null :: CBlock where
  "CBlock_null =
     CPureBlockHeader.extend CPureBlockHeader_null \<lparr>auxpow = None, vtx = [], fChecked = False\<rparr>"

section \<open>Wire format\<close>

text \<open>The version of the stream selects whether witnesses are written.\<close>

definition ser_CMerkleTx :: "int \<Rightarrow> 'a CMerkleTx_scheme \<Rightarrow> bytes" where
  "ser_CMerkleTx version m =
     SerializeTransaction version (tx_ref m) @ ser_uint256 (hashBlock m) @ ser_vector ser_uint256 (vMerkleBranch m) @ ser_int32 (nIndex m)"

definition ser_CAuxPow :: "int \<Rightarrow> CAuxPow \<Rightarrow> bytes" where
  "ser_CAuxPow version a =
     ser_CMerkleTx version a @ ser_vector ser_uint256 (vChainMerkleBranch a) @ ser_int32 (nChainIndex a) @ ser_header (parentBlock a)"

definition unser_CAuxPow :: "int \<Rightarrow> CAuxPow reader" where
  "unser_CAuxPow version =
     then_read (UnserializeTransaction version) (\<lambda>t. then_read unser_uint256 (\<lambda>h.
     then_read (unser_vector unser_uint256) (\<lambda>b. then_read unser_int32 (\<lambda>i.
     then_read (unser_vector unser_uint256) (\<lambda>c. then_read unser_int32 (\<lambda>ci. then_read unser_header (\<lambda>p.
       return_read \<lparr>tx_ref = t, hashBlock = h, vMerkleBranch = b, nIndex = i, vChainMerkleBranch = c, nChainIndex = ci, parentBlock = p\<rparr>)))))))"

definition ser_CBlockHeader :: "int \<Rightarrow> 'a CBlockHeader_scheme \<Rightarrow> bytes option" where
  "ser_CBlockHeader version h =
     (if IsAuxpow h then (case auxpow h of None \<Rightarrow> None | Some a \<Rightarrow> Some (ser_header h @ ser_CAuxPow version a))
      else Some (ser_header h))"

definition unser_CBlockHeader :: "int \<Rightarrow> CBlockHeader reader" where
  "unser_CBlockHeader version =
     then_read unser_header (\<lambda>h.
       if IsAuxpow h then then_read (unser_CAuxPow version) (\<lambda>a. return_read (CPureBlockHeader.extend h \<lparr>auxpow = Some a\<rparr>))
       else return_read (CPureBlockHeader.extend h \<lparr>auxpow = None\<rparr>))"

section \<open>Merkle branches of transactions\<close>

abbreviation (input) ABANDON_HASH :: bytes where
  "ABANDON_HASH \<equiv> uint256S ''0000000000000000000000000000000000000000000000000000000000000001''"

definition hashUnset :: "'a CMerkleTx_scheme \<Rightarrow> bool" where
  "hashUnset m \<longleftrightarrow> uint256_IsNull (hashBlock m) \<or> hashBlock m = ABANDON_HASH"

definition isAbandoned :: "'a CMerkleTx_scheme \<Rightarrow> bool" where
  "isAbandoned m \<longleftrightarrow> hashBlock m = ABANDON_HASH"

definition setAbandoned :: "'a CMerkleTx_scheme \<Rightarrow> 'a CMerkleTx_scheme" where
  "setAbandoned m = m\<lparr>hashBlock := ABANDON_HASH\<rparr>"

definition SetMerkleBranch :: "index_store \<Rightarrow> 'a CMerkleTx_scheme \<Rightarrow> ptr \<Rightarrow> int \<Rightarrow> 'a CMerkleTx_scheme option" where
  "SetMerkleBranch st m pindex posInBlock = do {
     b \<leftarrow> st pindex;
     h \<leftarrow> phashBlock b;
     Some (m\<lparr>hashBlock := h, nIndex := posInBlock\<rparr>)
   }"

definition InitMerkleBranch :: "'a CMerkleTx_scheme \<Rightarrow> 'b CBlock_scheme \<Rightarrow> int \<Rightarrow> 'a CMerkleTx_scheme option" where
  "InitMerkleBranch m block posInBlock = do {
     branch \<leftarrow> BlockMerkleBranch (vtx block) (unat (word_of_int posInBlock :: u32));
     Some (m\<lparr>hashBlock := header_GetHash block, nIndex := posInBlock, vMerkleBranch := branch\<rparr>)
   }"

text \<open>The result and the entry that is assigned to \<open>pindexRet\<close>, if any.\<close>

definition GetDepthInMainChain :: "index_state \<Rightarrow> vChain \<Rightarrow> 'a CMerkleTx_scheme \<Rightarrow> (int \<times> ptr option) option" where
  "GetDepthInMainChain s chainActive m =
     (if hashUnset m then Some (0, None)
      else case mapBlockIndex s (hashBlock m) of
        None \<Rightarrow> Some (0, None)
      | Some p \<Rightarrow> do {
          b \<leftarrow> objects s p;
          c \<leftarrow> Contains (objects s) chainActive p;
          Some (if \<not> c then (0, None)
                else ((if nIndex m = -1 then -1 else 1) * (Height chainActive - nHeight b + 1), Some p))
        })"

definition GetBlocksToMaturity :: "params_node \<Rightarrow> index_state \<Rightarrow> vChain \<Rightarrow> 'a CMerkleTx_scheme \<Rightarrow> int option" where
  "GetBlocksToMaturity pConsensusRoot s chainActive m =
     (if \<not> IsCoinBase (tx_ref m) then Some 0
      else do {
        (depth, _) \<leftarrow> GetDepthInMainChain s chainActive m;
        Some (max 0 (wrap32 (int (nCoinbaseMaturity (GetConsensus pConsensusRoot (unat (word_of_int (Height chainActive) ::u32))))) + 1 - depth))
      })"

section \<open>The check of merge-mined blocks\<close>

definition pchMergedMiningHeader :: bytes where
  "pchMergedMiningHeader = [0xfa, 0xbe, 0x6d, 0x6d]"

text \<open>\<open>std::search\<close>: the position of the first occurrence, the length of the sequence when there is none.\<close>

fun search :: "bytes \<Rightarrow> bytes \<Rightarrow> nat" where
  "search xs pat =
     (if take (length pat) xs = pat then 0
      else case xs of [] \<Rightarrow> 0 | x # xs \<Rightarrow> Suc (search xs pat))"

declare search.simps [simp del]

primrec fold_branch :: "bytes list \<Rightarrow> bytes \<Rightarrow> int \<Rightarrow> bytes" where
  "fold_branch [] hash i = hash"
| "fold_branch (b # bs) hash i =
     fold_branch bs (if i AND 1 \<noteq> 0 then Hash2 b hash else Hash2 hash b) (drop_bit 1 i)"

definition CheckMerkleBranch :: "bytes \<Rightarrow> bytes list \<Rightarrow> int \<Rightarrow> bytes" where
  "CheckMerkleBranch hash branch i = (if i = -1 then uint256_null else fold_branch branch hash i)"

definition getExpectedIndex :: "u32 \<Rightarrow> int \<Rightarrow> nat \<Rightarrow> int" where
  "getExpectedIndex nonce nChainId h =
     (let rand = nonce;
          rand = rand * 1103515245 + 12345;
          rand = rand + word_of_int nChainId;
          rand = rand * 1103515245 + 12345
      in sint (rand mod push_bit h 1))"

datatype auxpow_error =
    NotGenerate | ParentHasOurChainId | ChainBranchTooLong | MerkleRootIncorrect | NoInputs | MissingChainMerkleRoot
  | MultipleHeaders | HeaderNotJustBefore | RootNotEarly | MissingSizeAndNonce | SizeMismatch | WrongIndex

text \<open>The position checks on the script of the coinbase: the merged mining header, if present, occurs once and directly before
  the root.\<close>

definition check_root_place :: "bytes \<Rightarrow> nat \<Rightarrow> auxpow_error option" where
  "check_root_place script pc =
     (let pcHead = search script pchMergedMiningHeader
      in if pcHead \<noteq> length script
         then (if pcHead + 1 + search (drop (pcHead + 1) script) pchMergedMiningHeader \<noteq> length script then Some MultipleHeaders
               else if pcHead + length pchMergedMiningHeader \<noteq> pc then Some HeaderNotJustBefore
               else None)
         else if pc > 20 then Some RootNotEarly else None)"

definition check_size_nonce :: "bytes \<Rightarrow> nat \<Rightarrow> nat \<Rightarrow> int \<Rightarrow> int \<Rightarrow> auxpow_error option" where
  "check_size_nonce script pc merkleHeight chainIndex nChainId =
     (if length script - pc < 8 then Some MissingSizeAndNonce
      else if ReadLE32 (take 4 (drop pc script)) \<noteq> push_bit merkleHeight 1 then Some SizeMismatch
      else if chainIndex \<noteq> getExpectedIndex (ReadLE32 (take 4 (drop (pc + 4) script))) nChainId merkleHeight then Some WrongIndex
      else None)"

definition check_error :: "CAuxPow \<Rightarrow> bytes \<Rightarrow> int \<Rightarrow> consensus_params \<Rightarrow> auxpow_error option" where
  "check_error a hashAuxBlock nChainId params =
     (if nIndex a \<noteq> 0 then Some NotGenerate
      else if fStrictChainId params \<and> GetChainId (parentBlock a) = nChainId then Some ParentHasOurChainId
      else if length (vChainMerkleBranch a) > 30 then Some ChainBranchTooLong
      else let vchRootHash = rev (CheckMerkleBranch hashAuxBlock (vChainMerkleBranch a) (nChainIndex a))
      in if CheckMerkleBranch (tx_GetHash (tx_ref a)) (vMerkleBranch a) (nIndex a) \<noteq> hashMerkleRoot (parentBlock a)
         then Some MerkleRootIncorrect
      else case vin (tx_ref a) of [] \<Rightarrow> Some NoInputs
      | i # _ \<Rightarrow>
          let script = scriptSig i; pc = search script vchRootHash
          in if pc = length script then Some MissingChainMerkleRoot
             else case check_root_place script pc of Some e \<Rightarrow> Some e
             | None \<Rightarrow>
                 check_size_nonce script (pc + length vchRootHash) (length (vChainMerkleBranch a)) (nChainIndex a) nChainId)"

definition check :: "CAuxPow \<Rightarrow> bytes \<Rightarrow> int \<Rightarrow> consensus_params \<Rightarrow> bool" where
  "check a hashAuxBlock nChainId params \<longleftrightarrow> check_error a hashAuxBlock nChainId params = None"

definition CheckAuxPowProofOfWork :: "'a CBlockHeader_scheme \<Rightarrow> consensus_params \<Rightarrow> bool" where
  "CheckAuxPowProofOfWork block params =
     (if \<not> IsLegacy block \<and> fStrictChainId params \<and> GetChainId block \<noteq> nAuxpowChainId params then False
      else case auxpow block of
        None \<Rightarrow> if IsAuxpow block then False else CheckProofOfWork (GetPoWHash block) (nBits block) params
      | Some a \<Rightarrow>
          if \<not> IsAuxpow block then False
          else if \<not> CheckProofOfWork (GetPoWHash (parentBlock a)) (nBits block) params then False
          else check a (header_GetHash block) (GetChainId block) params)"

section \<open>A minimal merge-mined block\<close>

definition aux_coinbase :: "bytes \<Rightarrow> CTransaction" where
  "aux_coinbase blockHash =
     (let inputData = rev blockHash @ [1] @ replicate 7 0
      in \<lparr>tx_nVersion = 1,
          vin = [\<lparr>prevout = COutPoint_null, scriptSig = push_data [] inputData, nSequence = SEQUENCE_FINAL, scriptWitness = []\<rparr>],
          vout = [], nLockTime = 0\<rparr>)"

definition initAuxPow :: "int \<Rightarrow> 'a CBlockHeader_scheme \<Rightarrow> 'a CBlockHeader_scheme option" where
  "initAuxPow uninitialised h =
     (let h = SetAuxpowFlag h True; coinbase = aux_coinbase (header_GetHash h)
      in do {
        (r, _) \<leftarrow> BlockMerkleRoot [coinbase];
        let parent = CPureBlockHeader_null\<lparr>nVersion := 1, hashMerkleRoot := r\<rparr>;
        let a = CAuxPow_new uninitialised coinbase;
        if vChainMerkleBranch a \<noteq> [] \<or> vMerkleBranch a \<noteq> [] then None
        else Some (SetAuxpow h (Some (a\<lparr>nChainIndex := 0, nIndex := 0, parentBlock := parent\<rparr>)))
      })"

section \<open>Reading back\<close>

definition ok_CAuxPow :: "CAuxPow \<Rightarrow> bool" where
  "ok_CAuxPow a \<longleftrightarrow>
     ok_tx (tx_ref a) \<and> vin (tx_ref a) \<noteq> [] \<and> length (hashBlock a) = 32 \<and>
     list_all (\<lambda>h. length h = 32) (vMerkleBranch a) \<and> length (vMerkleBranch a) \<le> 33554432 \<and> - (2 ^ 31) \<le> nIndex a \<and> nIndex a < 2 ^ 31 \<and>
     list_all (\<lambda>h. length h = 32) (vChainMerkleBranch a) \<and> length (vChainMerkleBranch a) \<le> 33554432 \<and>
     - (2 ^ 31) \<le> nChainIndex a \<and> nChainIndex a < 2 ^ 31 \<and> ok_header (parentBlock a)"

lemma unser_ser_CAuxPow:
  assumes "ok_CAuxPow a" "version AND SERIALIZE_TRANSACTION_NO_WITNESS = 0"
  shows "unser_CAuxPow version (ser_CAuxPow version a @ s) = Inr (a, s)"
  using assms parse_with_witness [of "tx_ref a" version]
  by (simp add: ok_CAuxPow_def unser_CAuxPow_def ser_CAuxPow_def ser_CMerkleTx_def then_read_def return_read_def wire_uint256.parse_print
      wire_hashes.parse_print wire_int32.parse_print wire_header.parse_print)

text \<open>A header reads back with its auxiliary work exactly if the flag of its version tells whether there is any.\<close>

lemma unser_ser_CBlockHeader:
  assumes "ok_header h" "\<And>a. auxpow h = Some a \<Longrightarrow> ok_CAuxPow a" "IsAuxpow h \<longleftrightarrow> auxpow h \<noteq> None"
    and v: "version AND SERIALIZE_TRANSACTION_NO_WITNESS = 0"
  shows "\<exists>b. ser_CBlockHeader version h = Some b \<and> unser_CBlockHeader version (b @ s) = Inr (h :: CBlockHeader, s)"
proof -
  let ?p = "CPureBlockHeader.truncate h"
  have p: "ser_header h = ser_header ?p" "ok_header ?p" "IsAuxpow ?p = IsAuxpow h" "CPureBlockHeader.extend ?p \<lparr>auxpow = auxpow h\<rparr> = h"
    using assms(1) by (simp_all add: ser_header_def ok_header_def IsAuxpow_def CPureBlockHeader.defs)
  show ?thesis
  proof (cases "auxpow h")
    case None
    then show ?thesis using assms(3) p wire_header.parse_print [OF p(2)]
      by (simp add: ser_CBlockHeader_def unser_CBlockHeader_def then_read_def return_read_def)
  next
    case (Some a)
    then show ?thesis using assms(2,3) p wire_header.parse_print [OF p(2)] unser_ser_CAuxPow [OF assms(2) v]
      by (simp add: ser_CBlockHeader_def unser_CBlockHeader_def then_read_def return_read_def)
  qed
qed

section \<open>Searching\<close>

lemma prefix_take: "prefix pat xs \<longleftrightarrow> take (length pat) xs = pat"
  by (metis append_eq_conv_conj prefixE take_is_prefix)

lemma search_le: "search xs pat \<le> length xs"
  by (induction xs) (subst search.simps, simp)+

lemma search_absent: "pat \<noteq> [] \<Longrightarrow> search xs pat = length xs \<longleftrightarrow> \<not> sublist pat xs"
proof (induction xs)
  case (Cons x xs)
  then show ?case by (subst search.simps) (auto simp: sublist_Cons_right prefix_take)
qed (simp add: search.simps)

lemma search_at: "search xs pat \<noteq> length xs \<Longrightarrow> take (length pat) (drop (search xs pat) xs) = pat"
proof (induction xs)
  case (Cons x xs)
  then show ?case using search.simps [of "x # xs" pat] by auto
qed (cases "pat = []"; simp add: search.simps)

lemma search_here: "take (length pat) xs = pat \<Longrightarrow> search xs pat = 0"
  by (simp add: search.simps)

lemma search_next: "take (length pat) (x # xs) \<noteq> pat \<Longrightarrow> search (x # xs) pat = Suc (search xs pat)"
  by (simp add: search.simps)

lemma shifted_copy: "take (length xs) (x # xs @ t) = xs \<longleftrightarrow> xs = replicate (length xs) x"
  by (induction xs arbitrary: x) auto

section \<open>Branches and indexes\<close>

primrec branch_pairs :: "bytes list \<Rightarrow> bytes \<Rightarrow> int \<Rightarrow> (bytes \<times> bytes) set" where
  "branch_pairs [] hash i = {}"
| "branch_pairs (b # bs) hash i =
     (let pr = if i AND 1 \<noteq> 0 then (b, hash) else (hash, b)
      in insert pr (branch_pairs bs (case_prod Hash2 pr) (drop_bit 1 i)))"

lemma fold_branch_inject:
  assumes "inj_on (\<lambda>(a, b). Hash2 a b) (branch_pairs bs h i \<union> branch_pairs cs g i)" "length bs = length cs"
    and "fold_branch bs h i = fold_branch cs g i"
  shows "h = g \<and> bs = cs"
  using assms
proof (induction bs arbitrary: cs h g i)
  case (Cons b bs)
  then obtain c cs' where cs: "cs = c # cs'" by (cases cs) simp_all
  let ?p = "if i AND 1 \<noteq> 0 then (b, h) else (h, b)" and ?q = "if i AND 1 \<noteq> 0 then (c, g) else (g, c)"
  have inj: "inj_on (\<lambda>(a, b). Hash2 a b)
      (insert ?p (branch_pairs bs (case_prod Hash2 ?p) (drop_bit 1 i)) \<union> insert ?q (branch_pairs cs' (case_prod Hash2 ?q) (drop_bit 1 i)))"
    using Cons.prems(1) by (simp add: cs Let_def)
  have "case_prod Hash2 ?p = case_prod Hash2 ?q \<and> bs = cs'"
    using Cons.prems(2,3) by (intro Cons.IH [OF inj_on_subset [OF inj]]) (auto simp: cs split: if_splits)
  moreover from this have "?p = ?q" using inj_onD [OF inj, of ?p ?q] by simp
  ultimately show ?case by (simp add: cs split: if_splits)
qed simp

lemma length_fold_branch: "length h = 32 \<Longrightarrow> length (fold_branch bs h i) = 32"
  by (induction bs arbitrary: h i) (simp_all add: Hash2_eq length_sha256)

lemma unat_size: "k < 32 \<Longrightarrow> unat (push_bit k 1 :: u32) = 2 ^ k"
proof -
  assume k: "k < 32"
  then have "(2::nat) ^ k < 2 ^ 32" by (intro power_strict_increasing) simp_all
  with k show ?thesis unfolding unsigned_push_bit_eq by (simp add: push_bit_eq_mult take_bit_nat_eq_self)
qed

lemma sint_mod_size:
  assumes "k \<le> 30"
  shows "0 \<le> sint (x mod push_bit k (1::u32)) \<and> sint (x mod push_bit k (1::u32)) < 2 ^ k"
proof -
  define r where "r = x mod push_bit k (1::u32)"
  have k: "k < 32" using assms by simp
  have "unat r < unat (push_bit k (1::u32))"
    unfolding r_def by (intro unat_mono word_mod_less_divisor) (simp only: word_less_nat_alt unat_size [OF k], simp)
  then have u: "int (unat r) < 2 ^ k" by (simp only: unat_size [OF k] of_nat_less_numeral_power_cancel_iff of_nat_power of_nat_numeral flip: of_nat_less_iff)
  have "(2::int) ^ k \<le> 2 ^ 30" using assms by (intro power_increasing) simp_all
  with u have "int (unat r) < 2 ^ 31" by simp
  moreover have "- (2 ^ 31) \<le> int (unat r)" by (rule order_trans [OF _ of_nat_0_le_iff]) simp
  ultimately have "sint r = int (unat r)" unfolding sint_uint uint_nat by (intro signed_take_bit_int_eq_self) simp_all
  with u show ?thesis by (simp add: r_def)
qed

lemma getExpectedIndex_bounds:
  "h \<le> 30 \<Longrightarrow> 0 \<le> getExpectedIndex nonce chain h \<and> getExpectedIndex nonce chain h < 2 ^ h"
  unfolding getExpectedIndex_def Let_def by (rule sint_mod_size)

lemma length_header_GetHash: "length (header_GetHash h) = 32"
  by (simp add: header_GetHash_def SerializeHash_eq length_sha256)

section \<open>What the check establishes\<close>

lemma check_inputs: "check a h n params \<Longrightarrow> vin (tx_ref a) \<noteq> []"
  by (auto simp: check_def check_error_def Let_def split: if_splits list.splits)

text \<open>Where the script of the coinbase has the root of the tree of chains.\<close>

definition root_place :: "CAuxPow \<Rightarrow> bytes \<Rightarrow> nat" where
  "root_place a h = search (scriptSig (hd (vin (tx_ref a)))) (rev (CheckMerkleBranch h (vChainMerkleBranch a) (nChainIndex a)))"

text \<open>The place of the root determines the root, the size, the nonce and the index. With the merged mining header the place is the one behind it,
  without one it is among the first bytes.\<close>

lemma check_at_place:
  assumes "check a h n params" "length h = 32" and script: "script = scriptSig (hd (vin (tx_ref a)))" and r: "r = root_place a h"
  shows "take 32 (drop r script) = rev (fold_branch (vChainMerkleBranch a) h (nChainIndex a))"
    and "ReadLE32 (take 4 (drop (r + 32) script)) = push_bit (length (vChainMerkleBranch a)) 1"
    and "length (vChainMerkleBranch a) \<le> 30"
    and "nChainIndex a = getExpectedIndex (ReadLE32 (take 4 (drop (r + 36) script))) n (length (vChainMerkleBranch a))"
    and "if sublist pchMergedMiningHeader script then r = search script pchMergedMiningHeader + 4 else r \<le> 20"
proof -
  obtain i is' where v: "vin (tx_ref a) = i # is'" using check_inputs [OF assms(1)] by (cases "vin (tx_ref a)") auto
  let ?k = "length (vChainMerkleBranch a)" and ?root = "CheckMerkleBranch h (vChainMerkleBranch a) (nChainIndex a)"
  have e: "check_error a h n params = None" using assms(1) by (simp add: check_def)
  have s: "script = scriptSig i" using script v by simp
  have pc: "r = search script (rev ?root)" using r by (simp add: root_place_def script)
  have k: "?k \<le> 30" and found: "search script (rev ?root) \<noteq> length script" and place: "check_root_place script r = None"
    and size: "check_size_nonce script (r + length ?root) ?k (nChainIndex a) n = None"
    using e unfolding pc by (auto simp: check_error_def v Let_def s split: if_splits option.splits)
  show "?k \<le> 30" by (rule k)
  have "search script pchMergedMiningHeader \<noteq> length script \<longleftrightarrow> sublist pchMergedMiningHeader script"
    by (subst search_absent) (simp_all add: pchMergedMiningHeader_def)
  then show "if sublist pchMergedMiningHeader script then r = search script pchMergedMiningHeader + 4 else r \<le> 20"
    using place by (auto simp: check_root_place_def Let_def pchMergedMiningHeader_def split: if_splits)
  have ix: "nChainIndex a = getExpectedIndex (ReadLE32 (take 4 (drop (r + length ?root + 4) script))) n ?k"
    and sz: "ReadLE32 (take 4 (drop (r + length ?root) script)) = push_bit ?k 1"
    using size by (auto simp: check_size_nonce_def split: if_splits)
  have "nChainIndex a \<noteq> -1" using getExpectedIndex_bounds [OF k] ix by (metis neg_0_le_iff_le not_one_le_zero)
  then have root: "?root = fold_branch (vChainMerkleBranch a) h (nChainIndex a)" by (simp add: CheckMerkleBranch_def)
  then have len: "length ?root = 32" using length_fold_branch [OF assms(2)] by simp
  show "take 32 (drop r script) = rev (fold_branch (vChainMerkleBranch a) h (nChainIndex a))"
    using search_at [OF found] len root pc by simp
  show "ReadLE32 (take 4 (drop (r + 32) script)) = push_bit ?k 1" using sz len by simp
  show "nChainIndex a = getExpectedIndex (ReadLE32 (take 4 (drop (r + 36) script))) n ?k" using ix len by (simp add: add.assoc)
qed

lemma size_inject:
  assumes "k \<le> 30" "l \<le> 30" "push_bit k (1::u32) = push_bit l 1"
  shows "k = l"
proof -
  have "unat (push_bit k (1::u32)) = unat (push_bit l (1::u32))" by (simp only: assms(3))
  moreover have "k < 32" "l < 32" using assms(1,2) by simp_all
  ultimately have "(2::nat) ^ k = 2 ^ l" by (simp only: unat_size)
  then show ?thesis by simp
qed

section \<open>The minimal merge-mined block\<close>

lemma pch_ends: "pchMergedMiningHeader = xs @ ys \<Longrightarrow> prefix ys (1 # replicate 7 0) \<Longrightarrow> ys = []"
proof (rule ccontr)
  assume *: "pchMergedMiningHeader = xs @ ys" "prefix ys (1 # replicate 7 0)" "ys \<noteq> []"
  then have "hd ys = 1" by (cases ys) auto
  with * have "1 \<in> set pchMergedMiningHeader" by (metis hd_in_set in_set_conv_decomp append_Cons append.assoc hd_append2 list.set_sel(1) set_append UnI2)
  then show False by (simp add: pchMergedMiningHeader_def)
qed

lemma aux_script_header:
  "search (0x28 # rev h @ 1 # replicate 7 0) pchMergedMiningHeader = Suc (length h) + 8 \<longleftrightarrow> \<not> sublist pchMergedMiningHeader (rev h)"
proof -
  let ?t = "1 # replicate 7 0 :: bytes"
  have "sublist pchMergedMiningHeader (0x28 # rev h @ ?t) \<longleftrightarrow> sublist pchMergedMiningHeader (rev h @ ?t)"
    by (subst sublist_Cons_right) (simp add: pchMergedMiningHeader_def)
  also have "\<dots> \<longleftrightarrow> sublist pchMergedMiningHeader (rev h)"
  proof -
    have "0xfa \<notin> set ?t" "0xfa \<in> set pchMergedMiningHeader" by (simp_all add: pchMergedMiningHeader_def)
    then have "\<not> sublist pchMergedMiningHeader ?t" using set_mono_sublist by blast
    then show ?thesis unfolding sublist_append using pch_ends by (metis append_Nil2 suffix_imp_sublist)
  qed
  finally show ?thesis using search_absent [of pchMergedMiningHeader "0x28 # rev h @ ?t"] by (simp add: pchMergedMiningHeader_def)
qed

lemma aux_script_root:
  "search (x # rev h @ t) (rev h) = (if h = replicate (length h) x then 0 else Suc 0)"
proof -
  have "take (length (rev h)) (x # rev h @ t) = rev h \<longleftrightarrow> h = replicate (length h) x"
    unfolding shifted_copy by (metis length_rev rev_replicate rev_rev_ident)
  then show ?thesis using search_next [of "rev h" x "rev h @ t"] by (simp add: search_here)
qed

lemma one_root: "BlockMerkleRoot [t] = Some (tx_GetHash t, False)"
proof -
  have "(2 * j + 2) * 2 ^ m \<ge> (2::nat)" for j m :: nat by (metis add.commute le_add1 mult_le_mono nat_mult_1_right one_le_numeral one_le_power)
  then have "\<not> mutated_tree [tx_GetHash t]" unfolding mutated_tree_def by (metis One_nat_def Suc_1 list.size(3,4) add.commute plus_1_eq_Suc not_less_eq_eq le_trans order_refl)
  moreover have "tree_height 1 = 0" by (rule tree_height_eq) simp_all
  ultimately show ?thesis unfolding BlockMerkleRoot_def by (subst ComputeMerkleRoot_eq) simp_all
qed

lemma check_minimal:
  assumes a: "tx_ref a = aux_coinbase h" "vMerkleBranch a = []" "nIndex a = 0" "vChainMerkleBranch a = []" "nChainIndex a = 0"
    and h: "length h = 32" and p: "hashMerkleRoot (parentBlock a) = tx_GetHash (aux_coinbase h)" "GetChainId (parentBlock a) = 0"
  shows "check a h n params \<longleftrightarrow>
    \<not> (fStrictChainId params \<and> n = 0) \<and> h \<noteq> replicate 32 0x28 \<and> \<not> sublist pchMergedMiningHeader (rev h)"
proof -
  let ?s = "0x28 # rev h @ 1 # replicate 7 0 :: bytes"
  have s: "scriptSig (hd (vin (aux_coinbase h))) = ?s" "vin (aux_coinbase h) \<noteq> []"
    using h by (simp_all add: aux_coinbase_def push_data_def Let_def)
  then obtain i is' where v: "vin (aux_coinbase h) = i # is'" "scriptSig i = ?s" by (cases "vin (aux_coinbase h)") auto
  have len: "length ?s = 41" using h by simp
  define k where "k = search ?s (rev h)"
  have pc: "k = (if h = replicate 32 0x28 then 0 else Suc 0)" using aux_script_root [of "0x28" h] h by (simp add: k_def)
  have k: "k \<noteq> length ?s" using pc len by simp
  have red: "check_error a h n params = None \<longleftrightarrow> \<not> (fStrictChainId params \<and> n = 0) \<and>
      check_root_place ?s k = None \<and> check_size_nonce ?s (k + 32) 0 0 n = None"
    using k h by (simp add: check_error_def a p v CheckMerkleBranch_def Let_def flip: k_def split: option.split)
  show ?thesis
  proof (cases "h = replicate 32 0x28")
    case True
    have "ReadLE32 [40, 1, 0, 0] \<noteq> 1" by code_simp
    then have "check_size_nonce ?s 32 0 0 n \<noteq> None" unfolding True by (simp add: check_size_nonce_def numeral_eq_Suc)
    with red pc True show ?thesis by (simp add: check_def)
  next
    case False
    have "ReadLE32 (1 # replicate 3 0) = 1" by code_simp
    then have "check_size_nonce ?s 33 0 0 n = None" using h by (simp add: check_size_nonce_def getExpectedIndex_def)
    moreover have "check_root_place ?s (Suc 0) = None \<longleftrightarrow> \<not> sublist pchMergedMiningHeader (rev h)"
      using aux_script_header [of h] h len by (simp add: check_root_place_def Let_def pchMergedMiningHeader_def)
    ultimately show ?thesis using red pc False by (simp add: check_def)
  qed
qed

lemma initAuxPow_eq:
  "initAuxPow u h =
     Some (SetAuxpow (SetAuxpowFlag h True)
       (Some \<lparr>tx_ref = aux_coinbase (header_GetHash (SetAuxpowFlag h True)), hashBlock = uint256_null, vMerkleBranch = [], nIndex = 0,
         vChainMerkleBranch = [], nChainIndex = 0, parentBlock = CPureBlockHeader_null\<lparr>nVersion := 1,
         hashMerkleRoot := tx_GetHash (aux_coinbase (header_GetHash (SetAuxpowFlag h True)))\<rparr>\<rparr>))"
  by (simp add: initAuxPow_def Let_def one_root CAuxPow_new_def CMerkleTx_Init_def)

lemma flagged_header:
  "IsAuxpow (SetAuxpowFlag h True)" "GetChainId (SetAuxpowFlag h True) = GetChainId h" "\<not> IsLegacy (SetAuxpowFlag h True)"
proof -
  have b: "bit (nVersion h OR VERSION_AUXPOW) 8" by (rule flag_bits(5))
  then show "IsAuxpow (SetAuxpowFlag h True)" by (simp add: IsAuxpow_def SetAuxpowFlag_def AND_flag)
  show "GetChainId (SetAuxpowFlag h True) = GetChainId h" by (simp add: GetChainId_def SetAuxpowFlag_def flag_bits(1) del: drop_bit_or)
  have "nVersion h OR VERSION_AUXPOW \<noteq> 1" "nVersion h OR VERSION_AUXPOW \<noteq> 2"
    using b by (auto simp: bit_iff_odd)
  then show "\<not> IsLegacy (SetAuxpowFlag h True)" by (simp add: IsLegacy_def SetAuxpowFlag_def)
qed

section \<open>Properties\<close>

text \<open>C22: what a parent coinbase commits to. Two blocks that pass the check with the same coinbase under the same chain identifier, and whose
  roots have the same place in its script, have the same hash, committed at the same leaf of the same tree, unless the hash function
  collides on the pairs hashed along the two branches. If the script has the merged mining header the two places are the
  same, so that the coinbase serves at most one block. Otherwise both are among the first 21, and the coinbase may serve a block at each of them.\<close>

theorem auxpow_binds_block:
  assumes "check a h n params" "check a' h' n params'" "tx_ref a = tx_ref a'" "length h = 32" "length h' = 32"
    and "inj_on (\<lambda>(a, b). Hash2 a b)
      (branch_pairs (vChainMerkleBranch a) h (nChainIndex a) \<union> branch_pairs (vChainMerkleBranch a') h' (nChainIndex a'))"
  shows "(root_place a h = root_place a' h' \<longrightarrow>
      h = h' \<and> vChainMerkleBranch a = vChainMerkleBranch a' \<and> nChainIndex a = nChainIndex a') \<and>
    (if sublist pchMergedMiningHeader (scriptSig (hd (vin (tx_ref a)))) then root_place a h = root_place a' h'
     else root_place a h \<le> 20 \<and> root_place a' h' \<le> 20)"
proof -
  note c = check_at_place [OF assms(1,4) refl refl]
  note c' = check_at_place [OF assms(2,5) refl refl, folded assms(3)]
  have "h = h' \<and> vChainMerkleBranch a = vChainMerkleBranch a' \<and> nChainIndex a = nChainIndex a'" if p: "root_place a h = root_place a' h'"
  proof -
    have len: "length (vChainMerkleBranch a) = length (vChainMerkleBranch a')"
      using size_inject [OF c(3) c'(3)] c(2) c'(2) p by simp
    then have ix: "nChainIndex a = nChainIndex a'" using c(4) c'(4) p by simp
    have "fold_branch (vChainMerkleBranch a) h (nChainIndex a) = fold_branch (vChainMerkleBranch a') h' (nChainIndex a)"
      using c(1) c'(1) ix p by (metis rev_rev_ident)
    from fold_branch_inject [OF assms(6) [folded ix] len this] ix show ?thesis by simp
  qed
  then show ?thesis using c(5) c'(5) by (auto split: if_splits)
qed

theorem auxpow_binds_block_witness:
  "\<exists>a a'. check a uint256_null 0x62 main_consensus \<and> check a' uint256_null 0x62 main_consensus \<and> tx_ref a = tx_ref a' \<and> a \<noteq> a' \<and>
     vChainMerkleBranch a = vChainMerkleBranch a'"
proof -
  let ?s = "pchMergedMiningHeader @ replicate 32 0 @ 1 # replicate 7 0"
  define t where "t = \<lparr>tx_nVersion = 1, vin = [\<lparr>prevout = COutPoint_null, scriptSig = ?s, nSequence = SEQUENCE_FINAL, scriptWitness = []\<rparr>],
    vout = [], nLockTime = 0\<rparr>"
  define a where "a = (\<lambda>n. \<lparr>tx_ref = t, hashBlock = uint256_null, vMerkleBranch = [], nIndex = 0, vChainMerkleBranch = [], nChainIndex = 0,
    parentBlock = CPureBlockHeader_null\<lparr>nVersion := 1, hashMerkleRoot := tx_GetHash t, nNonce := n\<rparr>\<rparr>)"
  have e: "search ?s (rev uint256_null) = 4" "check_root_place ?s 4 = None" "check_size_nonce ?s 36 0 0 0x62 = None" by code_simp+
  have c: "check (a n) uint256_null 0x62 main_consensus" for n
    using e by (simp add: check_def check_error_def a_def t_def CheckMerkleBranch_def Let_def GetChainId_def uint256_null_def pchMergedMiningHeader_def)
  have "sublist pchMergedMiningHeader ?s" by simp
  moreover have "nNonce (parentBlock (a 0)) \<noteq> nNonce (parentBlock (a 1))" by (simp add: a_def)
  then have "a 0 \<noteq> a 1" by metis
  ultimately show ?thesis
    using auxpow_binds_block [OF c [of 0] c [of 1]] c [of 0] c [of 1] by (intro exI [of _ "a 0"] exI [of _ "a 1"]) (simp add: a_def t_def uint256_null_def)
qed

text \<open>C23: whatever header it is given, \<open>initAuxPow\<close> passes its assertions and yields a merge-mined block that only lacks work: for
  every time and nonce put into the parent header, the block passes \<open>CheckAuxPowProofOfWork\<close> exactly if the parent header meets the target,
  the chain identifier is the one of the network and not the one of the parent where that is enforced, and the hash of the block is
  none of the degenerate ones, which repeat the push opcode or contain the merged mining header.\<close>

theorem init_auxpow_mineable:
  "\<exists>h' a. initAuxPow u h = Some h' \<and> auxpow h' = Some a \<and> header_GetHash h' = header_GetHash (SetAuxpowFlag h True) \<and>
     (\<forall>time nonce. let p = (parentBlock a)\<lparr>nTime := time, nNonce := nonce\<rparr> in
       (CheckAuxPowProofOfWork (h'\<lparr>auxpow := Some (a\<lparr>parentBlock := p\<rparr>)\<rparr>) params \<longleftrightarrow>
         CheckProofOfWork (GetPoWHash p) (nBits h) params \<and>
         \<not> (fStrictChainId params \<and> GetChainId h \<noteq> nAuxpowChainId params) \<and> \<not> (fStrictChainId params \<and> GetChainId h = 0) \<and>
         header_GetHash h' \<noteq> replicate 32 0x28 \<and> \<not> sublist pchMergedMiningHeader (rev (header_GetHash h'))))"
proof -
  let ?g = "SetAuxpowFlag h True"
  let ?c = "aux_coinbase (header_GetHash ?g)"
  define a where "a = \<lparr>tx_ref = ?c, hashBlock = uint256_null, vMerkleBranch = [], nIndex = 0, vChainMerkleBranch = [], nChainIndex = 0,
    parentBlock = CPureBlockHeader_null\<lparr>nVersion := 1, hashMerkleRoot := tx_GetHash ?c\<rparr>\<rparr>"
  define h' where "h' = SetAuxpow ?g (Some a)"
  have flag: "nVersion h' = nVersion ?g" by (simp add: h'_def SetAuxpow_def SetAuxpowFlag_def)
  have rest: "auxpow h' = Some a" "nBits h' = nBits h" "ser_header h' = ser_header ?g"
    by (simp_all add: h'_def SetAuxpow_def SetAuxpowFlag_def ser_header_def)
  have hash: "header_GetHash h' = header_GetHash ?g" by (simp add: header_GetHash_def rest(3))
  have "CheckAuxPowProofOfWork (h'\<lparr>auxpow := Some (a\<lparr>parentBlock := p\<rparr>)\<rparr>) params \<longleftrightarrow>
      CheckProofOfWork (GetPoWHash p) (nBits h) params \<and>
      \<not> (fStrictChainId params \<and> GetChainId h \<noteq> nAuxpowChainId params) \<and> \<not> (fStrictChainId params \<and> GetChainId h = 0) \<and>
      header_GetHash h' \<noteq> replicate 32 0x28 \<and> \<not> sublist pchMergedMiningHeader (rev (header_GetHash h'))"
    if p: "p = (parentBlock a)\<lparr>nTime := time, nNonce := nonce\<rparr>" for time nonce p
  proof -
    let ?b = "h'\<lparr>auxpow := Some (a\<lparr>parentBlock := p\<rparr>)\<rparr>"
    have b: "IsAuxpow ?b" "GetChainId ?b = GetChainId h" "\<not> IsLegacy ?b" "nBits ?b = nBits h"
      using flagged_header [of h] flag rest(2) by (simp_all add: IsAuxpow_def GetChainId_def IsLegacy_def)
    have hb: "header_GetHash ?b = header_GetHash h'" by (simp add: header_GetHash_def ser_header_def)
    have "check (a\<lparr>parentBlock := p\<rparr>) (header_GetHash h') n params \<longleftrightarrow> \<not> (fStrictChainId params \<and> n = 0) \<and>
        header_GetHash h' \<noteq> replicate 32 0x28 \<and> \<not> sublist pchMergedMiningHeader (rev (header_GetHash h'))" for n
      by (rule check_minimal) (simp_all add: a_def p hash length_header_GetHash GetChainId_def)
    then show ?thesis using b hb by (auto simp: CheckAuxPowProofOfWork_def)
  qed
  then show ?thesis using rest(1) hash initAuxPow_eq [of u h] unfolding a_def [symmetric] h'_def [symmetric] Let_def by blast
qed

end
