(* ===== verification/VersionBits.thy ===== *)
theory VersionBits
  imports Chain Params
begin

text \<open>
  \<^verbatim>\<open>src/versionbits.h\<close>, \<^verbatim>\<open>src/versionbits.cpp\<close>: the deployment of rule changes by signals in block versions (BIP 9). The state of a
  deployment changes between periods of blocks only, and is computed from the last block of the previous period. States
  once computed are kept in a cache that is shared by all callers. The abstract class is a record of its virtual functions;
  dereferenced null pointers are None.
\<close>

section \<open>The computation\<close>

datatype ThresholdState = THRESHOLD_DEFINED | THRESHOLD_STARTED | THRESHOLD_LOCKED_IN | THRESHOLD_ACTIVE | THRESHOLD_FAILED

type_synonym ThresholdConditionCache = "ptr option \<rightharpoonup> ThresholdState"

record AbstractThresholdConditionChecker =
  Condition :: "CBlockIndex \<Rightarrow> bool"
  BeginTime :: int
  EndTime :: int
  Period :: int
  Threshold :: int

text \<open>The walk back to a block whose state is known, with the blocks still to be computed, oldest first.\<close>

partial_function (option) walk_back :: "AbstractThresholdConditionChecker \<Rightarrow> index_store \<Rightarrow> ThresholdConditionCache \<Rightarrow> ptr option \<Rightarrow> ptr list \<Rightarrow>
    (ThresholdConditionCache \<times> ptr option \<times> ptr list) option" where
  "walk_back k st cache pindexPrev vToCompute =
     (if cache pindexPrev \<noteq> None then Some (cache, pindexPrev, vToCompute)
      else case pindexPrev of
        None \<Rightarrow> Some (cache(None \<mapsto> THRESHOLD_DEFINED), None, vToCompute)
      | Some q \<Rightarrow> do {
          m \<leftarrow> GetMedianTimePast st q;
          if m < BeginTime k then Some (cache(Some q \<mapsto> THRESHOLD_DEFINED), Some q, vToCompute)
          else do {
            b \<leftarrow> st q;
            r \<leftarrow> GetAncestor st q (nHeight b - Period k);
            walk_back k st cache r (q # vToCompute)
          }
        })"

primrec count_condition :: "AbstractThresholdConditionChecker \<Rightarrow> index_store \<Rightarrow> nat \<Rightarrow> ptr option \<Rightarrow> int \<Rightarrow> int option" where
  "count_condition k st 0 pindexCount count = Some count"
| "count_condition k st (Suc i) pindexCount count = do {
     q \<leftarrow> pindexCount;
     b \<leftarrow> st q;
     count_condition k st i (pprev b) (if Condition k b then count + 1 else count)
   }"

definition next_state :: "AbstractThresholdConditionChecker \<Rightarrow> index_store \<Rightarrow> ThresholdState \<Rightarrow> ptr \<Rightarrow> ThresholdState option" where
  "next_state k st state q =
     (case state of
        THRESHOLD_DEFINED \<Rightarrow> do {
          m \<leftarrow> GetMedianTimePast st q;
          Some (if m \<ge> EndTime k then THRESHOLD_FAILED else if m \<ge> BeginTime k then THRESHOLD_STARTED else THRESHOLD_DEFINED)
        }
      | THRESHOLD_STARTED \<Rightarrow> do {
          m \<leftarrow> GetMedianTimePast st q;
          if m \<ge> EndTime k then Some THRESHOLD_FAILED
          else do {
            count \<leftarrow> count_condition k st (nat (Period k)) (Some q) 0;
            Some (if count \<ge> Threshold k then THRESHOLD_LOCKED_IN else THRESHOLD_STARTED)
          }
        }
      | THRESHOLD_LOCKED_IN \<Rightarrow> Some THRESHOLD_ACTIVE
      | THRESHOLD_FAILED \<Rightarrow> Some THRESHOLD_FAILED
      | THRESHOLD_ACTIVE \<Rightarrow> Some THRESHOLD_ACTIVE)"

primrec walk_forward :: "AbstractThresholdConditionChecker \<Rightarrow> index_store \<Rightarrow> ptr list \<Rightarrow> ThresholdState \<Rightarrow> ThresholdConditionCache \<Rightarrow>
    (ThresholdState \<times> ThresholdConditionCache) option" where
  "walk_forward k st [] state cache = Some (state, cache)"
| "walk_forward k st (q # vToCompute) state cache = do {
     stateNext \<leftarrow> next_state k st state q;
     walk_forward k st vToCompute stateNext (cache(Some q \<mapsto> stateNext))
   }"

definition last_of_period :: "AbstractThresholdConditionChecker \<Rightarrow> index_store \<Rightarrow> ptr option \<Rightarrow> ptr option option" where
  "last_of_period k st pindexPrev =
     (case pindexPrev of
        None \<Rightarrow> Some None
      | Some q \<Rightarrow> do { b \<leftarrow> st q; GetAncestor st q (nHeight b - ((nHeight b + 1) smod Period k)) })"

definition GetStateFor :: "AbstractThresholdConditionChecker \<Rightarrow> index_store \<Rightarrow> ptr option \<Rightarrow> ThresholdConditionCache \<Rightarrow>
    (ThresholdState \<times> ThresholdConditionCache) option" where
  "GetStateFor k st pindexPrev cache = do {
     p \<leftarrow> last_of_period k st pindexPrev;
     (cache, p, vToCompute) \<leftarrow> walk_back k st cache p [];
     state \<leftarrow> cache p;
     walk_forward k st vToCompute state cache
   }"

partial_function (option) since_loop :: "AbstractThresholdConditionChecker \<Rightarrow> index_store \<Rightarrow> ThresholdState \<Rightarrow> ptr \<Rightarrow> ptr option \<Rightarrow> ThresholdConditionCache \<Rightarrow>
    (ptr \<times> ThresholdConditionCache) option" where
  "since_loop k st initialState p previousPeriodParent cache =
     (case previousPeriodParent of
        None \<Rightarrow> Some (p, cache)
      | Some q \<Rightarrow> do {
          (state, cache) \<leftarrow> GetStateFor k st (Some q) cache;
          if state = initialState
          then do {
            b \<leftarrow> st q;
            r \<leftarrow> GetAncestor st q (nHeight b - Period k);
            since_loop k st initialState q r cache
          }
          else Some (p, cache)
        })"

definition GetStateSinceHeightFor :: "AbstractThresholdConditionChecker \<Rightarrow> index_store \<Rightarrow> ptr option \<Rightarrow> ThresholdConditionCache \<Rightarrow>
    (int \<times> ThresholdConditionCache) option" where
  "GetStateSinceHeightFor k st pindexPrev cache = do {
     (initialState, cache) \<leftarrow> GetStateFor k st pindexPrev cache;
     if initialState = THRESHOLD_DEFINED then Some (0, cache)
     else do {
       q \<leftarrow> pindexPrev;
       p \<leftarrow> last_of_period k st (Some q);
       p \<leftarrow> p;
       b \<leftarrow> st p;
       previousPeriodParent \<leftarrow> GetAncestor st p (nHeight b - Period k);
       (p, cache) \<leftarrow> since_loop k st initialState p previousPeriodParent cache;
       b \<leftarrow> st p;
       Some (nHeight b + 1, cache)
     }
   }"

section \<open>Version bits\<close>

abbreviation (input) VERSIONBITS_TOP_BITS :: int where
  "VERSIONBITS_TOP_BITS \<equiv> 0x20000000"

abbreviation (input) VERSIONBITS_TOP_MASK :: int where
  "VERSIONBITS_TOP_MASK \<equiv> - 0x20000000"

definition Mask :: "consensus_params \<Rightarrow> DeploymentPos \<Rightarrow> u32" where
  "Mask params pos = push_bit (nat (bip9_bit (vDeployments params pos))) 1"

definition VersionBitsConditionChecker :: "consensus_params \<Rightarrow> DeploymentPos \<Rightarrow> AbstractThresholdConditionChecker" where
  "VersionBitsConditionChecker params pos =
     \<lparr>Condition = (\<lambda>b. bi_nVersion b AND VERSIONBITS_TOP_MASK = VERSIONBITS_TOP_BITS \<and> word_of_int (bi_nVersion b) AND Mask params pos \<noteq> 0),
      BeginTime = nStartTime (vDeployments params pos), EndTime = nTimeout (vDeployments params pos),
      Period = wrap32 (int (nMinerConfirmationWindow params)), Threshold = wrap32 (int (nRuleChangeActivationThreshold params))\<rparr>"

type_synonym VersionBitsCache = "DeploymentPos \<Rightarrow> ThresholdConditionCache"

definition VersionBitsState :: "index_store \<Rightarrow> ptr option \<Rightarrow> consensus_params \<Rightarrow> DeploymentPos \<Rightarrow> VersionBitsCache \<Rightarrow>
    (ThresholdState \<times> VersionBitsCache) option" where
  "VersionBitsState st pindexPrev params pos caches = do {
     (state, c) \<leftarrow> GetStateFor (VersionBitsConditionChecker params pos) st pindexPrev (caches pos);
     Some (state, caches(pos := c))
   }"

definition VersionBitsStateSinceHeight :: "index_store \<Rightarrow> ptr option \<Rightarrow> consensus_params \<Rightarrow> DeploymentPos \<Rightarrow> VersionBitsCache \<Rightarrow>
    (int \<times> VersionBitsCache) option" where
  "VersionBitsStateSinceHeight st pindexPrev params pos caches = do {
     (h, c) \<leftarrow> GetStateSinceHeightFor (VersionBitsConditionChecker params pos) st pindexPrev (caches pos);
     Some (h, caches(pos := c))
   }"

definition VersionBitsMask :: "consensus_params \<Rightarrow> DeploymentPos \<Rightarrow> u32" where
  "VersionBitsMask params pos = Mask params pos"

definition VersionBitsCache_Clear :: VersionBitsCache where
  "VersionBitsCache_Clear = (\<lambda>d. Map.empty)"

section \<open>Median times\<close>

lemma median_times_total:
  assumes "store_ok st"
  shows "st p = Some b \<Longrightarrow> \<exists>ts. median_times st (Some p) n = Some ts \<and> (0 < n \<longrightarrow> ts \<noteq> [])"
proof (induction n arbitrary: p b)
  case (Suc n)
  show ?case
  proof (cases "pprev b")
    case None
    then show ?thesis using Suc.prems by (cases n) auto
  next
    case (Some q)
    then obtain c where "st q = Some c" using store_okD [OF assms Suc.prems] by (auto simp: entry_ok_def)
    from Suc.IH [OF this] Some show ?thesis using Suc.prems by auto
  qed
qed simp

lemma median_total:
  assumes "store_ok st" "st p = Some b"
  obtains m where "GetMedianTimePast st p = Some m"
proof -
  obtain ts where "median_times st (Some p) 11 = Some ts" using median_times_total [OF assms, of 11] by blast
  then show thesis using that by (simp add: GetMedianTimePast_def)
qed

lemma median_times_take: "median_times st p (Suc n) = Some ts \<Longrightarrow> median_times st p n = Some (take n ts)"
proof (induction n arbitrary: p ts)
  case (Suc n)
  show ?case
  proof (cases p)
    case None
    then show ?thesis using Suc.prems by simp
  next
    case (Some q)
    then have "do { b \<leftarrow> st q; us \<leftarrow> median_times st (pprev b) (Suc n); Some (GetBlockTime b # us) } = Some ts"
      using Suc.prems by (simp only: median_times.simps(2) option.case)
    then obtain b us where b: "st q = Some b" "median_times st (pprev b) (Suc n) = Some us" "ts = GetBlockTime b # us"
      by (auto simp: Option.bind_eq_Some_conv simp del: median_times.simps(2))
    from Suc.IH [OF b(2)] b Some show ?thesis by simp
  qed
qed simp

lemma median_times_length: "median_times st p n = Some ts \<Longrightarrow> length ts \<le> n"
proof (induction n arbitrary: p ts)
  case (Suc n)
  then show ?case by (cases p) (auto simp: Option.bind_eq_Some_conv)
qed simp

text \<open>In a sorted list the element at a position is at least \<open>m\<close> exactly if enough elements are.\<close>

lemma sorted_nth_ge:
  fixes xs :: "'a::linorder list"
  assumes "sorted xs" "i < length xs"
  shows "m \<le> xs ! i \<longleftrightarrow> length xs - i \<le> length (filter (\<lambda>x. m \<le> x) xs)"
proof
  assume "m \<le> xs ! i"
  then have "m \<le> xs ! (i + j)" if "i + j < length xs" for j
    using order_trans [OF _ sorted_nth_mono [OF assms(1) _ that, of i]] by simp
  then have "filter (\<lambda>x. m \<le> x) (drop i xs) = drop i xs"
    by (auto simp: filter_id_conv in_set_conv_nth)
  moreover have "length (filter (\<lambda>x. m \<le> x) (drop i xs)) \<le> length (filter (\<lambda>x. m \<le> x) xs)"
    by (metis append_take_drop_id filter_append le_add2 length_append)
  ultimately show "length xs - i \<le> length (filter (\<lambda>x. m \<le> x) xs)" by simp
next
  assume *: "length xs - i \<le> length (filter (\<lambda>x. m \<le> x) xs)"
  show "m \<le> xs ! i"
  proof (rule ccontr)
    assume lt: "\<not> m \<le> xs ! i"
    have "\<not> m \<le> x" if "x \<in> set (take (Suc i) xs)" for x
    proof -
      from that obtain j where "j \<le> i" "x = xs ! j" using assms(2) by (auto simp: in_set_conv_nth less_Suc_eq_le)
      then show ?thesis using lt sorted_nth_mono [OF assms(1), of j i] assms(2) by auto
    qed
    then have "filter (\<lambda>x. m \<le> x) (take (Suc i) xs) = []" by (simp add: filter_empty_conv)
    then have "filter (\<lambda>x. m \<le> x) xs = filter (\<lambda>x. m \<le> x) (drop (Suc i) xs)"
      by (metis append_Nil append_take_drop_id filter_append)
    then have "length (filter (\<lambda>x. m \<le> x) xs) \<le> length xs - Suc i" by (metis length_drop length_filter_le)
    with * assms(2) show False by simp
  qed
qed

lemma length_filter_sort: "length (filter P (sort xs)) = length (filter P (xs :: 'a::linorder list))"
  by (simp add: filter_sort)

lemma median_ge:
  fixes ts :: "'a::linorder list"
  assumes "ts \<noteq> []"
  shows "m \<le> sort ts ! (length ts div 2) \<longleftrightarrow> length ts - length ts div 2 \<le> length (filter (\<lambda>x. m \<le> x) ts)"
  using sorted_nth_ge [of "sort ts" "length ts div 2" m] assms by (simp add: length_filter_sort)

text \<open>The median does not decrease when an element above it enters and the oldest one leaves a full window.\<close>

lemma median_mono:
  fixes ts :: "'a::linorder list"
  assumes "ts \<noteq> []" "length ts \<le> 11" "sort ts ! (length ts div 2) < t"
  shows "sort ts ! (length ts div 2) \<le> sort (t # take 10 ts) ! (length (t # take 10 ts) div 2)"
proof -
  let ?m = "sort ts ! (length ts div 2)" and ?us = "t # take 10 ts"
  let ?P = "\<lambda>x. ?m \<le> x"
  have c: "length ts - length ts div 2 \<le> length (filter ?P ts)" using median_ge [OF assms(1), of ?m] by simp
  have "length (filter ?P ts) = length (filter ?P (take 10 ts)) + length (filter ?P (drop 10 ts))"
    by (metis append_take_drop_id filter_append length_append)
  moreover have "length (filter ?P (drop 10 ts)) \<le> length ts - 10" by (metis length_drop length_filter_le)
  moreover have "length (filter ?P ?us) = Suc (length (filter ?P (take 10 ts)))" using assms(3) by simp
  ultimately have "length (filter ?P ?us) \<ge> 1 + (length ts - length ts div 2) - (length ts - 10)" using c by linarith
  then have "length ?us - length ?us div 2 \<le> length (filter ?P ?us)" using assms(2) by (cases "length ts = 11") auto
  then show ?thesis using median_ge [of ?us ?m] by simp
qed

text \<open>The rule on block times that \<^verbatim>\<open>ContextualCheckBlockHeader\<close> enforces.\<close>

definition times_rule :: "index_store \<Rightarrow> bool" where
  "times_rule st \<longleftrightarrow> (\<forall>p b q m. st p = Some b \<and> pprev b = Some q \<and> GetMedianTimePast st q = Some m \<longrightarrow> m < GetBlockTime b)"

lemma median_step:
  assumes "store_ok st" "times_rule st" "st p = Some b" "pprev b = Some q" "GetMedianTimePast st q = Some m" "GetMedianTimePast st p = Some n"
  shows "m \<le> n"
proof -
  obtain c where "st q = Some c" using store_okD [OF assms(1,3)] assms(4) by (auto simp: entry_ok_def)
  then obtain ts where ts: "median_times st (Some q) 11 = Some ts" "ts \<noteq> []" using median_times_total [OF assms(1), of q c 11] by auto
  have "median_times st (Some q) 10 = Some (take 10 ts)" using median_times_take [of st "Some q" 10 ts] ts(1) by simp
  then have "median_times st (Some p) 11 = Some (GetBlockTime b # take 10 ts)"
    using assms(3,4) by (simp add: numeral_eq_Suc)
  then have n: "n = sort (GetBlockTime b # take 10 ts) ! (length (GetBlockTime b # take 10 ts) div 2)"
    using assms(6) by (simp add: GetMedianTimePast_def)
  have m: "m = sort ts ! (length ts div 2)" using assms(5) ts(1) by (simp add: GetMedianTimePast_def)
  have "m < GetBlockTime b" using assms(2-5) by (auto simp: times_rule_def)
  then show ?thesis unfolding m n using median_times_length [OF ts(1)] ts(2) by (intro median_mono) simp_all
qed

lemma median_up:
  assumes "store_ok st" "times_rule st"
  shows "st p = Some b \<Longrightarrow> up st p k = Some q \<Longrightarrow> GetMedianTimePast st q = Some m \<Longrightarrow> GetMedianTimePast st p = Some n \<Longrightarrow> m \<le> n"
proof (induction k arbitrary: p b n)
  case (Suc k)
  then obtain r where r: "pprev b = Some r" "up st r k = Some q" by (auto simp: Option.bind_eq_Some_conv)
  then obtain c where c: "st r = Some c" using store_okD [OF assms(1) Suc.prems(1)] by (auto simp: entry_ok_def)
  obtain l where l: "GetMedianTimePast st r = Some l" using median_total [OF assms(1) c] .
  show ?case using Suc.IH [OF c r(2) Suc.prems(3) l] median_step [OF assms Suc.prems(1) r(1) l Suc.prems(4)] by simp
qed simp

section \<open>The states of BIP 9\<close>

text \<open>The block a period before, null before the first period, and the last block of the previous period.\<close>

definition period_back :: "index_store \<Rightarrow> ptr \<Rightarrow> CBlockIndex \<Rightarrow> int \<Rightarrow> ptr option" where
  "period_back st q b d = (if d \<le> nHeight b then up st q (nat d) else None)"

text \<open>How many of the blocks of the period that ends at a block meet the condition; nothing if the chain is shorter than a period.\<close>

definition signalling :: "AbstractThresholdConditionChecker \<Rightarrow> index_store \<Rightarrow> ptr \<Rightarrow> nat \<Rightarrow> nat option" where
  "signalling k st q n =
     (if list_all (\<lambda>i. \<exists>r b. up st q i = Some r \<and> st r = Some b) [0..<n]
      then Some (length (filter (\<lambda>i. \<exists>r b. up st q i = Some r \<and> st r = Some b \<and> Condition k b) [0..<n])) else None)"

text \<open>The transitions of BIP 9 at the end of a period, for the median time of its last block and the number of its blocks that signal.\<close>

inductive bip9_moves :: "AbstractThresholdConditionChecker \<Rightarrow> int \<Rightarrow> nat option \<Rightarrow> ThresholdState \<Rightarrow> ThresholdState \<Rightarrow> bool"
  for k :: AbstractThresholdConditionChecker and time :: int and signals :: "nat option" where
  bip9_defined: "time < BeginTime k \<Longrightarrow> time < EndTime k \<Longrightarrow> bip9_moves k time signals THRESHOLD_DEFINED THRESHOLD_DEFINED"
| bip9_start: "BeginTime k \<le> time \<Longrightarrow> time < EndTime k \<Longrightarrow> bip9_moves k time signals THRESHOLD_DEFINED THRESHOLD_STARTED"
| bip9_late: "EndTime k \<le> time \<Longrightarrow> bip9_moves k time signals THRESHOLD_DEFINED THRESHOLD_FAILED"
| bip9_fail: "EndTime k \<le> time \<Longrightarrow> bip9_moves k time signals THRESHOLD_STARTED THRESHOLD_FAILED"
| bip9_lock_in: "time < EndTime k \<Longrightarrow> signals = Some n \<Longrightarrow> Threshold k \<le> int n \<Longrightarrow> bip9_moves k time signals THRESHOLD_STARTED THRESHOLD_LOCKED_IN"
| bip9_wait: "time < EndTime k \<Longrightarrow> signals = Some n \<Longrightarrow> int n < Threshold k \<Longrightarrow> bip9_moves k time signals THRESHOLD_STARTED THRESHOLD_STARTED"
| bip9_activate: "bip9_moves k time signals THRESHOLD_LOCKED_IN THRESHOLD_ACTIVE"
| bip9_active: "bip9_moves k time signals THRESHOLD_ACTIVE THRESHOLD_ACTIVE"
| bip9_failed: "bip9_moves k time signals THRESHOLD_FAILED THRESHOLD_FAILED"

inductive_simps bip9_moves_simps:
  "bip9_moves k time signals THRESHOLD_DEFINED s" "bip9_moves k time signals THRESHOLD_STARTED s"
  "bip9_moves k time signals THRESHOLD_LOCKED_IN s" "bip9_moves k time signals THRESHOLD_ACTIVE s" "bip9_moves k time signals THRESHOLD_FAILED s"

lemma signalling_Suc:
  "signalling k st q (Suc n) = do { b \<leftarrow> st q; c \<leftarrow> (if n = 0 then Some 0 else do { r \<leftarrow> pprev b; signalling k st r n }); Some ((if Condition k b then 1 else 0) + c) }"
proof -
  have shift: "[0..<Suc n] = 0 # map Suc [0..<n]" by (simp only: map_Suc_upt upt_conv_Cons zero_less_Suc)
  show ?thesis
  proof (cases "st q")
    case (Some b)
    show ?thesis
    proof (cases "pprev b")
      case None
      then have "up st q (Suc i) = None" for i using Some by simp
      then show ?thesis using Some None unfolding signalling_def shift by (cases n) (auto simp: upt_conv_Cons simp del: upt_Suc)
    next
      case prev: (Some r)
      then have "up st q (Suc i) = up st r i" for i using Some by simp
      then show ?thesis using Some prev unfolding signalling_def shift by (simp add: list.pred_map filter_map o_def del: up.simps(2))
    qed
  qed (simp add: signalling_def shift del: upt_Suc)
qed

lemma count_signalling: "count_condition k st n (Some q) i = map_option (\<lambda>c. i + int c) (signalling k st q n)"
proof (induction n arbitrary: q i)
  case (Suc n)
  show ?case
  proof (cases "st q")
    case (Some b)
    show ?thesis
    proof (cases "pprev b")
      case None
      then show ?thesis using Some unfolding signalling_Suc by (cases n) simp_all
    next
      case prev: (Some r)
      have "signalling k st r 0 = Some 0" by (simp add: signalling_def)
      then show ?thesis using Some prev Suc.IH unfolding signalling_Suc by (cases n; cases "signalling k st r n") auto
    qed
  qed (simp add: signalling_Suc)
qed (simp add: signalling_def)

lemma next_state_moves:
  assumes "GetMedianTimePast st q = Some m"
  shows "next_state k st s q = Some s' \<longleftrightarrow> bip9_moves k m (signalling k st q (nat (Period k))) s s'"
proof (cases s)
  case THRESHOLD_STARTED
  then show ?thesis using assms
    by (cases "signalling k st q (nat (Period k))") (auto simp: next_state_def count_signalling bip9_moves_simps)
qed (use assms in \<open>auto simp: next_state_def bip9_moves_simps\<close>)

text \<open>The states of a deployment: at the last block of a period the state is the one a period before, moved on by one transition.\<close>

inductive bip9 :: "AbstractThresholdConditionChecker \<Rightarrow> index_store \<Rightarrow> ptr option \<Rightarrow> ThresholdState \<Rightarrow> bool"
  for k :: AbstractThresholdConditionChecker and st :: index_store where
  bip9_before: "bip9 k st None THRESHOLD_DEFINED"
| bip9_period: "st q = Some b \<Longrightarrow> bip9 k st (period_back st q b (Period k)) s \<Longrightarrow> GetMedianTimePast st q = Some m \<Longrightarrow>
    bip9_moves k m (signalling k st q (nat (Period k))) s s' \<Longrightarrow> bip9 k st (Some q) s'"

text \<open>The same states with the shortcut that a block before the start time has the first state, whatever comes before it.\<close>

inductive bip9_state :: "AbstractThresholdConditionChecker \<Rightarrow> index_store \<Rightarrow> ptr option \<Rightarrow> ThresholdState \<Rightarrow> bool"
  for k :: AbstractThresholdConditionChecker and st :: index_store where
  bip9_genesis: "bip9_state k st None THRESHOLD_DEFINED"
| bip9_early: "GetMedianTimePast st q = Some m \<Longrightarrow> m < BeginTime k \<Longrightarrow> bip9_state k st (Some q) THRESHOLD_DEFINED"
| bip9_move: "GetMedianTimePast st q = Some m \<Longrightarrow> BeginTime k \<le> m \<Longrightarrow> st q = Some b \<Longrightarrow> bip9_state k st (period_back st q b (Period k)) s \<Longrightarrow>
    bip9_moves k m (signalling k st q (nat (Period k))) s s' \<Longrightarrow> bip9_state k st (Some q) s'"

inductive_cases bip9_NoneE: "bip9_state k st None s"
inductive_cases bip9_SomeE: "bip9_state k st (Some q) s"

lemma bip9_next:
  "GetMedianTimePast st q = Some m \<Longrightarrow> BeginTime k \<le> m \<Longrightarrow> st q = Some b \<Longrightarrow> bip9_state k st (period_back st q b (Period k)) s \<Longrightarrow>
    next_state k st s q = Some s' \<Longrightarrow> bip9_state k st (Some q) s'"
  using bip9_move next_state_moves by blast

lemma bip9_unique: "bip9_state k st p s \<Longrightarrow> bip9_state k st p s' \<Longrightarrow> s' = s"
proof (induction arbitrary: s' rule: bip9_state.induct)
  case bip9_genesis
  then show ?case by (auto elim: bip9_NoneE)
next
  case (bip9_early q m)
  then show ?case by (auto elim!: bip9_SomeE)
next
  case (bip9_move q m b s s'')
  let ?n = "signalling k st q (nat (Period k))"
  from bip9_move.prems bip9_move.hyps(1,2) obtain b' t where
    t: "st q = Some b'" "bip9_state k st (period_back st q b' (Period k)) t" "bip9_moves k m ?n t s'"
    by (auto elim!: bip9_SomeE)
  then have "b' = b" using bip9_move.hyps(3) by simp
  with t(2) bip9_move.IH have "t = s" by blast
  with t(3) bip9_move.hyps(5) next_state_moves [OF bip9_move.hyps(1), of k s] show ?case by (metis option.inject)
qed

definition cache_ok :: "AbstractThresholdConditionChecker \<Rightarrow> index_store \<Rightarrow> ThresholdConditionCache \<Rightarrow> bool" where
  "cache_ok k st cache \<longleftrightarrow> (\<forall>p s. cache p = Some s \<longrightarrow> bip9_state k st p s)"

lemma cache_ok_upd: "cache_ok k st cache \<Longrightarrow> bip9_state k st p s \<Longrightarrow> cache_ok k st (cache(p \<mapsto> s))"
  by (auto simp: cache_ok_def)

lemma back_height:
  assumes "store_ok st" "st q = Some b" "0 \<le> d"
  shows "period_back st q b d = None \<or> (\<exists>r c. period_back st q b d = Some r \<and> st r = Some c \<and> nHeight c = nHeight b - d)"
  using up_height [OF assms(1,2), of "nat d"] assms(3) by (auto simp: period_back_def)

lemma GetAncestor_back:
  assumes "store_ok st" "st q = Some b" "0 \<le> d"
  shows "GetAncestor st q (nHeight b - d) = Some (period_back st q b d)"
  using GetAncestor_up [OF assms(1) map_le_refl assms(2), of "nHeight b - d"] assms(3) by (simp add: period_back_def)

lemma count_total:
  assumes "store_ok st"
  shows "st q = Some b \<Longrightarrow> int n \<le> nHeight b + 1 \<Longrightarrow> \<exists>c. count_condition k st n (Some q) i = Some c"
proof (induction n arbitrary: q b i)
  case (Suc n)
  show ?case
  proof (cases n)
    case (Suc m)
    then have "0 < nHeight b" using Suc.prems by simp
    from entry_prev [OF assms Suc.prems(1) this] obtain r c where r: "pprev b = Some r" "st r = Some c" "nHeight b = nHeight c + 1" by metis
    then have "int n \<le> nHeight c + 1" using Suc.prems by simp
    from Suc.IH [OF r(2) this] show ?thesis using r Suc.prems by simp
  qed (use Suc.prems in simp)
qed simp

text \<open>Blocks at which states are computed end a period.\<close>

definition ends_period :: "AbstractThresholdConditionChecker \<Rightarrow> index_store \<Rightarrow> ptr option \<Rightarrow> bool" where
  "ends_period k st p \<longleftrightarrow> (\<forall>q. p = Some q \<longrightarrow> (\<exists>b. st q = Some b \<and> (nHeight b + 1) mod Period k = 0))"

lemma next_state_total:
  assumes "store_ok st" "0 < Period k" "ends_period k st (Some q)"
  shows "\<exists>s'. next_state k st s q = Some s'"
proof -
  obtain b where b: "st q = Some b" "(nHeight b + 1) mod Period k = 0" using assms(3) by (auto simp: ends_period_def)
  obtain m where m: "GetMedianTimePast st q = Some m" using median_total [OF assms(1) b(1)] .
  have "Period k \<le> nHeight b + 1" using b(2) assms(2) nonneg_height [OF assms(1) b(1)] by (intro zdvd_imp_le) auto
  then obtain c where "count_condition k st (nat (Period k)) (Some q) 0 = Some c"
    using count_total [OF assms(1) b(1), of "nat (Period k)"] assms(2) by auto
  then show ?thesis using m by (cases s) (simp_all add: next_state_def)
qed

lemma ends_back:
  assumes "store_ok st" "0 < Period k" "ends_period k st (Some q)" "st q = Some b"
  shows "ends_period k st (period_back st q b (Period k))"
proof -
  have "(nHeight b + 1) mod Period k = 0" using assms(3,4) by (auto simp: ends_period_def)
  moreover have "nHeight b - Period k + 1 = nHeight b + 1 - Period k" by simp
  ultimately have "(nHeight b - Period k + 1) mod Period k = 0" by (simp only: mod_diff_right_eq minus_mod_self2)
  then show ?thesis using back_height [OF assms(1,4), of "Period k"] assms(2) by (auto simp: ends_period_def)
qed

text \<open>The blocks still to be computed, oldest first, each a period before the next.\<close>

fun todo_ok :: "AbstractThresholdConditionChecker \<Rightarrow> index_store \<Rightarrow> ptr option \<Rightarrow> ptr list \<Rightarrow> bool" where
  "todo_ok k st p [] \<longleftrightarrow> True"
| "todo_ok k st p (q # qs) \<longleftrightarrow> ends_period k st (Some q) \<and>
     (\<exists>b m. st q = Some b \<and> period_back st q b (Period k) = p \<and> GetMedianTimePast st q = Some m \<and> BeginTime k \<le> m) \<and> todo_ok k st (Some q) qs"

lemma walk_forward_states:
  assumes "store_ok st" "0 < Period k"
  shows "todo_ok k st p qs \<Longrightarrow> bip9_state k st p s \<Longrightarrow> cache_ok k st cache \<Longrightarrow>
    \<exists>s' cache'. walk_forward k st qs s cache = Some (s', cache') \<and> bip9_state k st (last (p # map Some qs)) s' \<and> cache_ok k st cache'"
proof (induction qs arbitrary: p s cache)
  case (Cons q qs)
  then obtain b m where b: "st q = Some b" "period_back st q b (Period k) = p" "GetMedianTimePast st q = Some m" "BeginTime k \<le> m" by auto
  have e: "ends_period k st (Some q)" using Cons.prems(1) by simp
  obtain t where t: "next_state k st s q = Some t" using next_state_total [OF assms e] by blast
  have n: "bip9_state k st (Some q) t" using b Cons.prems(2) t by (auto intro: bip9_next)
  have "todo_ok k st (Some q) qs" using Cons.prems(1) by simp
  from Cons.IH [OF this n cache_ok_upd [OF Cons.prems(3) n]] have
    "\<exists>s' cache'. walk_forward k st (q # qs) s cache = Some (s', cache') \<and> bip9_state k st (last (Some q # map Some qs)) s' \<and> cache_ok k st cache'"
    using t by (simp del: fun_upd_apply last.simps)
  moreover have "last (p # map Some (q # qs)) = last (Some q # map Some qs)" by simp
  ultimately show ?case by (simp only:)
qed simp

lemma up_less:
  assumes "store_ok st"
  shows "st p = Some b \<Longrightarrow> 0 < k \<Longrightarrow> up st p k = Some q \<Longrightarrow> q < p"
proof (induction k arbitrary: p b)
  case (Suc k)
  then obtain r where r: "pprev b = Some r" "up st r k = Some q" by (auto simp: Option.bind_eq_Some_conv)
  then obtain c where c: "st r = Some c" "r < p" using store_okD [OF assms Suc.prems(1)] by (auto simp: entry_ok_def)
  show ?case
  proof (cases k)
    case 0
    then show ?thesis using r c by simp
  next
    case (Suc j)
    then show ?thesis using Suc.IH [OF c(1) _ r(2)] c(2) by simp
  qed
qed simp

lemma walk_back_known:
  assumes "store_ok st" "0 < Period k" "cache_ok k st cache"
  shows "ends_period k st p \<Longrightarrow> todo_ok k st p qs \<Longrightarrow>
    \<exists>cache' p' qs'. walk_back k st cache p qs = Some (cache', p', qs') \<and> (\<exists>s. cache' p' = Some s \<and> bip9_state k st p' s) \<and>
      cache_ok k st cache' \<and> todo_ok k st p' qs' \<and> last (p' # map Some qs') = last (p # map Some qs)"
proof (induction "case p of None \<Rightarrow> 0 | Some q \<Rightarrow> Suc q" arbitrary: p qs rule: less_induct)
  case less
  show ?case
  proof (cases "cache p")
    case (Some s)
    then show ?thesis using assms(3) less.prems by (subst walk_back.simps) (auto simp: cache_ok_def)
  next
    case new: None
    show ?thesis
    proof (cases p)
      case None
      then show ?thesis using new less.prems cache_ok_upd [OF assms(3) bip9_genesis] bip9_genesis
        by (subst walk_back.simps) (auto simp del: fun_upd_apply, auto)
    next
      case (Some q)
      then obtain b where b: "st q = Some b" using less.prems by (auto simp: ends_period_def)
      obtain m where m: "GetMedianTimePast st q = Some m" using median_total [OF assms(1) b] .
      show ?thesis
      proof (cases "m < BeginTime k")
        case True
        have e: "bip9_state k st (Some q) THRESHOLD_DEFINED" using bip9_early [OF m True] .
        show ?thesis using new Some m True less.prems e cache_ok_upd [OF assms(3) e]
          by (subst walk_back.simps) (auto simp del: fun_upd_apply, auto)
      next
        case False
        let ?r = "period_back st q b (Period k)"
        have e: "ends_period k st ?r" using ends_back [OF assms(1,2) _ b] less.prems Some by blast
        have t: "todo_ok k st ?r (q # qs)" using less.prems Some b m False by auto
        have lt: "(case ?r of None \<Rightarrow> 0 | Some q \<Rightarrow> Suc q) < (case p of None \<Rightarrow> 0 | Some q \<Rightarrow> Suc q)"
          using up_less [OF assms(1) b, of "nat (Period k)"] assms(2) Some by (auto simp: period_back_def split: option.split)
        have "walk_back k st cache p qs = walk_back k st cache ?r (q # qs)"
          using new Some m False b GetAncestor_back [OF assms(1) b, of "Period k"] assms(2) by (subst walk_back.simps) simp
        with less.hyps [OF lt e t] Some show ?thesis by simp
      qed
    qed
  qed
qed

lemma last_of_period_ends:
  assumes "store_ok st" "0 < Period k" "p = None \<or> (\<exists>q b. p = Some q \<and> st q = Some b)"
  shows "\<exists>r. last_of_period k st p = Some r \<and> ends_period k st r \<and>
    r = (case p of None \<Rightarrow> None | Some q \<Rightarrow> period_back st q (the (st q)) ((nHeight (the (st q)) + 1) mod Period k))"
proof (cases p)
  case None
  then show ?thesis by (simp add: last_of_period_def ends_period_def)
next
  case (Some q)
  then obtain b where b: "st q = Some b" using assms(3) by blast
  let ?d = "(nHeight b + 1) mod Period k"
  have s: "(nHeight b + 1) smod Period k = ?d" using nonneg_height [OF assms(1) b] assms(2) by (simp add: smod_nonneg)
  have d: "0 \<le> ?d" using assms(2) by simp
  have "(nHeight b - ?d + 1) mod Period k = 0" by (metis add.commute add_diff_eq mod_0_imp_dvd minus_mod_eq_div_mult mod_mult_self2_is_0)
  then have "ends_period k st (period_back st q b ?d)"
    using back_height [OF assms(1) b d] by (auto simp: ends_period_def)
  then show ?thesis using GetAncestor_back [OF assms(1) b d] b Some s by (simp add: last_of_period_def)
qed

lemma GetStateFor_state:
  assumes "store_ok st" "0 < Period k" "cache_ok k st cache" "p = None \<or> (\<exists>q b. p = Some q \<and> st q = Some b)"
    and r: "last_of_period k st p = Some r"
  shows "\<exists>s cache'. GetStateFor k st p cache = Some (s, cache') \<and> bip9_state k st r s \<and> cache_ok k st cache'"
proof -
  have e: "ends_period k st r" using last_of_period_ends [OF assms(1,2,4)] r by auto
  have "todo_ok k st r []" by simp
  from walk_back_known [OF assms(1-3) e this] obtain c p' qs s where
    w: "walk_back k st cache r [] = Some (c, p', qs)" "c p' = Some s" "bip9_state k st p' s" "cache_ok k st c" "todo_ok k st p' qs"
       "last (p' # map Some qs) = r" by (elim exE conjE) auto
  from walk_forward_states [OF assms(1,2) w(5,3,4)] show ?thesis unfolding GetStateFor_def by (simp add: r w del: last.simps)
qed

section \<open>Transitions\<close>

fun bip9_step :: "ThresholdState \<Rightarrow> ThresholdState \<Rightarrow> bool" where
  "bip9_step THRESHOLD_DEFINED s \<longleftrightarrow> s \<in> {THRESHOLD_DEFINED, THRESHOLD_STARTED, THRESHOLD_FAILED}"
| "bip9_step THRESHOLD_STARTED s \<longleftrightarrow> s \<in> {THRESHOLD_STARTED, THRESHOLD_LOCKED_IN, THRESHOLD_FAILED}"
| "bip9_step THRESHOLD_LOCKED_IN s \<longleftrightarrow> s = THRESHOLD_ACTIVE"
| "bip9_step THRESHOLD_ACTIVE s \<longleftrightarrow> s = THRESHOLD_ACTIVE"
| "bip9_step THRESHOLD_FAILED s \<longleftrightarrow> s = THRESHOLD_FAILED"

lemma next_state_step: "next_state k st s q = Some s' \<Longrightarrow> bip9_step s s'"
  by (cases s) (auto simp: next_state_def Option.bind_eq_Some_conv split: if_splits)

text \<open>A block before the start time follows only such blocks.\<close>

lemma early_back:
  assumes "store_ok st" "times_rule st" "0 < Period k" "st q = Some b" "GetMedianTimePast st q = Some n" "n < BeginTime k"
    "period_back st q b (Period k) = Some r"
  obtains c m where "st r = Some c" "GetMedianTimePast st r = Some m" "m < BeginTime k" "r < q"
proof -
  have r: "up st q (nat (Period k)) = Some r" using assms(7) by (auto simp: period_back_def split: if_splits)
  obtain c where c: "st r = Some c" using back_height [OF assms(1,4), of "Period k"] assms(3,7) by auto
  obtain m where m: "GetMedianTimePast st r = Some m" using median_total [OF assms(1) c] .
  have "m \<le> n" using median_up [OF assms(1,2,4) r m assms(5)] .
  moreover have "r < q" using up_less [OF assms(1,4) _ r] assms(3) by simp
  ultimately show thesis using that c m assms(6) by simp
qed

lemma bip9_transition:
  assumes "store_ok st" "times_rule st" "0 < Period k" "st q = Some b"
    and "bip9_state k st (Some q) s'" "bip9_state k st (period_back st q b (Period k)) s"
  shows "bip9_step s s'"
proof -
  obtain n where n: "GetMedianTimePast st q = Some n" using median_total [OF assms(1,4)] .
  show ?thesis
  proof (cases "n < BeginTime k")
    case True
    have "bip9_state k st (period_back st q b (Period k)) THRESHOLD_DEFINED"
    proof (cases "period_back st q b (Period k)")
      case (Some r)
      obtain c m where "st r = Some c" "GetMedianTimePast st r = Some m" "m < BeginTime k" "r < q"
        by (rule early_back [OF assms(1-4) n True Some])
      then show ?thesis unfolding Some by (intro bip9_early)
    qed (simp add: bip9_genesis)
    from bip9_unique [OF this assms(6)] have "s = THRESHOLD_DEFINED" .
    moreover from bip9_unique [OF bip9_early [OF n True] assms(5)] have "s' = THRESHOLD_DEFINED" .
    ultimately show ?thesis by simp
  next
    case False
    from assms(5) n False obtain b' t where t: "st q = Some b'" "bip9_state k st (period_back st q b' (Period k)) t" "next_state k st t q = Some s'"
      unfolding next_state_moves [OF n] by (auto elim!: bip9_SomeE)
    then have "t = s" using bip9_unique assms(4,6) by simp
    then show ?thesis using next_state_step t(3) by blast
  qed
qed

section \<open>The shortcut\<close>

text \<open>Where block times obey the median rule and a deployment does not end before it starts, the shortcut makes no difference.\<close>

definition cache_bip9 :: "AbstractThresholdConditionChecker \<Rightarrow> index_store \<Rightarrow> ThresholdConditionCache \<Rightarrow> bool" where
  "cache_bip9 k st cache \<longleftrightarrow> (\<forall>p s. cache p = Some s \<longrightarrow> bip9 k st p s)"

lemma bip9_early_defined:
  assumes "store_ok st" "times_rule st" "0 < Period k" "BeginTime k \<le> EndTime k"
  shows "st q = Some b \<Longrightarrow> GetMedianTimePast st q = Some n \<Longrightarrow> n < BeginTime k \<Longrightarrow> bip9 k st (Some q) THRESHOLD_DEFINED"
proof (induction q arbitrary: b n rule: less_induct)
  case (less q)
  have "bip9 k st (period_back st q b (Period k)) THRESHOLD_DEFINED"
  proof (cases "period_back st q b (Period k)")
    case None
    then show ?thesis by (simp add: bip9_before)
  next
    case (Some r)
    obtain c m where r: "st r = Some c" "GetMedianTimePast st r = Some m" "m < BeginTime k" "r < q"
      by (rule early_back [OF assms(1-3) less.prems Some])
    show ?thesis unfolding Some by (rule less.IH [OF r(4,1,2,3)])
  qed
  from bip9_period [OF less.prems(1) this less.prems(2) bip9_defined] less.prems(3) assms(4) show ?case by simp
qed

lemma bip9_state_bip9:
  assumes "store_ok st" "times_rule st" "0 < Period k" "BeginTime k \<le> EndTime k"
  shows "bip9_state k st p s \<Longrightarrow> bip9 k st p s"
proof (induction rule: bip9_state.induct)
  case (bip9_early q m)
  then obtain b where "st q = Some b" by (auto simp: GetMedianTimePast_def numeral_eq_Suc Option.bind_eq_Some_conv)
  then show ?case using bip9_early_defined [OF assms] bip9_early by blast
qed (auto intro: bip9_before bip9_period)

lemma bip9_bip9_state:
  assumes "store_ok st" "times_rule st" "0 < Period k" "BeginTime k \<le> EndTime k"
  shows "bip9 k st p s \<Longrightarrow> bip9_state k st p s"
proof (induction rule: bip9.induct)
  case (bip9_period q b s m s')
  show ?case
  proof (cases "m < BeginTime k")
    case True
    have "bip9_state k st (period_back st q b (Period k)) THRESHOLD_DEFINED"
    proof (cases "period_back st q b (Period k)")
      case (Some r)
      obtain c l where "st r = Some c" "GetMedianTimePast st r = Some l" "l < BeginTime k" "r < q"
        by (rule early_back [OF assms(1-3) bip9_period.hyps(1,3) True Some])
      then show ?thesis unfolding Some by (intro bip9_state.bip9_early)
    qed (simp add: bip9_genesis)
    from bip9_unique [OF this bip9_period.IH] have "s = THRESHOLD_DEFINED" .
    then have "s' = THRESHOLD_DEFINED" using bip9_period.hyps(4) True assms(4) by (auto simp: bip9_moves_simps)
    then show ?thesis using bip9_early [OF bip9_period.hyps(3) True] by simp
  next
    case False
    then show ?thesis using bip9_period by (auto intro: bip9_move)
  qed
qed (rule bip9_genesis)

lemma cache_bip9_ok:
  assumes "store_ok st" "times_rule st" "0 < Period k" "BeginTime k \<le> EndTime k"
  shows "cache_bip9 k st cache \<longleftrightarrow> cache_ok k st cache"
  using bip9_state_bip9 [OF assms] bip9_bip9_state [OF assms] by (auto simp: cache_bip9_def cache_ok_def)

section \<open>Since when a state holds\<close>

text \<open>The first period in a row that has the state: it has the state, and the period before it has another one or does not exist.\<close>

definition first_in_state :: "AbstractThresholdConditionChecker \<Rightarrow> index_store \<Rightarrow> ThresholdState \<Rightarrow> ptr \<Rightarrow> bool" where
  "first_in_state k st v p \<longleftrightarrow> (\<exists>b. st p = Some b \<and> ends_period k st (Some p) \<and> bip9_state k st (Some p) v \<and>
     (period_back st p b (Period k) = None \<or> \<not> bip9_state k st (period_back st p b (Period k)) v))"

lemma last_of_period_same:
  assumes "store_ok st" "0 < Period k" "ends_period k st (Some r)"
  shows "last_of_period k st (Some r) = Some (Some r)"
proof -
  obtain x where x: "st r = Some x" "(nHeight x + 1) mod Period k = 0" using assms(3) by (auto simp: ends_period_def)
  then show ?thesis using last_of_period_ends [OF assms(1,2), of "Some r"] nonneg_height [OF assms(1) x(1)] by (auto simp: period_back_def)
qed

lemma since_loop_first:
  assumes "store_ok st" "0 < Period k"
  shows "st p = Some b \<Longrightarrow> ends_period k st (Some p) \<Longrightarrow> bip9_state k st (Some p) v \<Longrightarrow> cache_ok k st cache \<Longrightarrow>
    \<exists>p' cache'. since_loop k st v p (period_back st p b (Period k)) cache = Some (p', cache') \<and> first_in_state k st v p' \<and> cache_ok k st cache'"
proof (induction p arbitrary: b cache rule: less_induct)
  case (less p)
  show ?case
  proof (cases "period_back st p b (Period k)")
    case None
    then show ?thesis using less.prems by (subst since_loop.simps) (auto simp: first_in_state_def)
  next
    case (Some q)
    obtain c where c: "st q = Some c" using back_height [OF assms(1) less.prems(1), of "Period k"] assms(2) Some by auto
    have e: "ends_period k st (Some q)" using ends_back [OF assms less.prems(2,1)] Some by simp
    from GetStateFor_state [OF assms less.prems(4) _ last_of_period_same [OF assms e]] c obtain w d where
      w: "GetStateFor k st (Some q) cache = Some (w, d)" "bip9_state k st (Some q) w" "cache_ok k st d" by blast
    show ?thesis
    proof (cases "w = v")
      case True
      have "q < p" using up_less [OF assms(1) less.prems(1), of "nat (Period k)"] assms(2) Some by (auto simp: period_back_def split: if_splits)
      from less.IH [OF this c e _ w(3)] True w GetAncestor_back [OF assms(1) c, of "Period k"] assms(2) c Some show ?thesis
        by (subst since_loop.simps) simp
    next
      case False
      then have "\<not> bip9_state k st (Some q) v" using bip9_unique w(2) by blast
      then show ?thesis using Some w False less.prems by (subst since_loop.simps) (auto simp: first_in_state_def)
    qed
  qed
qed

text \<open>The height is zero for a deployment that is only defined, and else the first height of the period in which the current state began.\<close>

lemma since_height:
  assumes "store_ok st" "0 < Period k" "cache_ok k st cache" "p = None \<or> (\<exists>q b. p = Some q \<and> st q = Some b)"
  shows "\<exists>h cache' r v. GetStateSinceHeightFor k st p cache = Some (h, cache') \<and> cache_ok k st cache' \<and>
    last_of_period k st p = Some r \<and> bip9_state k st r v \<and>
    (if v = THRESHOLD_DEFINED then h = 0 else \<exists>q b. first_in_state k st v q \<and> st q = Some b \<and> h = nHeight b + 1)"
proof -
  obtain r where r: "last_of_period k st p = Some r" "ends_period k st r" using last_of_period_ends [OF assms(1,2,4)] by blast
  from GetStateFor_state [OF assms r(1)] obtain v d where v: "GetStateFor k st p cache = Some (v, d)" "bip9_state k st r v" "cache_ok k st d" by blast
  show ?thesis
  proof (cases "v = THRESHOLD_DEFINED")
    case True
    then show ?thesis using v r by (auto simp: GetStateSinceHeightFor_def)
  next
    case False
    then obtain p' where p': "r = Some p'" using v(2) by (cases r) (auto elim: bip9_NoneE)
    then obtain b where b: "st p' = Some b" using r(2) by (auto simp: ends_period_def)
    obtain q where q: "p = Some q" using r(1) p' by (cases p) (auto simp: last_of_period_def)
    from since_loop_first [OF assms(1,2) b] r(2) v(2,3) p' obtain x e where
      x: "since_loop k st v p' (period_back st p' b (Period k)) d = Some (x, e)" "first_in_state k st v x" "cache_ok k st e" by blast
    obtain y where y: "st x = Some y" using x(2) by (auto simp: first_in_state_def)
    have "GetStateSinceHeightFor k st p cache = Some (nHeight y + 1, e)"
      using v(1) False q r(1) p' b x(1) y GetAncestor_back [OF assms(1) b, of "Period k"] assms(2) by (simp add: GetStateSinceHeightFor_def)
    then show ?thesis using x y r v False by auto
  qed
qed

lemma root_times:
  obtains s p b where "reachable_index s" "objects s p = Some b" "nHeight b = 0" "times_rule (objects s)"
proof -
  obtain s p b where s: "reachable_index s" "objects s p = Some b" "nHeight b = 0" "dom (objects s) = {p}" by (rule root_index_only)
  have ok: "store_ok (objects s)" using reachable_store [OF s(1)] by blast
  have "pprev b = None" using store_okD [OF ok s(2)] s(3) nonneg_height [OF ok] by (fastforce simp: entry_ok_def split: option.splits)
  moreover have "x = p" if "objects s x = Some y" for x y using that s(4) by blast
  ultimately have "times_rule (objects s)" using s(2) by (fastforce simp: times_rule_def)
  with s show thesis by (intro that)
qed

section \<open>Properties\<close>

text \<open>C28: on every reachable index whose block times obey the median rule, for a deployment that does not end before it starts, and
  whatever states the cache holds as long as they are right, \<open>GetStateFor\<close> ends, never dereferences a null pointer, returns the state that the
  transitions of BIP 9, applied period by period from the first one, give at the last block of the previous period, and leaves a cache
  that is right. So the result does not depend on the cache.\<close>

theorem state_independent_of_cache:
  assumes "reachable_index s" "times_rule (objects s)" "0 < Period k" "BeginTime k \<le> EndTime k" "cache_bip9 k (objects s) cache"
    and "p = None \<or> (\<exists>q b. p = Some q \<and> objects s q = Some b)"
    and "r = (case p of None \<Rightarrow> None
      | Some q \<Rightarrow> period_back (objects s) q (the (objects s q)) ((nHeight (the (objects s q)) + 1) mod Period k))"
  shows "\<exists>v cache'. bip9 k (objects s) r v \<and> GetStateFor k (objects s) p cache = Some (v, cache') \<and> cache_bip9 k (objects s) cache' \<and>
    (\<forall>c w c'. cache_bip9 k (objects s) c \<longrightarrow> GetStateFor k (objects s) p c = Some (w, c') \<longrightarrow> w = v)"
proof -
  have ok: "store_ok (objects s)" using reachable_store [OF assms(1)] by blast
  have r: "last_of_period k (objects s) p = Some r" using last_of_period_ends [OF ok assms(3,6)] assms(7) by auto
  note c = cache_bip9_ok [OF ok assms(2-4)] and state = GetStateFor_state [OF ok assms(3) _ assms(6) r]
  obtain v cache' where v: "GetStateFor k (objects s) p cache = Some (v, cache')" "bip9_state k (objects s) r v" "cache_ok k (objects s) cache'"
    using state [of cache] assms(5) c by blast
  have "w = v" if "cache_ok k (objects s) c" "GetStateFor k (objects s) p c = Some (w, c')" for c w c'
    using state [OF that(1)] that(2) bip9_unique [OF v(2)] by auto
  then show ?thesis using v bip9_state_bip9 [OF ok assms(2-4)] c by blast
qed

theorem state_independent_of_cache_witness:
  "\<exists>s p v c. reachable_index s \<and> times_rule (objects s) \<and> objects s p \<noteq> None \<and> 0 < Period (VersionBitsConditionChecker main_consensus DEPLOYMENT_CSV) \<and>
     VersionBitsState (objects s) (Some p) main_consensus DEPLOYMENT_CSV VersionBitsCache_Clear = Some (v, c)"
proof -
  obtain s p b where s: "reachable_index s" "objects s p = Some b" "nHeight b = 0" "times_rule (objects s)" by (rule root_times)
  let ?k = "VersionBitsConditionChecker main_consensus DEPLOYMENT_CSV"
  have k: "0 < Period ?k" "BeginTime ?k \<le> EndTime ?k" by (simp_all add: VersionBitsConditionChecker_def main_consensus_def main_deployments_def)
  have "cache_bip9 ?k (objects s) (VersionBitsCache_Clear DEPLOYMENT_CSV)" by (simp add: cache_bip9_def VersionBitsCache_Clear_def)
  from state_independent_of_cache [OF s(1,4) k this _ refl, of "Some p"] s(2) obtain v c where
    "GetStateFor ?k (objects s) (Some p) (VersionBitsCache_Clear DEPLOYMENT_CSV) = Some (v, c)" by blast
  then have "VersionBitsState (objects s) (Some p) main_consensus DEPLOYMENT_CSV VersionBitsCache_Clear = Some (v, VersionBitsCache_Clear(DEPLOYMENT_CSV := c))"
    by (simp add: VersionBitsState_def)
  then show ?thesis using s k by blast
qed

text \<open>C29: where block times obey the median rule, the state of a deployment moves from one period to the next only along the
  transitions of BIP 9: it starts or fails, is locked in or fails, becomes active after being locked in, and then stays active;
  a failed deployment stays failed. This holds whatever right caches the two computations use.\<close>

theorem deployment_progress:
  assumes "reachable_index s" "times_rule (objects s)" "0 < Period k" "cache_ok k (objects s) c" "cache_ok k (objects s) d"
    and q: "objects s q = Some b" "(nHeight b + 1) mod Period k = 0"
    and "GetAncestor (objects s) q (nHeight b - Period k) = Some p"
    and "GetStateFor k (objects s) (Some q) c = Some (v', c')" "GetStateFor k (objects s) p d = Some (v, d')"
  shows "bip9_step v v'"
proof -
  have ok: "store_ok (objects s)" using reachable_store [OF assms(1)] by blast
  have p: "p = period_back (objects s) q b (Period k)" using GetAncestor_back [OF ok q(1), of "Period k"] assms(3,8) by simp
  have z: "nHeight b \<ge> 0" using nonneg_height [OF ok q(1)] .
  note same = last_of_period_same [OF ok assms(3)]
  have e: "ends_period k (objects s) (Some q)" using q by (auto simp: ends_period_def)
  have v': "bip9_state k (objects s) (Some q) v'" using GetStateFor_state [OF ok assms(3,4) _ same [OF e]] q(1) assms(9) by auto
  have ep: "ends_period k (objects s) p" using ends_back [OF ok assms(3) e q(1)] p by simp
  then have lp: "last_of_period k (objects s) p = Some p" using same by (cases p) (simp_all add: last_of_period_def)
  have pp: "p = None \<or> (\<exists>q b. p = Some q \<and> objects s q = Some b)" using ep by (cases p) (auto simp: ends_period_def)
  have "bip9_state k (objects s) p v" using GetStateFor_state [OF ok assms(3,5) pp lp] assms(10) by auto
  with v' p show ?thesis using bip9_transition [OF ok assms(2,3) q(1)] by simp
qed

theorem deployment_progress_witness:
  "\<exists>s q k v v' c c'. reachable_index s \<and> times_rule (objects s) \<and> objects s q \<noteq> None \<and>
     GetStateFor k (objects s) (Some q) Map.empty = Some (v', c) \<and> GetStateFor k (objects s) None Map.empty = Some (v, c') \<and> bip9_step v v'"
proof -
  obtain s p b where s: "reachable_index s" "objects s p = Some b" "nHeight b = 0" and t: "times_rule (objects s)" by (rule root_times)
  have ok: "store_ok (objects s)" using reachable_store [OF s(1)] by blast
  define k where "k = \<lparr>Condition = (\<lambda>_. True), BeginTime = 0, EndTime = 2 ^ 32, Period = 1, Threshold = 1\<rparr>"
  have k: "0 < Period k" "Period k = 1" by (simp_all add: k_def)
  have e: "cache_ok k (objects s) Map.empty" by (simp add: cache_ok_def)
  have a: "GetAncestor (objects s) p (nHeight b - Period k) = Some None" using s(2,3) k by (simp add: GetAncestor_def)
  obtain v' c where v': "GetStateFor k (objects s) (Some p) Map.empty = Some (v', c)"
    using GetStateFor_state [OF ok k(1) e, of "Some p"] last_of_period_ends [OF ok k(1), of "Some p"] s(2) by blast
  obtain v c' where v: "GetStateFor k (objects s) None Map.empty = Some (v, c')"
    using GetStateFor_state [OF ok k(1) e, of None] last_of_period_ends [OF ok k(1), of None] by blast
  have "bip9_step v v'" using deployment_progress [OF s(1) t k(1) e e s(2) _ a v' v] k(2) by simp
  with s(1,2) t v v' show ?thesis by blast
qed

end
