(* ===== verification/DocsNav.thy ===== *)
theory DocsNav
  imports Main "HOL-Library.Sublist"
begin

text \<open>
  \<^verbatim>\<open>html/docs/assets/nav.js\<close>: the script that fills the sidebar of every documentation page and marks
  the link of the current page. The window, the script elements and the navigation elements of the
  page are the state; the browser's HTML parser, which turns the markup assigned to \<open>innerHTML\<close> into
  anchors, is an argument of the model. What the script relies on of that parser is
  \<open>parses_fragments\<close>.
\<close>

section \<open>Strings of the language\<close>

text \<open>\<open>String.prototype.indexOf\<close>.\<close>

primrec index_from :: "string \<Rightarrow> string \<Rightarrow> int \<Rightarrow> int" where
  "index_from pat [] i = (if pat = [] then i else - 1)"
| "index_from pat (c # s) i = (if prefix pat (c # s) then i else index_from pat s (i + 1))"

definition indexOf :: "string \<Rightarrow> string \<Rightarrow> int" where
  "indexOf s pat = index_from pat s 0"

text \<open>\<open>split("/")\<close>, whose result is never the empty array, and \<open>pop()\<close> of such a result.\<close>

fun split_slash :: "string \<Rightarrow> string list" where
  "split_slash [] = [[]]"
| "split_slash (c # s) =
     (if c = CHR ''/'' then [] # split_slash s
      else case split_slash s of [] \<Rightarrow> [[c]] | seg # segs \<Rightarrow> (c # seg) # segs)"

definition pop :: "string list \<Rightarrow> string" where
  "pop xs = last xs"

text \<open>\<open>replace(/\\/g, "/")\<close>: every backslash becomes a slash.\<close>

definition slashes :: "string \<Rightarrow> string" where
  "slashes s = map (\<lambda>c. if c = CHR 0x5C then CHR ''/'' else c) s"

text \<open>\<open>x || d\<close> on a string that may be absent: the empty string is falsy too.\<close>

definition or_else :: "string option \<Rightarrow> string \<Rightarrow> string" where
  "or_else x d = (case x of None \<Rightarrow> d | Some s \<Rightarrow> if s = [] then d else s)"

section \<open>The page\<close>

record window =
  pathname :: "string option"
  win_href :: string

record anchor =
  a_href :: "string option"
  a_class :: "string list"

text \<open>
  The \<open>src\<close> attributes of the script elements, and the anchors inside each \<open>nav\<close> element below
  \<open>.sidebar\<close>, in document order.
\<close>

record document =
  scripts :: "string option list"
  navs :: "anchor list list"

section \<open>The script\<close>

definition nav_path :: "window \<Rightarrow> string" where
  "nav_path w = slashes (or_else (pathname w) [])"

primrec scan_scripts :: "string option list \<Rightarrow> bool \<Rightarrow> bool" where
  "scan_scripts [] inPages = inPages"
| "scan_scripts (s # ss) inPages =
     (let src = or_else s []
      in scan_scripts ss (if indexOf src ''../assets/nav.js'' \<noteq> - 1 then True else inPages))"

definition in_pages :: "window \<Rightarrow> document \<Rightarrow> bool" where
  "in_pages w d =
     (let inPages = sublist ''/pages/'' (nav_path w) \<or> sublist ([CHR 0x5C] @ ''pages'' @ [CHR 0x5C]) (win_href w)
      in if \<not> inPages then scan_scripts (scripts d) inPages else inPages)"

definition link :: "string \<Rightarrow> string \<Rightarrow> string" where
  \<open>link href label = ''<a href="'' @ href @ ''">'' @ label @ ''</a>''\<close>

definition nav_html :: "bool \<Rightarrow> string" where
  \<open>nav_html inPages =
    (let p = if inPages then [] else ''pages/'';
         root = if inPages then ''../'' else []
     in concat
     [''<div class="nav-section">Start here</div>'',
      link (root @ ''index.html'') ''Dashboard'',
      link (p @ ''recovery-status.html'') ''Recovery status'',
      link (p @ ''roadmap.html'') ''Roadmap'',
      ''<div class="nav-section">Understanding</div>'',
      link (p @ ''how-it-works.html'') ''How it works'',
      link (p @ ''install-roles.html'') ''Install roles'',
      link (p @ ''testnet.html'') ''Testnet'',
      link (p @ ''architecture.html'') ''Architecture'',
      link (p @ ''module-map.html'') ''Module map'',
      link (p @ ''diagrams.html'') ''Diagrams'',
      link (p @ ''glossary.html'') ''Glossary'',
      ''<div class="nav-section">Core Pro product</div>'',
      link (p @ ''ui-reference-core-pro.html'') ''Core Pro UI reference'',
      link (p @ ''modern-ui.html'') ''Modern UI &amp; themes'',
      link (p @ ''payment-layer.html'') ''Payment layer'',
      link (p @ ''pure-doge-strategy.html'') ''Pure DOGE strategy'',
      link (p @ ''memestream-integration.html'') ''MemeStream'',
      link (p @ ''arcade.html'') ''Arcade'',
      ''<div class="nav-section">Node performance</div>'',
      link (p @ ''ibd-and-p2p.html'') ''IBD &amp; P2P'',
      link (p @ ''assumeutxo.html'') ''AssumeUTXO'',
      link (p @ ''fast-sync.html'') ''Fast Sync explained'',
      link (p @ ''gpenode.html'') ''GPENode operator'',
      link (p @ ''multi-operator-mesh.html'') ''Multi-operator mesh'',
      ''<div class="nav-section">Storage &amp; security</div>'',
      link (p @ ''storage-stack.html'') ''Storage stack'',
      link (p @ ''fast-sync-threat-model.html'') ''Fast Sync threat model'',
      link (p @ ''sqlite-wallet-plan.html'') ''SQLite wallet plan'',
      link (p @ ''security-hardening.html'') ''Security hardening'',
      link (p @ ''security-audit-core.html'') ''Core attack audit'',
      link (p @ ''security-changelog.html'') ''Security changelog'',
      ''<div class="nav-section">Workstreams</div>'',
      link (p @ ''rebrand-audit.html'') ''Rebrand audit'',
      link (p @ ''build-and-run.html'') ''Build &amp; run'',
      ''<div class="nav-section">Repo</div>'',
      link (p @ ''source-of-truth.html'') ''Source of truth''])\<close>

definition nav_install :: "(string \<Rightarrow> anchor list) \<Rightarrow> string \<Rightarrow> document \<Rightarrow> document" where
  "nav_install parse html d =
     (case navs d of [] \<Rightarrow> d | nav # rest \<Rightarrow> d\<lparr>navs := parse html # rest\<rparr>)"

definition nav_file :: "string \<Rightarrow> string" where
  "nav_file path =
     (let file = or_else (Some (pop (split_slash path))) ''index.html''
      in if file = [] \<or> file = ''docs'' \<or> indexOf file ''.'' = - 1 then ''index.html'' else file)"

text \<open>\<open>classList.add\<close> adds a token that is not there yet.\<close>

definition class_add :: "string \<Rightarrow> anchor \<Rightarrow> anchor" where
  "class_add c a = (if c \<in> set (a_class a) then a else a\<lparr>a_class := a_class a @ [c]\<rparr>)"

text \<open>The selector \<open>a[href]\<close> passes over anchors without the attribute.\<close>

definition nav_mark :: "string \<Rightarrow> anchor \<Rightarrow> anchor" where
  "nav_mark file a =
     (if a_href a = None then a
      else let href = or_else (a_href a) []; target = pop (split_slash href)
           in if target = file then class_add ''active'' a else a)"

definition nav_main :: "(string \<Rightarrow> anchor list) \<Rightarrow> window \<Rightarrow> document \<Rightarrow> document" where
  "nav_main parse w d =
     (let path = nav_path w;
          html = nav_html (in_pages w d);
          d = nav_install parse html d;
          file = nav_file path
      in d\<lparr>navs := map (map (nav_mark file)) (navs d)\<rparr>)"

section \<open>Specification\<close>

text \<open>The entries of the sidebar: a heading, or a link with its file below the root or below \<open>pages\<close>.\<close>

datatype nav_item = Section string | Link bool string string

definition nav_items :: "nav_item list" where
  "nav_items =
    [Section ''Start here'',
     Link True ''index.html'' ''Dashboard'',
     Link False ''recovery-status.html'' ''Recovery status'',
     Link False ''roadmap.html'' ''Roadmap'',
     Section ''Understanding'',
     Link False ''how-it-works.html'' ''How it works'',
     Link False ''install-roles.html'' ''Install roles'',
     Link False ''testnet.html'' ''Testnet'',
     Link False ''architecture.html'' ''Architecture'',
     Link False ''module-map.html'' ''Module map'',
     Link False ''diagrams.html'' ''Diagrams'',
     Link False ''glossary.html'' ''Glossary'',
     Section ''Core Pro product'',
     Link False ''ui-reference-core-pro.html'' ''Core Pro UI reference'',
     Link False ''modern-ui.html'' ''Modern UI &amp; themes'',
     Link False ''payment-layer.html'' ''Payment layer'',
     Link False ''pure-doge-strategy.html'' ''Pure DOGE strategy'',
     Link False ''memestream-integration.html'' ''MemeStream'',
     Link False ''arcade.html'' ''Arcade'',
     Section ''Node performance'',
     Link False ''ibd-and-p2p.html'' ''IBD &amp; P2P'',
     Link False ''assumeutxo.html'' ''AssumeUTXO'',
     Link False ''fast-sync.html'' ''Fast Sync explained'',
     Link False ''gpenode.html'' ''GPENode operator'',
     Link False ''multi-operator-mesh.html'' ''Multi-operator mesh'',
     Section ''Storage &amp; security'',
     Link False ''storage-stack.html'' ''Storage stack'',
     Link False ''fast-sync-threat-model.html'' ''Fast Sync threat model'',
     Link False ''sqlite-wallet-plan.html'' ''SQLite wallet plan'',
     Link False ''security-hardening.html'' ''Security hardening'',
     Link False ''security-audit-core.html'' ''Core attack audit'',
     Link False ''security-changelog.html'' ''Security changelog'',
     Section ''Workstreams'',
     Link False ''rebrand-audit.html'' ''Rebrand audit'',
     Link False ''build-and-run.html'' ''Build &amp; run'',
     Section ''Repo'',
     Link False ''source-of-truth.html'' ''Source of truth'']"

primrec item_href :: "bool \<Rightarrow> nav_item \<Rightarrow> string option" where
  "item_href inPages (Section s) = None"
| "item_href inPages (Link at_root f l) =
     Some ((if at_root then if inPages then ''../'' else [] else if inPages then [] else ''pages/'') @ f)"

primrec item_html :: "bool \<Rightarrow> nav_item \<Rightarrow> string" where
  \<open>item_html inPages (Section s) = ''<div class="nav-section">'' @ s @ ''</div>''\<close>
| "item_html inPages (Link at_root f l) = link (the (item_href inPages (Link at_root f l))) l"

definition nav_hrefs :: "bool \<Rightarrow> string list" where
  "nav_hrefs inPages = List.map_filter (item_href inPages) nav_items"

text \<open>The files under \<^verbatim>\<open>html/docs/pages\<close>.\<close>

definition docs_pages :: "string list" where
  "docs_pages =
    [''arcade.html'', ''architecture.html'', ''assumeutxo.html'',
     ''build-and-run.html'', ''diagrams.html'', ''fast-sync-threat-model.html'',
     ''fast-sync.html'', ''glossary.html'', ''gpenode.html'',
     ''how-it-works.html'', ''ibd-and-p2p.html'', ''install-roles.html'',
     ''memestream-integration.html'', ''modern-ui.html'', ''module-map.html'',
     ''multi-operator-mesh.html'', ''payment-layer.html'', ''pure-doge-strategy.html'',
     ''rebrand-audit.html'', ''recovery-status.html'', ''roadmap.html'',
     ''security-audit-core.html'', ''security-changelog.html'', ''security-hardening.html'',
     ''source-of-truth.html'', ''sqlite-wallet-plan.html'', ''storage-stack.html'',
     ''testnet.html'', ''ui-reference-core-pro.html'']"

text \<open>
  Resolution of a relative reference against the directory of the current page: \<open>..\<close> removes a
  segment and any other segment is appended.
\<close>

primrec resolve_segs :: "string list \<Rightarrow> string list \<Rightarrow> string list" where
  "resolve_segs dir [] = dir"
| "resolve_segs dir (s # ss) = resolve_segs (if s = ''..'' then butlast dir else dir @ [s]) ss"

definition resolve :: "string list \<Rightarrow> string \<Rightarrow> string list" where
  "resolve dir href = resolve_segs dir (split_slash href)"

text \<open>
  What the script relies on of the HTML parser: on a sequence of headings and links as the script
  writes them, it yields one anchor per link, with the given \<open>href\<close> and no class.
\<close>

definition plain :: "string \<Rightarrow> bool" where
  \<open>plain s \<longleftrightarrow> list_all (\<lambda>c. c \<notin> set ''<>"'') s\<close>

definition parses_fragments :: "(string \<Rightarrow> anchor list) \<Rightarrow> bool" where
  \<open>parses_fragments parse \<longleftrightarrow>
     parse [] = [] \<and>
     (\<forall>s rest. plain s \<longrightarrow> parse (''<div class="nav-section">'' @ s @ ''</div>'' @ rest) = parse rest) \<and>
     (\<forall>h l rest. plain h \<and> CHR ''&'' \<notin> set h \<and> plain l \<longrightarrow>
        parse (link h l @ rest) = \<lparr>a_href = Some h, a_class = []\<rparr> # parse rest)\<close>

section \<open>Facts\<close>

lemma index_from_eq_minus: "0 \<le> i \<Longrightarrow> index_from pat s i = - 1 \<longleftrightarrow> \<not> sublist pat s"
  by (induction s arbitrary: i) (auto simp: sublist_Cons_right)

lemma indexOf_eq_minus: "indexOf s pat = - 1 \<longleftrightarrow> \<not> sublist pat s"
  by (simp add: indexOf_def index_from_eq_minus)

lemma scan_scripts_iff:
  "scan_scripts ss b \<longleftrightarrow> b \<or> list_ex (\<lambda>s. sublist ''../assets/nav.js'' (or_else s [])) ss"
  by (induction ss arbitrary: b) (auto simp: indexOf_eq_minus Let_def)

lemma split_slash_not_Nil [simp]: "split_slash s \<noteq> []"
  by (induction s) (auto split: list.splits)

lemma split_slash_plain: "CHR ''/'' \<notin> set s \<Longrightarrow> split_slash s = [s]"
  by (induction s) auto

lemma split_slash_append: "CHR ''/'' \<notin> set s \<Longrightarrow> split_slash (s @ CHR ''/'' # t) = s # split_slash t"
  by (induction s) auto

lemma split_slash_segs: "seg \<in> set (split_slash s) \<Longrightarrow> CHR ''/'' \<notin> set seg"
proof (induction s arbitrary: seg)
  case (Cons c s)
  then show ?case
    by (cases "split_slash s") (auto split: if_splits)
qed simp

lemma nav_html_items: "nav_html inPages = concat (map (item_html inPages) nav_items)"
  by (cases inPages) (simp_all add: nav_html_def nav_items_def)

text \<open>Which entries the parser laws apply to.\<close>

primrec item_plain :: "nav_item \<Rightarrow> bool" where
  "item_plain (Section s) = plain s"
| "item_plain (Link at_root f l) = (plain f \<and> CHR ''&'' \<notin> set f \<and> plain l)"

lemma nav_items_plain: "list_all item_plain nav_items"
  by (simp add: nav_items_def plain_def)

lemma parse_items:
  assumes "parses_fragments parse"
  shows "list_all item_plain items \<Longrightarrow> parse (concat (map (item_html b) items)) =
    map (\<lambda>h. \<lparr>a_href = Some h, a_class = []\<rparr>) (List.map_filter (item_href b) items)"
proof (induction items)
  case Nil
  then show ?case using assms by (simp add: parses_fragments_def List.map_filter_simps)
next
  case (Cons it items)
  then show ?case
  proof (cases it)
    case (Section s)
    then show ?thesis using Cons assms by (simp add: parses_fragments_def List.map_filter_simps)
  next
    case (Link at_root f l)
    let ?h = "the (item_href b it)"
    have "plain ?h" "CHR ''&'' \<notin> set ?h" "plain l" using Cons.prems Link by (auto simp: plain_def)
    then have "parse (link ?h l @ concat (map (item_html b) items)) =
        \<lparr>a_href = Some ?h, a_class = []\<rparr> # parse (concat (map (item_html b) items))"
      using assms by (simp add: parses_fragments_def)
    then show ?thesis using Cons Link by (simp add: List.map_filter_simps)
  qed
qed

lemma parse_nav_html:
  "parses_fragments parse \<Longrightarrow> parse (nav_html b) = map (\<lambda>h. \<lparr>a_href = Some h, a_class = []\<rparr>) (nav_hrefs b)"
  by (simp add: nav_html_items parse_items nav_items_plain nav_hrefs_def)

text \<open>The page files the sidebar names, in its order.\<close>

definition nav_page_files :: "string list" where
  "nav_page_files = List.map_filter (\<lambda>it. case it of Section s \<Rightarrow> None | Link r f l \<Rightarrow> if r then None else Some f) nav_items"

lemma nav_hrefs_eq:
  "nav_hrefs b = ((if b then ''../'' else []) @ ''index.html'') # map (\<lambda>f. (if b then [] else ''pages/'') @ f) nav_page_files"
  by (cases b) (simp_all add: nav_hrefs_def nav_page_files_def nav_items_def List.map_filter_simps)

lemma nav_page_files_eq: "set nav_page_files = set docs_pages" "distinct nav_page_files"
  by (simp_all add: nav_page_files_def nav_items_def docs_pages_def List.map_filter_simps)
     (auto simp: insert_commute)

lemma nav_page_files_segs: "f \<in> set nav_page_files \<Longrightarrow> CHR ''/'' \<notin> set f \<and> f \<noteq> ''..'' \<and> f \<noteq> ''index.html''"
  by (auto simp: nav_page_files_def nav_items_def List.map_filter_simps)

lemma resolve_seg: "CHR ''/'' \<notin> set f \<Longrightarrow> f \<noteq> ''..'' \<Longrightarrow> resolve dir f = dir @ [f]"
  by (simp add: resolve_def split_slash_plain)

lemma resolve_step: "CHR ''/'' \<notin> set s \<Longrightarrow> resolve dir (s @ CHR ''/'' # t) = resolve (if s = ''..'' then butlast dir else dir @ [s]) t"
  by (simp add: resolve_def split_slash_append)

lemma resolve_nav_hrefs:
  "map (resolve (if b then dir @ [''pages''] else dir)) (nav_hrefs b) =
   (dir @ [''index.html'']) # map (\<lambda>f. dir @ [''pages'', f]) nav_page_files"
proof -
  have "resolve (if b then dir @ [''pages''] else dir) ((if b then [] else ''pages/'') @ f) = dir @ [''pages'', f]"
    if "f \<in> set nav_page_files" for f
    using nav_page_files_segs [OF that] resolve_step [of "''pages''" dir f] by (simp add: resolve_seg)
  moreover have "resolve (if b then dir @ [''pages''] else dir) ((if b then ''../'' else []) @ ''index.html'') = dir @ [''index.html'']"
    using resolve_step [of "''..''" "dir @ [''pages'']" "''index.html''"] by (simp add: resolve_seg)
  ultimately show ?thesis by (simp add: nav_hrefs_eq)
qed

lemma nav_mark_href [simp]: "a_href (nav_mark file a) = a_href a"
  by (simp add: nav_mark_def class_add_def Let_def)

lemma nav_mark_fresh:
  "''active'' \<in> set (a_class (nav_mark file \<lparr>a_href = Some h, a_class = []\<rparr>)) \<longleftrightarrow> pop (split_slash h) = file"
  by (simp add: nav_mark_def class_add_def or_else_def)

lemma nav_mark_idem: "nav_mark file (nav_mark file a) = nav_mark file a"
  by (simp add: nav_mark_def class_add_def Let_def)

lemma nav_targets:
  "map (\<lambda>h. pop (split_slash h)) (nav_hrefs b) = ''index.html'' # nav_page_files"
proof -
  have "pop (split_slash ((if b then [] else ''pages/'') @ f)) = f" if "f \<in> set nav_page_files" for f
    using nav_page_files_segs [OF that] split_slash_append [of "''pages''" f] by (simp add: pop_def split_slash_plain)
  then have "map (\<lambda>f. pop (split_slash ((if b then [] else ''pages/'') @ f))) nav_page_files = nav_page_files"
    by (simp add: map_idI)
  moreover have "pop (split_slash ((if b then ''../'' else []) @ ''index.html'')) = ''index.html''"
    by (simp add: pop_def)
  ultimately show ?thesis unfolding nav_hrefs_eq by (simp add: o_def)
qed

lemma nav_main_first:
  assumes "parses_fragments parse" and "navs d = nav # rest"
  shows "navs (nav_main parse w d) =
    map (\<lambda>h. nav_mark (nav_file (nav_path w)) \<lparr>a_href = Some h, a_class = []\<rparr>) (nav_hrefs (in_pages w d)) #
    map (map (nav_mark (nav_file (nav_path w)))) rest"
  using assms by (simp add: nav_main_def nav_install_def Let_def parse_nav_html)

lemma map_filter_target:
  "map p xs = ts \<Longrightarrow> map r xs = map g ts \<Longrightarrow> distinct ts \<Longrightarrow> t \<in> set ts \<Longrightarrow> map r (filter (\<lambda>x. p x = t) xs) = [g t]"
proof (induction xs arbitrary: ts)
  case (Cons x xs)
  then have p: "p x \<notin> p ` set xs" "map r xs = map g (map p xs)" "distinct (map p xs)" "r x = g (p x)" "t \<in> p ` set (x # xs)" by auto
  show ?case
  proof (cases "p x = t")
    case True
    have "filter (\<lambda>x. p x = t) xs = []" unfolding filter_empty_conv using p(1) True by (metis imageI)
    then show ?thesis using True p(4) by simp
  next
    case False
    then show ?thesis using Cons.IH [OF refl p(2,3)] p(5) by auto
  qed
qed simp

text \<open>A concrete scanner with the laws asked of the parser.\<close>

primrec scan_anchors :: "string \<Rightarrow> anchor list" where
  "scan_anchors [] = []"
| \<open>scan_anchors (c # s) =
     (if prefix ''<a href="'' (c # s)
      then [\<lparr>a_href = Some (takeWhile (\<lambda>x. x \<noteq> CHR 0x22) (drop 8 s)), a_class = []\<rparr>] else []) @ scan_anchors s\<close>

lemma scan_plain: "plain s \<Longrightarrow> scan_anchors (s @ t) = scan_anchors t"
  by (induction s) (auto simp: plain_def)

lemma scan_anchors_parses: "parses_fragments scan_anchors"
  unfolding parses_fragments_def
proof (intro conjI allI impI)
  fix h l rest assume *: "plain h \<and> CHR ''&'' \<notin> set h \<and> plain l"
  then have "takeWhile (\<lambda>x. x \<noteq> CHR 0x22) (h @ CHR 0x22 # t) = h" for t
    by (subst takeWhile_append2) (auto simp: plain_def list_all_iff)
  with * show "scan_anchors (link h l @ rest) = \<lparr>a_href = Some h, a_class = []\<rparr> # scan_anchors rest"
    by (simp add: link_def scan_plain)
qed (simp_all add: scan_plain)

section \<open>The pages of the site\<close>

text \<open>
  The script runs on a page of the documentation: the site is served below the directory with the segments \<open>base\<close>, none of which is
  called \<open>pages\<close>, and the page is a file under \<open>pages\<close> or the index page, which is also served for the directory itself. The index page
  neither loads the script from \<^verbatim>\<open>../assets\<close> nor has an address with a \<open>pages\<close> directory between backslashes.
\<close>

definition path_of :: "string list \<Rightarrow> string" where
  "path_of segs = concat (map (\<lambda>seg. ''/'' @ seg) segs)"

definition site_page :: "string list \<Rightarrow> bool \<Rightarrow> string \<Rightarrow> window \<Rightarrow> document \<Rightarrow> bool" where
  "site_page base below f w d \<longleftrightarrow>
     list_all (\<lambda>seg. seg \<noteq> ''pages'' \<and> CHR ''/'' \<notin> set seg \<and> CHR 0x5C \<notin> set seg) base \<and>
     pathname w = Some (path_of (base @ (if below then [''pages'', f] else [f]))) \<and>
     (if below then f \<in> set docs_pages
      else f \<in> {[], ''index.html''} \<and> \<not> sublist ([CHR 0x5C] @ ''pages'' @ [CHR 0x5C]) (win_href w) \<and>
        \<not> list_ex (\<lambda>s. sublist ''../assets/nav.js'' (or_else s [])) (scripts d))"

lemma split_slash_join: "split_slash (s @ CHR ''/'' # t) = split_slash s @ split_slash t"
  by (induction s) (auto split: list.splits)

lemma split_path: "list_all (\<lambda>seg. CHR ''/'' \<notin> set seg) segs \<Longrightarrow> split_slash (path_of segs) = [] # segs"
proof (induction segs rule: rev_induct)
  case (snoc seg segs)
  then have "split_slash (path_of (segs @ [seg])) = split_slash (path_of segs) @ split_slash seg"
    using split_slash_join [of "path_of segs" seg] by (simp add: path_of_def)
  then show ?case using snoc by (simp add: split_slash_plain)
qed (simp add: path_of_def)

lemma docs_pages_segs: "f \<in> set docs_pages \<Longrightarrow> CHR ''/'' \<notin> set f \<and> CHR 0x5C \<notin> set f \<and> f \<noteq> ''pages'' \<and> sublist ''.'' f"
  by (auto simp: docs_pages_def sublist_Cons_right)

lemma site_page_segs:
  assumes "site_page base below f w d"
  defines "segs \<equiv> base @ (if below then [''pages'', f] else [f])"
  shows "nav_path w = path_of segs" "split_slash (nav_path w) = [] # segs" "''pages'' \<in> set segs \<longleftrightarrow> below"
proof -
  have f: "CHR ''/'' \<notin> set f \<and> CHR 0x5C \<notin> set f \<and> f \<noteq> ''pages''"
    using assms(1) docs_pages_segs [of f] by (auto simp: site_page_def split: if_splits)
  have segs: "list_all (\<lambda>seg. CHR ''/'' \<notin> set seg \<and> CHR 0x5C \<notin> set seg) segs"
    using assms(1) f by (auto simp: site_page_def segs_def list_all_iff)
  then have "CHR 0x5C \<notin> set (path_of segs)" by (auto simp: path_of_def list_all_iff)
  then have "slashes (path_of segs) = path_of segs" unfolding slashes_def by (intro map_idI) auto
  moreover have "or_else (pathname w) [] = path_of segs" using assms(1) by (simp add: site_page_def segs_def or_else_def)
  ultimately show n: "nav_path w = path_of segs" by (simp add: nav_path_def)
  then show "split_slash (nav_path w) = [] # segs" using split_path [of segs] segs by (simp add: list_all_iff)
  show "''pages'' \<in> set segs \<longleftrightarrow> below" using assms(1) f by (auto simp: site_page_def segs_def list_all_iff)
qed

lemma site_page_in_pages:
  assumes "site_page base below f w d"
  shows "in_pages w d \<longleftrightarrow> below"
proof (cases below)
  case True
  then have "nav_path w = path_of base @ ''/pages/'' @ f" using site_page_segs(1) [OF assms] by (simp add: path_of_def)
  then have "sublist ''/pages/'' (nav_path w)" by (metis sublist_appendI)
  then show ?thesis using True by (simp add: in_pages_def Let_def)
next
  case False
  have "\<not> sublist ''/pages/'' (nav_path w)"
  proof
    assume "sublist ''/pages/'' (nav_path w)"
    then obtain xs ys where "nav_path w = xs @ ''/pages/'' @ ys" by (auto simp: sublist_def)
    then have "split_slash (nav_path w) = split_slash xs @ ''pages'' # split_slash ys"
      using split_slash_join [of xs "''pages/'' @ ys"] split_slash_append [of "''pages''" ys] by simp
    then have "''pages'' \<in> set (split_slash (nav_path w))" by simp
    then show False using site_page_segs(2,3) [OF assms] False by simp
  qed
  then show ?thesis using False assms by (simp add: in_pages_def site_page_def scan_scripts_iff Let_def)
qed

lemma site_page_file:
  assumes "site_page base below f w d"
  shows "nav_file (nav_path w) = (if below then f else ''index.html'')"
  using assms site_page_segs(2) [OF assms] docs_pages_segs [of f]
  by (auto simp: nav_file_def pop_def or_else_def site_page_def indexOf_eq_minus sublist_Cons_right split: if_splits)

section \<open>Properties\<close>



text \<open>
  C38: on every page of the site the script marks exactly one link of the first sidebar, and that link resolves to the page itself, or
  to the index page when the page was requested by its directory.
\<close>

theorem nav_marks_current:
  assumes "site_page base below f w d" "parses_fragments parse" "navs d = nav # rest"
  shows "map (\<lambda>a. resolve (if below then base @ [''pages''] else base) (the (a_href a)))
      (filter (\<lambda>a. ''active'' \<in> set (a_class a)) (hd (navs (nav_main parse w d)))) =
    [base @ (if below then [''pages'', f] else [''index.html''])]"
proof -
  let ?t = "if below then f else ''index.html''" and ?dir = "if below then base @ [''pages''] else base"
  let ?g = "\<lambda>t. if t = ''index.html'' then base @ [''index.html''] else base @ [''pages'', t]"
  have f: "below \<Longrightarrow> f \<in> set nav_page_files" using assms(1) nav_page_files_eq(1) by (simp add: site_page_def)
  have "map (resolve ?dir) (nav_hrefs below) = map ?g (''index.html'' # nav_page_files)"
    using resolve_nav_hrefs [of below base] nav_page_files_segs by (auto cong: map_cong)
  moreover have "distinct (''index.html'' # nav_page_files)" using nav_page_files_eq(2) nav_page_files_segs by auto
  moreover have "?t \<in> set (''index.html'' # nav_page_files)" using f by simp
  ultimately have "map (resolve ?dir) (filter (\<lambda>h. pop (split_slash h) = ?t) (nav_hrefs below)) = [?g ?t]"
    using map_filter_target [OF nav_targets [of below]] by blast
  moreover have "?g ?t = base @ (if below then [''pages'', f] else [''index.html''])" using f nav_page_files_segs [of f] by auto
  ultimately show ?thesis
    by (simp add: nav_main_first [OF assms(2,3)] site_page_in_pages [OF assms(1)] site_page_file [OF assms(1)]
      filter_map o_def nav_mark_fresh cong: if_cong)
qed

theorem nav_marks_current_witness:
  "map a_href (filter (\<lambda>a. ''active'' \<in> set (a_class a))
     (hd (navs (nav_main scan_anchors \<lparr>pathname = Some ''/docs/'', win_href = []\<rparr> \<lparr>scripts = [], navs = [[]]\<rparr>)))) \<noteq> []"
proof -
  have "site_page [''docs''] False [] \<lparr>pathname = Some ''/docs/'', win_href = []\<rparr> \<lparr>scripts = [], navs = [[]]\<rparr>"
    by (simp add: site_page_def path_of_def)
  from nav_marks_current [OF this scan_anchors_parses, of "[]" "[]"] show ?thesis by auto
qed

text \<open>
  The page is taken to be under \<open>pages\<close> exactly when its path has a \<open>pages\<close> directory, its address
  has one between backslashes, or some script element refers to the script by its relative path.
\<close>

theorem in_pages_iff:
  "in_pages w d \<longleftrightarrow>
     sublist ''/pages/'' (map (\<lambda>c. if c = CHR 0x5C then CHR ''/'' else c) (or_else (pathname w) [])) \<or>
     sublist ([CHR 0x5C] @ ''pages'' @ [CHR 0x5C]) (win_href w) \<or>
     list_ex (\<lambda>s. sublist ''../assets/nav.js'' (or_else s [])) (scripts d)"
  by (auto simp: in_pages_def nav_path_def slashes_def scan_scripts_iff Let_def)

text \<open>
  The name the script looks for is a single path segment that contains a dot; a path that ends in
  a slash, or whose last segment has no dot, stands for the index page.
\<close>

theorem nav_file_segment:
  "sublist ''.'' (nav_file path) \<and> CHR ''/'' \<notin> set (nav_file path) \<and>
   (if sublist ''.'' (pop (split_slash path)) then nav_file path = pop (split_slash path)
    else nav_file path = ''index.html'')"
proof -
  have "CHR ''/'' \<notin> set (pop (split_slash path))"
    unfolding pop_def by (rule split_slash_segs [OF last_in_set]) simp
  then show ?thesis
    by (auto simp: nav_file_def or_else_def Let_def indexOf_eq_minus sublist_Cons_right)
qed

text \<open>
  C39: the script never touches the script elements, leaves a page without a sidebar alone, only marks
  the links of further sidebars, and running it again changes nothing.
\<close>

theorem nav_main_frame:
  "scripts (nav_main parse w d) = scripts d \<and>
   (navs d = [] \<longrightarrow> nav_main parse w d = d) \<and>
   tl (navs (nav_main parse w d)) = map (map (nav_mark (nav_file (nav_path w)))) (tl (navs d)) \<and>
   nav_main parse w (nav_main parse w d) = nav_main parse w d"
proof -
  have in_p: "in_pages w (d\<lparr>navs := x\<rparr>) = in_pages w d" for x by (simp add: in_pages_def)
  show ?thesis
    by (cases "navs d") (simp_all add: nav_main_def nav_install_def Let_def in_p o_def nav_mark_idem)
qed

theorem nav_main_frame_witness:
  "nav_main scan_anchors \<lparr>pathname = None, win_href = []\<rparr> \<lparr>scripts = [None], navs = []\<rparr> = \<lparr>scripts = [None], navs = []\<rparr>"
  using nav_main_frame [of scan_anchors "\<lparr>pathname = None, win_href = []\<rparr>" "\<lparr>scripts = [None], navs = []\<rparr>"] by simp

end
