(* ===== verification/Spec2Isabelle.thy ===== *)
theory Spec2Isabelle
  imports Prelude Bytes ArithUint256 Hasher Rounds Sha2 Sha1 Sha256 Sha512 Ripemd160 Hash Amount Scrypt Serialize Transaction Fees Script Interpreter Sighash Spending Header Merkle PartialMerkle BlockIndex Chain Params Pow AuxPow VersionBits DocsNav
begin

text \<open>
  A verification library for the consensus core of the Dogecoin node under \<^verbatim>\<open>src/\<close> and for the script of its
  documentation under \<^verbatim>\<open>html/docs/\<close>. Each theory translates the named files into definitions that compute, and proves
  what makes that part correct.

  \<^bold>\<open>The parts and how they interact.\<close> A block header is 80 bytes. Its identity is a double SHA-256 and its work is an scrypt
  hash, compared with a 256-bit target that the header carries in compact form. Headers enter the block index, a tree of
  objects linked to their predecessors; the path to the best tip is the active chain. The next target is computed from the
  index and from parameters that depend on the height. A block commits to its transactions by a Merkle root, and partial
  trees prove to light clients that a transaction is in a block. Transactions have a wire format, a hash and checks of
  their own; amounts, fees and the subsidy bound the money supply. An input spends an output if its script and witness make the
  script of the output, run by a stack machine, leave a true value; signatures in them sign a hash of the transaction.

  \<^bold>\<open>Theories, in the order of their dependencies.\<close>

  \<^item> \<open>Prelude\<close>, \<open>Bytes\<close>: fixed-width integers, two's complement wrap-around, byte order (\<^verbatim>\<open>crypto/common.h\<close>).
  \<^item> \<open>ArithUint256\<close> (\<^verbatim>\<open>arith_uint256.h\<close>, \<^verbatim>\<open>arith_uint256.cpp\<close>): eight 32-bit limbs, and every operator as its limb loop.
    The lemmas give the integer operation modulo \<open>2 ^ 256\<close>, the quotient with its exception, and the compact form: which one
    \<open>GetCompact\<close> yields for a value, and what \<open>SetCompact\<close> reads back.
  \<^item> \<open>Hasher\<close>, \<open>Rounds\<close>, \<open>Sha2\<close>, \<open>Sha1\<close>, \<open>Sha256\<close>, \<open>Sha512\<close>, \<open>Ripemd160\<close> (\<^verbatim>\<open>crypto/\<close>): the buffered hash objects and their
    unrolled transforms. The locale \<open>block_hash\<close> is the buffering, interpreted for each of the four objects; \<open>unrolled\<close> relates rotated
    argument lists to shifting registers. The objects compute the published functions for any split of the message into writes.
  \<^item> \<open>Hash\<close> (\<^verbatim>\<open>hash.h\<close>, \<^verbatim>\<open>hash.cpp\<close>, the HMAC classes): combined and keyed hashes. The locale \<open>hash_object\<close> carries RFC 2104 once
    for both HMAC classes.
  \<^item> \<open>Scrypt\<close> (\<^verbatim>\<open>crypto/scrypt.cpp\<close>): PBKDF2 and the portable scrypt, equal to RFC 7914 with its fixed parameters
    on the first 80 bytes of the input, which is all the code reads.
  \<^item> \<open>Serialize\<close> (\<^verbatim>\<open>serialize.h\<close>, \<^verbatim>\<open>streams.h\<close>): readers and writers. The locale \<open>wire\<close> is the contract that reading inverts
    writing; every wire format of the development interprets it. \<open>CDataStream\<close>, with its 32-bit position, refines the
    sequence of unread bytes under every operation until the position wraps.
  \<^item> \<open>Transaction\<close> (\<^verbatim>\<open>primitives/transaction.h\<close>, \<^verbatim>\<open>CheckTransaction\<close> and \<^verbatim>\<open>IsFinalTx\<close> of \<^verbatim>\<open>validation.cpp\<close>), \<open>Amount\<close>
    (\<^verbatim>\<open>amount.cpp\<close>, \<^verbatim>\<open>utilmoneystr.cpp\<close>), \<open>Fees\<close> (\<^verbatim>\<open>dogecoin-fees.cpp\<close>): data, round trips, exact acceptance conditions, sums
    and fees without overflow. A transaction with outputs and no inputs has a wire format that does not read back.
  \<^item> \<open>Script\<close> (\<^verbatim>\<open>script/script.h\<close>, \<^verbatim>\<open>script/script.cpp\<close>), \<open>Interpreter\<close> and \<open>Spending\<close> (\<^verbatim>\<open>script/interpreter.cpp\<close>), \<open>Sighash\<close>
    (its signature hashes): instructions, numbers of 64 bits, the stack machine as a step function on a record with the local variables of
    \<open>EvalScript\<close>, and \<open>VerifyScript\<close>. The rules \<open>when_ok\<close> carry invariants through the operations and \<open>script_reaches\<close> is the
    set of states evaluation passes through, which obey the limits. Multisignatures, key hashes, script hashes and
    unspendable outputs are characterised, and the signed bytes are those of the reference in the unit test.
  \<^item> \<open>Header\<close> (\<^verbatim>\<open>primitives/pureheader.h\<close>): the header, its 80 bytes and the parts of its version.
  \<^item> \<open>Merkle\<close> (\<^verbatim>\<open>consensus/merkle.cpp\<close>) and \<open>PartialMerkle\<close> (\<^verbatim>\<open>merkleblock.cpp\<close>): the constant-space root equals the root of
    the tree built level by level, branches verify, equal roots mean equal leaves or a collision; partial trees deliver the
    matched transactions. Extraction of a tree of a peer that yields the root of a block reports only transactions of the block, short of a
    collision and provided the tree states the right number of transactions; a tree that states a single one passes off the root itself.
  \<^item> \<open>BlockIndex\<close> and \<open>Chain\<close> (\<^verbatim>\<open>chain.h\<close>, \<^verbatim>\<open>chain.cpp\<close>, \<^verbatim>\<open>AddToBlockIndex\<close> of \<^verbatim>\<open>validation.cpp\<close>): objects in an explicit store
    from addresses to records. \<open>reachable_index\<close> is the set of indexes that adding headers produces; heights, work, times
    and skip pointers are an invariant of it. Ancestors, the active chain, forks, locators and the search by time are then
    characterised on every reachable index.
  \<^item> \<open>Params\<close> (\<^verbatim>\<open>consensus/params.h\<close>, \<^verbatim>\<open>chainparams.cpp\<close>, hexadecimal text of \<^verbatim>\<open>uint256.cpp\<close>): the parameters of the three
    networks and the search tree that picks them by height.
  \<^item> \<open>Pow\<close> (\<^verbatim>\<open>pow.cpp\<close>, \<^verbatim>\<open>dogecoin.cpp\<close>): the proof-of-work test, the next target on the main network as a function of the
    height, the last target and two block times, and the subsidy.
  \<^item> \<open>AuxPow\<close> (\<^verbatim>\<open>auxpow.cpp\<close>, \<^verbatim>\<open>primitives/block.h\<close>, the check in \<^verbatim>\<open>dogecoin.cpp\<close>): merge mining. Short of a collision, a parent
    coinbase with the merged mining header serves at most one block of a chain, and one without it at most one for each of the first 21
    places of its script. The minimal auxiliary work that the node builds for a header needs nothing but work.
  \<^item> \<open>VersionBits\<close> (\<^verbatim>\<open>versionbits.cpp\<close>): rule changes by signals in block versions. The relation \<open>bip9\<close> applies the
    transitions of BIP 9 period by period, without a cache and without the shortcut for blocks before the start time. Where block times obey
    the median rule the cached computation returns these states, and they move forward only.
  \<^item> \<open>DocsNav\<close> (\<^verbatim>\<open>html/docs/assets/nav.js\<close>): the sidebar script, over a document of script elements and sidebars. \<open>site_page\<close> says
    which pages the site has and where they are served; on each the links resolve to the pages of the site and the marked one is the page itself.

  \<^bold>\<open>State, errors and loops.\<close> Objects with state are records that operations return updated. Exceptions are \<open>Inl\<close> or \<open>None\<close>,
  failed assertions and dereferenced null pointers are \<open>None\<close>. Loops are structural recursion or recursion with a
  termination proof. The loops that follow pointers through an arbitrary store may not end there: \<open>settip_loop\<close>, \<open>fork_loop\<close>,
  \<open>locator_loop\<close>, \<open>walk_back\<close>, \<open>since_loop\<close> and \<open>last_regular\<close> are partial functions with the result \<open>None\<close> for not ending, and the
  theorems about all but the last show that they return on every reachable index.

  \<^bold>\<open>Bounds.\<close> No fuel is used. The array of 32 inner hashes in the Merkle computation suffices up to \<open>2 ^ 31\<close> leaves; heights
  are integers, since a chain of \<open>2 ^ 31\<close> blocks is out of reach at one block a minute, and work is kept modulo
  \<open>2 ^ 256\<close> as in the code. The extraction of partial trees is bounded by the block size test of the code.

  \<^bold>\<open>Parameters.\<close> The random generator of the old rewards (Boost), the verification of ECDSA signatures and the HTML parser of the
  browser are arguments; what is relied upon is a hypothesis of the theorems concerned, with a witness. Resistance to collisions is never assumed in general: the
  theorems name the finite set of pairs on which the hash must be injective.

  \<^bold>\<open>Not modelled.\<close> Keys and the elliptic curve library (vendored code), standard templates and signing, the coins and block databases and all
  file I/O, networking and peers, the wallet, RPC, the graphical interface and its translation files, the SSE2 variant of scrypt,
  and the ciphers of the wallet: they are I/O, third-party code, or depend on it. Of the files above, the conversions to
  floating point and the text forms that only print are left out.
\<close>

end
